(* ===== verification/Sprd_Prelude.thy ===== *)
theory Sprd_Prelude
  imports Main "HOL-Library.Word" "HOL-Library.Monad_Syntax"
begin

unbundle bit_operations_syntax

text \<open>
  Shared vocabulary of the development: the machine types of the target (32-bit ARM, ILP32,
  little endian, plain \<open>char\<close> unsigned, as the Android tool chain for these boards has it),
  byte buffers whose out-of-range accesses are the value \<open>None\<close>, the little-endian layout
  of 16 and 32 bit integers, and the generic reachability locale the state machines use.
\<close>

type_synonym u8 = "8 word"
type_synonym u16 = "16 word"
type_synonym u32 = "32 word"
type_synonym bytes = "u8 list"

named_theorems buf_simps \<open>reads and writes of byte buffers\<close>
named_theorems le_simps \<open>little-endian layout of integers\<close>

section \<open>Byte buffers\<close>

text \<open>
  A C array is a list of its bytes. \<open>buf_write off d b\<close> is a \<open>memcpy\<close> of \<open>d\<close> to
  \<open>&b[off]\<close> and \<open>buf_read off n b\<close> reads \<open>n\<close> bytes from \<open>&b[off]\<close>; an access
  that leaves the array is undefined behaviour and is \<open>None\<close>.
\<close>

definition buf_write :: "nat \<Rightarrow> 'a list \<Rightarrow> 'a list \<Rightarrow> 'a list option" where
  "buf_write off d b =
     (if off + length d \<le> length b
      then Some (take off b @ d @ drop (off + length d) b) else None)"

definition buf_read :: "nat \<Rightarrow> nat \<Rightarrow> 'a list \<Rightarrow> 'a list option" where
  "buf_read off n b = (if off + n \<le> length b then Some (take n (drop off b)) else None)"

lemma buf_write_Some_iff [buf_simps]:
  "buf_write off d b = Some b' \<longleftrightarrow>
     off + length d \<le> length b \<and> b' = take off b @ d @ drop (off + length d) b"
  by (auto simp: buf_write_def)

lemma buf_write_length: "buf_write off d b = Some b' \<Longrightarrow> length b' = length b"
  by (auto simp: buf_write_def split: if_splits)

lemma buf_write_defined: "off + length d \<le> length b \<Longrightarrow> \<exists>b'. buf_write off d b = Some b'"
  by (simp add: buf_write_def)

lemma buf_read_same:
  "buf_write off d b = Some b' \<Longrightarrow> buf_read off (length d) b' = Some d"
  by (auto simp: buf_write_def buf_read_def split: if_splits)

lemma buf_write_nth:
  assumes "buf_write off d b = Some b'" and "i < length b"
  shows "b' ! i = (if off \<le> i \<and> i < off + length d then d ! (i - off) else b ! i)"
  using assms by (auto simp: buf_write_def nth_append split: if_splits)

lemma buf_read_nth:
  "buf_read off n b = Some r \<Longrightarrow> i < n \<Longrightarrow> r ! i = b ! (off + i)"
  by (auto simp: buf_read_def split: if_splits)

lemma buf_read_Some_iff [buf_simps]:
  "buf_read off n b = Some r \<longleftrightarrow> off + n \<le> length b \<and> r = take n (drop off b)"
  by (auto simp: buf_read_def)

lemma buf_read_other:
  assumes w: "buf_write off d b = Some b'" and sep: "i + n \<le> off \<or> off + length d \<le> i"
  shows "buf_read i n b' = buf_read i n b"
proof (cases "i + n \<le> length b")
  case True
  have len: "length b' = length b" using w by (rule buf_write_length)
  have "take n (drop i b') = take n (drop i b)"
  proof (rule nth_equalityI)
    show "length (take n (drop i b')) = length (take n (drop i b))" using len by simp
  next
    fix k assume k: "k < length (take n (drop i b'))"
    then show "take n (drop i b') ! k = take n (drop i b) ! k"
      using buf_write_nth [OF w, of "i + k"] sep len True by auto
  qed
  with True len show ?thesis by (simp add: buf_read_def)
next
  case False
  with buf_write_length [OF w] show ?thesis by (simp add: buf_read_def)
qed

section \<open>Integers in memory\<close>

definition lo8 :: "u16 \<Rightarrow> u8" where "lo8 w = ucast w"
definition hi8 :: "u16 \<Rightarrow> u8" where "hi8 w = ucast (drop_bit 8 w)"

text \<open>A 16-bit load from two consecutive bytes and the matching store.\<close>

definition le16 :: "u8 \<Rightarrow> u8 \<Rightarrow> u16" where
  "le16 a b = ucast a OR push_bit 8 (ucast b)"

definition to_le16 :: "u16 \<Rightarrow> bytes" where
  "to_le16 w = [lo8 w, hi8 w]"

definition le32 :: "u8 \<Rightarrow> u8 \<Rightarrow> u8 \<Rightarrow> u8 \<Rightarrow> u32" where
  "le32 a b c d = ucast a OR push_bit 8 (ucast b) OR push_bit 16 (ucast c) OR push_bit 24 (ucast d)"

definition to_le32 :: "u32 \<Rightarrow> bytes" where
  "to_le32 w = [ucast w, ucast (drop_bit 8 w), ucast (drop_bit 16 w), ucast (drop_bit 24 w)]"

lemma le16_split [simp]: "le16 (lo8 w) (hi8 w) = w"
  unfolding le16_def lo8_def hi8_def
  by (rule bit_word_eqI) (auto simp: bit_simps)

lemma lo8_le16 [simp]: "lo8 (le16 a b) = a"
  unfolding le16_def lo8_def
  by (rule bit_word_eqI) (auto simp: bit_simps dest: bit_imp_le_length)

lemma hi8_le16 [simp]: "hi8 (le16 a b) = b"
  unfolding le16_def hi8_def
  by (rule bit_word_eqI) (auto simp: bit_simps dest: bit_imp_le_length)

lemma lo8_ucast [simp]: "lo8 (ucast b) = b"
  by (rule bit_word_eqI) (simp add: lo8_def bit_simps)

lemma xor_twice: "((x :: 'a::len word) XOR y) XOR y = x"
  by (simp add: xor.assoc)

lemma xor_zero_eq: "(x :: 'a::len word) XOR y = 0 \<Longrightarrow> x = y"
  by (metis xor_twice xor.left_neutral)

lemma length_to_le16 [simp]: "length (to_le16 w) = 2"
  by (simp add: to_le16_def)

lemma length_to_le32 [simp]: "length (to_le32 w) = 4"
  by (simp add: to_le32_def)

lemma le32_split:
  "le32 (ucast w) (ucast (drop_bit 8 w)) (ucast (drop_bit 16 w)) (ucast (drop_bit 24 w)) = w"
  unfolding le32_def
proof (rule bit_word_eqI)
  fix n assume "n < LENGTH(32)"
  then consider "n < 8" | "8 \<le> n \<and> n < 16" | "16 \<le> n \<and> n < 24" | "24 \<le> n \<and> n < 32"
    by fastforce
  then show "bit (ucast (ucast w :: u8) OR push_bit 8 (ucast (ucast (drop_bit 8 w) :: u8)) OR
      push_bit 16 (ucast (ucast (drop_bit 16 w) :: u8)) OR
      push_bit 24 (ucast (ucast (drop_bit 24 w) :: u8)) :: u32) n = bit w n"
    by cases (auto simp: bit_simps less_diff_conv2)
qed

definition read_le16 :: "nat \<Rightarrow> bytes \<Rightarrow> u16 option" where
  "read_le16 off b = (case buf_read off 2 b of Some [x, y] \<Rightarrow> Some (le16 x y) | _ \<Rightarrow> None)"

definition read_le32 :: "nat \<Rightarrow> bytes \<Rightarrow> u32 option" where
  "read_le32 off b =
     (case buf_read off 4 b of Some [x, y, z, w] \<Rightarrow> Some (le32 x y z w) | _ \<Rightarrow> None)"

lemma read_le32_defined:
  assumes "off + 4 \<le> length b"
  shows "\<exists>w. read_le32 off b = Some w"
proof -
  have "length (take 4 (drop off b)) = Suc (Suc (Suc (Suc 0)))" using assms by simp
  then obtain x y z w where "take 4 (drop off b) = [x, y, z, w]" by (auto simp: length_Suc_conv simp del: length_take)
  then show ?thesis using assms by (simp add: read_le32_def buf_read_def)
qed

lemma read_le16_write: "buf_write off (to_le16 w) b = Some b' \<Longrightarrow> read_le16 off b' = Some w"
  using buf_read_same [of off "to_le16 w" b b']
  by (simp add: read_le16_def to_le16_def numeral_2_eq_2)

lemma read_le32_write: "buf_write off (to_le32 w) b = Some b' \<Longrightarrow> read_le32 off b' = Some w"
  using buf_read_same [of off "to_le32 w" b b']
  unfolding length_to_le32 by (simp add: read_le32_def to_le32_def le32_split)

text \<open>The big-endian conversions of \<open>packet.h\<close>.\<close>

definition cpu2be16 :: "u16 \<Rightarrow> u16" where
  "cpu2be16 w = push_bit 8 (w AND 0xFF) OR (drop_bit 8 w AND 0xFF)"

definition cpu2be32 :: "u32 \<Rightarrow> u32" where
  "cpu2be32 w = push_bit 24 (w AND 0xFF) OR push_bit 16 (drop_bit 8 w AND 0xFF)
     OR push_bit 8 (drop_bit 16 w AND 0xFF) OR drop_bit 24 w"

lemma and_FF: "(w :: 'a::len word) AND 0xFF = take_bit 8 w"
  by (simp add: take_bit_eq_mask mask_eq_exp_minus_1)

lemma cpu2be16_bytes: "to_le16 (cpu2be16 w) = [hi8 w, lo8 w]"
  unfolding to_le16_def cpu2be16_def lo8_def hi8_def and_FF
  by (auto intro!: bit_word_eqI simp: bit_simps)

lemma cpu2be32_bytes: "to_le32 (cpu2be32 w) = rev (to_le32 w)"
  unfolding to_le32_def cpu2be32_def and_FF rev.simps append.simps list.inject
  by (intro conjI; (rule bit_word_eqI)?) (simp_all add: bit_simps)

definition from_le32 :: "bytes \<Rightarrow> u32" where
  "from_le32 bs = le32 (bs ! 0) (bs ! 1) (bs ! 2) (bs ! 3)"

lemma from_to_le32: "from_le32 (to_le32 w) = w"
  unfolding from_le32_def to_le32_def by (simp add: le32_split)

lemma to_le32_inject: "to_le32 v = to_le32 w \<Longrightarrow> v = w"
  by (drule arg_cong [where f = from_le32]) (simp only: from_to_le32)

lemma cpu2be32_involution: "cpu2be32 (cpu2be32 w) = w"
  by (rule to_le32_inject) (simp only: cpu2be32_bytes rev_rev_ident)

section \<open>Modular arithmetic\<close>

lemma mod_add_left_cancel_nat:
  fixes a b k n :: nat
  assumes "(k + a) mod n = (k + b) mod n"
  shows "a mod n = b mod n"
proof -
  have "int ((k + a) mod n) = int ((k + b) mod n)" using assms by (rule arg_cong)
  then have "int n dvd int a - int b"
    by (simp add: of_nat_mod mod_eq_dvd_iff)
  then have "int (a mod n) = int (b mod n)"
    by (simp add: of_nat_mod mod_eq_dvd_iff)
  then show ?thesis by (rule of_nat_eq_iff [THEN iffD1])
qed

section \<open>Exhaustive facts on bytes\<close>

lemma all_u8_iff: "(\<forall>w :: u8. P w) \<longleftrightarrow> list_all (\<lambda>n. P (word_of_nat n)) [0..<256]"
proof
  assume "\<forall>w :: u8. P w" then show "list_all (\<lambda>n. P (word_of_nat n)) [0..<256]"
    by (simp add: list_all_iff)
next
  assume *: "list_all (\<lambda>n. P (word_of_nat n)) [0..<256]"
  show "\<forall>w :: u8. P w"
  proof
    fix w :: u8
    have "unat w < 256" using unsigned_less [of w, where 'a = nat] by simp
    then have "unat w \<in> set [0..<256]" by simp
    with * have "P (word_of_nat (unat w))" unfolding list_all_iff by (rule bspec)
    then show "P w" by simp
  qed
qed

section \<open>Reachable states of a machine\<close>

text \<open>
  A component that reacts to inputs is a step function; an invariant that holds initially
  and is kept by every step holds after every run.
\<close>

fun run_steps :: "('s \<Rightarrow> 'i \<Rightarrow> 's option) \<Rightarrow> 's \<Rightarrow> 'i list \<Rightarrow> 's option" where
  "run_steps step s [] = Some s"
| "run_steps step s (i # is) = Option.bind (step s i) (\<lambda>s'. run_steps step s' is)"

lemma run_steps_append:
  "run_steps step s (xs @ ys) = Option.bind (run_steps step s xs) (\<lambda>s'. run_steps step s' ys)"
  by (induction xs arbitrary: s) (auto split: Option.bind_splits)

locale invariant_machine =
  fixes step :: "'s \<Rightarrow> 'i \<Rightarrow> 's option" and inv :: "'s \<Rightarrow> bool"
  assumes inv_step: "inv s \<Longrightarrow> step s i = Some s' \<Longrightarrow> inv s'"
begin

lemma inv_run: "inv s \<Longrightarrow> run_steps step s is = Some s' \<Longrightarrow> inv s'"
  by (induction "is" arbitrary: s) (auto simp: bind_eq_Some_conv intro: inv_step)

end

text \<open>A machine that never gets stuck where its invariant holds.\<close>

locale progress_machine = invariant_machine +
  assumes step_defined: "inv s \<Longrightarrow> \<exists>s'. step s i = Some s'"
begin

lemma run_defined: "inv s \<Longrightarrow> \<exists>s'. run_steps step s is = Some s' \<and> inv s'"
proof (induction "is" arbitrary: s)
  case (Cons i "is")
  obtain s1 where "step s i = Some s1" using step_defined [OF Cons.prems] by blast
  then show ?case using Cons.IH [of s1] inv_step Cons.prems by auto
qed simp

end

section \<open>Small arithmetic facts\<close>

lemma le_round_up: "0 < (H::nat) \<Longrightarrow> n \<le> (n + H - 1) div H * H"
  using div_mult_mod_eq [of "n + H - 1" H] mod_less_divisor [of H "n + H - 1"] by linarith

lemma sint_small:
  assumes "unat (w::u32) < 2 ^ 31"
  shows "sint w = int (unat w)"
proof -
  have u: "uint w = int (unat w)" by simp
  have "uint w < 2147483648" using of_nat_less_iff [where 'a = int, THEN iffD2, OF assms] by simp
  then have "signed_take_bit 31 (uint w) = uint w"
    by (intro signed_take_bit_int_eq_self) (simp_all add: order_trans [OF _ uint_ge_0])
  then show ?thesis by (simp add: sint_uint)
qed

lemma sum_list_ge_length:
  "(\<forall>r \<in> set rs. 1 \<le> r) \<Longrightarrow> length rs \<le> sum_list (map nat rs)"
  by (induction rs) (auto simp: Suc_le_eq add_strict_increasing)

end
