(* ===== verification/Checksums.thy ===== *)
theory Checksums
  imports Sprd_Prelude
begin

unbundle bit_operations_syntax

text \<open>
  The integrity codes of the two daemons: the bitwise CRC-CCITT \<open>crc_16_l_calc\<close>, the
  table driven CRC-16 \<open>calculate_crc\<close> (and its copy \<open>crc16\<close> in engmode), and the four
  implementations of the 16-bit ones' complement sum (\<open>frm_chk\<close>, \<open>boot_checksum\<close> and
  the two functions called \<open>calc_checksum\<close>). Two locales state what their clients rely on:
  \<open>byte_crc\<close> (a corrupted byte changes the CRC) and \<open>checksum16\<close> (the sum of a block and
  its checksum is 0 modulo 65535); each implementation is an interpretation.
\<close>

section \<open>The bitwise CRC-CCITT of crc16.c\<close>

definition CRC_16_POLYNOMIAL :: u16 where "CRC_16_POLYNOMIAL = 0x1021"
definition CRC_16_L_POLYNOMIAL :: u16 where "CRC_16_L_POLYNOMIAL = 0x8000"
definition CRC_16_L_SEED :: u32 where "CRC_16_L_SEED = 0x80"

text \<open>The inner loop: the mask \<open>i\<close> starts at the seed and is shifted right until it is 0.\<close>

function crc_l_bits :: "u8 \<Rightarrow> u32 \<Rightarrow> u16 \<Rightarrow> u16" where
  "crc_l_bits b i crc =
     (if i = 0 then crc
      else let crc1 = (if crc AND CRC_16_L_POLYNOMIAL \<noteq> 0
                       then push_bit 1 crc XOR CRC_16_POLYNOMIAL else push_bit 1 crc);
               crc2 = (if ucast b AND i \<noteq> 0 then crc1 XOR CRC_16_POLYNOMIAL else crc1)
           in crc_l_bits b (drop_bit 1 i) crc2)"
  by pat_completeness auto
termination
proof (relation "measure (\<lambda>(b, i, crc). unat i)")
  show "wf (measure (\<lambda>(b :: u8, i :: u32, crc :: u16). unat i))" by simp
next
  fix b :: u8 and i :: u32 and crc x y :: u16
  assume "i \<noteq> 0"
  then have "0 < unat i" by (simp add: unat_gt_0)
  then have "unat i div 2 < unat i" by simp
  then show "((b, drop_bit 1 i, y), b, i, crc) \<in> measure (\<lambda>(b, i, crc). unat i)"
    by (simp add: drop_bit_eq_div unat_div)
qed

declare crc_l_bits.simps [simp del]

definition crc_l_byte :: "u16 \<Rightarrow> u8 \<Rightarrow> u16" where
  "crc_l_byte crc b = crc_l_bits b CRC_16_L_SEED crc"

definition crc_16_l_calc :: "bytes \<Rightarrow> u32" where
  "crc_16_l_calc buf = ucast (foldl crc_l_byte 0 buf)"

section \<open>The table driven CRC-16\<close>

definition crc16_table :: "u16 list" where
  "crc16_table =
    [0x0000, 0xC0C1, 0xC181, 0x0140, 0xC301, 0x03C0, 0x0280, 0xC241,
     0xC601, 0x06C0, 0x0780, 0xC741, 0x0500, 0xC5C1, 0xC481, 0x0440,
     0xCC01, 0x0CC0, 0x0D80, 0xCD41, 0x0F00, 0xCFC1, 0xCE81, 0x0E40,
     0x0A00, 0xCAC1, 0xCB81, 0x0B40, 0xC901, 0x09C0, 0x0880, 0xC841,
     0xD801, 0x18C0, 0x1980, 0xD941, 0x1B00, 0xDBC1, 0xDA81, 0x1A40,
     0x1E00, 0xDEC1, 0xDF81, 0x1F40, 0xDD01, 0x1DC0, 0x1C80, 0xDC41,
     0x1400, 0xD4C1, 0xD581, 0x1540, 0xD701, 0x17C0, 0x1680, 0xD641,
     0xD201, 0x12C0, 0x1380, 0xD341, 0x1100, 0xD1C1, 0xD081, 0x1040,
     0xF001, 0x30C0, 0x3180, 0xF141, 0x3300, 0xF3C1, 0xF281, 0x3240,
     0x3600, 0xF6C1, 0xF781, 0x3740, 0xF501, 0x35C0, 0x3480, 0xF441,
     0x3C00, 0xFCC1, 0xFD81, 0x3D40, 0xFF01, 0x3FC0, 0x3E80, 0xFE41,
     0xFA01, 0x3AC0, 0x3B80, 0xFB41, 0x3900, 0xF9C1, 0xF881, 0x3840,
     0x2800, 0xE8C1, 0xE981, 0x2940, 0xEB01, 0x2BC0, 0x2A80, 0xEA41,
     0xEE01, 0x2EC0, 0x2F80, 0xEF41, 0x2D00, 0xEDC1, 0xEC81, 0x2C40,
     0xE401, 0x24C0, 0x2580, 0xE541, 0x2700, 0xE7C1, 0xE681, 0x2640,
     0x2200, 0xE2C1, 0xE381, 0x2340, 0xE101, 0x21C0, 0x2080, 0xE041,
     0xA001, 0x60C0, 0x6180, 0xA141, 0x6300, 0xA3C1, 0xA281, 0x6240,
     0x6600, 0xA6C1, 0xA781, 0x6740, 0xA501, 0x65C0, 0x6480, 0xA441,
     0x6C00, 0xACC1, 0xAD81, 0x6D40, 0xAF01, 0x6FC0, 0x6E80, 0xAE41,
     0xAA01, 0x6AC0, 0x6B80, 0xAB41, 0x6900, 0xA9C1, 0xA881, 0x6840,
     0x7800, 0xB8C1, 0xB981, 0x7940, 0xBB01, 0x7BC0, 0x7A80, 0xBA41,
     0xBE01, 0x7EC0, 0x7F80, 0xBF41, 0x7D00, 0xBDC1, 0xBC81, 0x7C40,
     0xB401, 0x74C0, 0x7580, 0xB541, 0x7700, 0xB7C1, 0xB681, 0x7640,
     0x7200, 0xB2C1, 0xB381, 0x7340, 0xB101, 0x71C0, 0x7080, 0xB041,
     0x5000, 0x90C1, 0x9181, 0x5140, 0x9301, 0x53C0, 0x5280, 0x9241,
     0x9601, 0x56C0, 0x5780, 0x9741, 0x5500, 0x95C1, 0x9481, 0x5440,
     0x9C01, 0x5CC0, 0x5D80, 0x9D41, 0x5F00, 0x9FC1, 0x9E81, 0x5E40,
     0x5A00, 0x9AC1, 0x9B81, 0x5B40, 0x9901, 0x59C0, 0x5880, 0x9841,
     0x8801, 0x48C0, 0x4980, 0x8941, 0x4B00, 0x8BC1, 0x8A81, 0x4A40,
     0x4E00, 0x8EC1, 0x8F81, 0x4F40, 0x8D01, 0x4DC0, 0x4C80, 0x8C41,
     0x4400, 0x84C1, 0x8581, 0x4540, 0x8701, 0x47C0, 0x4680, 0x8641,
     0x8201, 0x42C0, 0x4380, 0x8341, 0x4100, 0x81C1, 0x8081, 0x4040]"

definition crc16_byte :: "u16 \<Rightarrow> u8 \<Rightarrow> u16" where
  "crc16_byte crc b = drop_bit 8 crc XOR (crc16_table ! unat ((crc XOR ucast b) AND 0xFF))"

definition calculate_crc :: "u16 \<Rightarrow> bytes \<Rightarrow> u16" where
  "calculate_crc crc buf = foldl crc16_byte crc buf"

text \<open>The copy in \<open>apps/engmode/crc16.c\<close>; its table is the same one.\<close>

definition eng_crc16 :: "u16 \<Rightarrow> bytes \<Rightarrow> u16" where
  "eng_crc16 crc buf =
     foldl (\<lambda>c b. drop_bit 8 c XOR (crc16_table ! unat ((c XOR ucast b) AND 0xFF))) crc buf"

section \<open>Ones' complement sums\<close>

text \<open>The common tail: fold the carries in twice, complement, truncate to 16 bits.\<close>

definition ones_fold :: "u32 \<Rightarrow> u16" where
  "ones_fold s =
     (let s1 = drop_bit 16 s + (s AND 0xFFFF); s2 = s1 + drop_bit 16 s1 in ucast (NOT s2))"

text \<open>\<open>nvitem_fs.c\<close>: bytes are read one at a time, so no alignment is needed.\<close>

fun nv_checksum_loop :: "u32 \<Rightarrow> bytes \<Rightarrow> u32" where
  "nv_checksum_loop chkSum (a # b # dat) =
     (let num = (ucast a :: u16) OR push_bit 8 (ucast b)
      in nv_checksum_loop (chkSum + ucast num) dat)"
| "nv_checksum_loop chkSum [a] = chkSum + ucast a"
| "nv_checksum_loop chkSum [] = chkSum"

definition nv_calc_checksum :: "bytes \<Rightarrow> u16" where
  "nv_calc_checksum dat = ones_fold (nv_checksum_loop 0 dat)"

text \<open>\<open>crc16.c\<close>, \<open>frm_chk\<close>: two half words per round, then a switch on the rest.\<close>

fun frm_chk_loop :: "u32 \<Rightarrow> bytes \<Rightarrow> u32" where
  "frm_chk_loop s (a # b # c # d # src) =
     frm_chk_loop (s + ucast (le16 a b) + ucast (le16 c d)) src"
| "frm_chk_loop s [a, b] = s + ucast (le16 a b)"
| "frm_chk_loop s [a, b, c] = s + ucast (le16 a b) + ucast c"
| "frm_chk_loop s [a] = s + ucast a"
| "frm_chk_loop s [] = s"

definition frm_chk :: "bytes \<Rightarrow> u16" where
  "frm_chk src = ones_fold (frm_chk_loop 0 src)"

text \<open>\<open>crc16.c\<close>, \<open>boot_checksum\<close>: \<open>len >> 1\<close> half words, then the last byte if \<open>len\<close> is odd.\<close>

fun boot_words :: "nat \<Rightarrow> bytes \<Rightarrow> nat \<Rightarrow> u32 \<Rightarrow> u32" where
  "boot_words 0 src k s = s"
| "boot_words (Suc n) src k s =
     boot_words n src (k + 2) (s + ucast (le16 (src ! k) (src ! (k + 1))))"

definition boot_checksum :: "bytes \<Rightarrow> u16" where
  "boot_checksum src =
     (let size1 = length src div 2; size2 = length src mod 2;
          total = (if length src \<noteq> 0
                 then let s = boot_words size1 src 0 0
                      in if size2 \<noteq> 0 then s + ucast (src ! (length src - 1)) else s
                 else 0)
      in ones_fold total)"

text \<open>
  \<open>modem_boot.c\<close>, \<open>calc_checksum\<close>: the branch taken depends on the parity of the buffer's
  address. The odd branch keeps \<open>pstart\<close> an \<open>unsigned short *\<close>, so every round reads two
  half words (four bytes), combines them with a shift of 8 and advances by four bytes while
  only two are counted off; reads that leave the buffer are \<open>None\<close>.
\<close>

fun mb_odd_loop :: "nat \<Rightarrow> bytes \<Rightarrow> nat \<Rightarrow> u32 \<Rightarrow> u32 option" where
  "mb_odd_loop (Suc (Suc len)) dat k checksum =
     do { p \<leftarrow> read_le16 k dat;
          q \<leftarrow> read_le16 (k + 2) dat;
          mb_odd_loop len dat (k + 4) (checksum + (ucast p OR push_bit 8 (ucast q))) }"
| "mb_odd_loop (Suc 0) dat k checksum =
     do { p \<leftarrow> read_le16 k dat; Some (checksum + ucast p) }"
| "mb_odd_loop 0 dat k checksum = Some checksum"

definition mb_calc_checksum :: "bool \<Rightarrow> bytes \<Rightarrow> u16 option" where
  "mb_calc_checksum even_address dat =
     (if even_address
      then (let checksum = boot_words (length dat div 2) dat 0 0;
                checksum' = (if length dat mod 2 \<noteq> 0
                             then checksum + ucast (dat ! (2 * (length dat div 2)))
                             else checksum)
            in Some (ones_fold checksum'))
      else map_option ones_fold (mb_odd_loop (length dat) dat 0 0))"

section \<open>What a client relies on\<close>

locale byte_crc =
  fixes step :: "u16 \<Rightarrow> u8 \<Rightarrow> u16"
  assumes step_inj_state: "step c b = step c' b \<Longrightarrow> c = c'"
    and step_inj_byte: "step c b = step c b' \<Longrightarrow> b = b'"
begin

lemma run_inj_state: "foldl step c xs = foldl step c' xs \<Longrightarrow> c = c'"
  by (induction xs arbitrary: c c') (auto dest: step_inj_state)

lemma byte_change_detected:
  assumes i: "i < length xs" and ne: "b \<noteq> xs ! i"
  shows "foldl step c (xs[i := b]) \<noteq> foldl step c xs"
proof
  assume eq: "foldl step c (xs[i := b]) = foldl step c xs"
  have "xs[i := b] = take i xs @ b # drop (Suc i) xs"
    using i by (simp add: upd_conv_take_nth_drop)
  moreover have "xs = take i xs @ xs ! i # drop (Suc i) xs"
    using i by (rule id_take_nth_drop)
  ultimately have "foldl step (step (foldl step c (take i xs)) b) (drop (Suc i) xs) =
      foldl step (step (foldl step c (take i xs)) (xs ! i)) (drop (Suc i) xs)"
    using eq by (metis foldl_Cons foldl_append)
  then have "step (foldl step c (take i xs)) b = step (foldl step c (take i xs)) (xs ! i)"
    by (rule run_inj_state)
  then show False using ne by (auto dest: step_inj_byte)
qed

end

text \<open>The value a block sums to: its little-endian half words, an odd last byte padded with 0.\<close>

fun word_sum :: "bytes \<Rightarrow> nat" where
  "word_sum (a # b # r) = unat (le16 a b) + word_sum r"
| "word_sum [a] = unat a"
| "word_sum [] = 0"

locale checksum16 =
  fixes chk :: "bytes \<Rightarrow> u16"
  assumes complement: "length bs \<le> 131072 \<Longrightarrow> (unat (chk bs) + word_sum bs) mod 65535 = 0"
begin

lemma equal_sums:
  assumes "length xs \<le> 131072" and "length ys \<le> 131072" and eq: "chk xs = chk ys"
  shows "word_sum xs mod 65535 = word_sum ys mod 65535"
proof -
  have "(unat (chk xs) + word_sum xs) mod 65535 = (unat (chk xs) + word_sum ys) mod 65535"
    using complement [OF assms(1)] complement [OF assms(2)] eq by simp
  then show ?thesis by (rule mod_add_left_cancel_nat)
qed

end

section \<open>The bitwise CRC, bit by bit\<close>

definition crc_l_step :: "u16 \<Rightarrow> bool \<Rightarrow> u16" where
  "crc_l_step c m = (if bit c 15 \<noteq> m then push_bit 1 c XOR 0x1021 else push_bit 1 c)"

lemma crc_l_bits_step:
  assumes "i \<noteq> 0"
  shows "crc_l_bits b i crc = crc_l_bits b (drop_bit 1 i) (crc_l_step crc (ucast b AND i \<noteq> 0))"
proof -
  have hi: "(crc AND CRC_16_L_POLYNOMIAL \<noteq> 0) = bit crc 15"
    by (simp add: CRC_16_L_POLYNOMIAL_def bit_iff_and_push_bit_not_eq_0)
  show ?thesis
    using assms by (subst crc_l_bits.simps)
       (simp only: if_False hi Let_def crc_l_step_def CRC_16_POLYNOMIAL_def xor_twice refl if_True
         split: if_split, simp add: xor_twice)
qed

definition byte_bits :: "u8 \<Rightarrow> bool list" where
  "byte_bits b = [bit b 7, bit b 6, bit b 5, bit b 4, bit b 3, bit b 2, bit b 1, bit b 0]"

lemma ucast_mask_bit:
  fixes b :: u8
  shows "(ucast b AND (0x80 :: u32) \<noteq> 0) = bit b 7" "(ucast b AND (0x40 :: u32) \<noteq> 0) = bit b 6"
    "(ucast b AND (0x20 :: u32) \<noteq> 0) = bit b 5" "(ucast b AND (0x10 :: u32) \<noteq> 0) = bit b 4"
    "(ucast b AND (8 :: u32) \<noteq> 0) = bit b 3" "(ucast b AND (4 :: u32) \<noteq> 0) = bit b 2"
    "(ucast b AND (2 :: u32) \<noteq> 0) = bit b 1" "(ucast b AND (1 :: u32) \<noteq> 0) = bit b 0"
  using bit_iff_and_push_bit_not_eq_0 [of "ucast b :: u32" 7] bit_iff_and_push_bit_not_eq_0 [of "ucast b :: u32" 6]
    bit_iff_and_push_bit_not_eq_0 [of "ucast b :: u32" 5] bit_iff_and_push_bit_not_eq_0 [of "ucast b :: u32" 4]
    bit_iff_and_push_bit_not_eq_0 [of "ucast b :: u32" 3] bit_iff_and_push_bit_not_eq_0 [of "ucast b :: u32" 2]
    bit_iff_and_push_bit_not_eq_0 [of "ucast b :: u32" 1] bit_iff_and_push_bit_not_eq_0 [of "ucast b :: u32" 0]
  by (simp_all add: bit_simps)

lemma crc_l_byte_bits: "crc_l_byte crc b = foldl crc_l_step crc (byte_bits b)"
  by (simp add: crc_l_byte_def CRC_16_L_SEED_def crc_l_bits_step ucast_mask_bit byte_bits_def
     crc_l_bits.simps [of _ 0])

lemma crc_l_step_linear:
  "crc_l_step (c XOR d) (m \<noteq> n) = crc_l_step c m XOR crc_l_step d n"
  by (auto simp: crc_l_step_def bit_simps push_bit_xor xor.assoc xor.left_commute xor.commute)

lemma crc_l_zero_bits: "foldl crc_l_step 0 [b7,b6,b5,b4,b3,b2,b1,b0] = 0 \<longrightarrow> \<not> b7 \<and> \<not>b6 \<and> \<not>b5 \<and> \<not>b4 \<and> \<not>b3 \<and> \<not>b2 \<and> \<not> b1 \<and> \<not>b0"
  by (cases b7; cases b6; cases b5; cases b4; cases b3; cases b2; cases b1; cases b0) (simp_all add: crc_l_step_def)

section \<open>The table against the shift register\<close>

text \<open>The reflected shift register of the polynomial 0x8005, one bit and one byte at a time.\<close>

definition crc16_rstep :: "u16 \<Rightarrow> u16" where
  "crc16_rstep c = (if bit c 0 then drop_bit 1 c XOR 0xA001 else drop_bit 1 c)"

definition crc16_rbyte :: "u16 \<Rightarrow> u16" where
  "crc16_rbyte c = crc16_rstep (crc16_rstep (crc16_rstep (crc16_rstep
     (crc16_rstep (crc16_rstep (crc16_rstep (crc16_rstep c)))))))"

fun table_from :: "u16 \<Rightarrow> u16 list \<Rightarrow> bool" where
  "table_from i [] = True"
| "table_from i (x # xs) = (crc16_rbyte i = x \<and> table_from (i + 1) xs)"

lemma table_from_nth: "table_from i xs \<Longrightarrow> k < length xs \<Longrightarrow> xs ! k = crc16_rbyte (i + word_of_nat k)"
proof (induction xs arbitrary: i k)
  case (Cons x xs)
  then show ?case by (cases k) (auto simp: ac_simps)
qed simp

lemma crc16_table_ok: "table_from 0 crc16_table"
  by (simp add: crc16_table_def crc16_rbyte_def crc16_rstep_def)

lemma crc16_table_nth: "k < 256 \<Longrightarrow> crc16_table ! k = crc16_rbyte (word_of_nat k)"
  using table_from_nth [OF crc16_table_ok, of k] by (simp add: crc16_table_def)

lemma crc16_rstep_linear: "crc16_rstep (c XOR d) = crc16_rstep c XOR crc16_rstep d"
  by (auto simp: crc16_rstep_def bit_simps drop_bit_xor xor.assoc xor.left_commute xor.commute)

lemma crc16_rbyte_linear: "crc16_rbyte (c XOR d) = crc16_rbyte c XOR crc16_rbyte d"
  by (simp add: crc16_rbyte_def crc16_rstep_linear)

lemma crc16_rstep_even: "\<not> bit c 0 \<Longrightarrow> crc16_rstep c = drop_bit 1 c"
  by (simp add: crc16_rstep_def)

lemma crc16_rstep_drop: "\<not> bit c k \<Longrightarrow> crc16_rstep (drop_bit k c) = drop_bit (Suc k) c"
  by (simp add: crc16_rstep_def bit_drop_bit_eq)

lemma crc16_rbyte_high: "crc16_rbyte (push_bit 8 c) = drop_bit 8 (push_bit 8 c)"
proof -
  let ?d = "push_bit 8 c"
  have z: "\<not> bit ?d k" if "k < 8" for k using that by (simp add: bit_simps)
  have "crc16_rstep ?d = drop_bit (Suc 0) ?d" using crc16_rstep_drop [of ?d 0] z by simp
  moreover have "crc16_rstep (drop_bit k ?d) = drop_bit (Suc k) ?d" if "k < 8" for k
    by (rule crc16_rstep_drop [OF z [OF that]])
  ultimately show ?thesis by (simp only: crc16_rbyte_def) (simp add: eval_nat_numeral)
qed

lemma split_low: "(c :: u16) = push_bit 8 (drop_bit 8 c) XOR take_bit 8 c"
  by (rule bit_word_eqI) (auto simp: bit_simps)

lemma crc16_rbyte_split: "crc16_rbyte c = drop_bit 8 c XOR crc16_rbyte (take_bit 8 c)"
proof -
  have "crc16_rbyte c = crc16_rbyte (push_bit 8 (drop_bit 8 c)) XOR crc16_rbyte (take_bit 8 c)"
    using split_low [of c] crc16_rbyte_linear by metis
  moreover have "drop_bit 8 (push_bit 8 (drop_bit 8 c)) = drop_bit 8 c"
  proof (rule bit_word_eqI)
    fix n show "bit (drop_bit 8 (push_bit 8 (drop_bit 8 c))) n = bit (drop_bit 8 c) n"
      using bit_imp_le_length [of c "8 + n"] by (auto simp: bit_simps)
  qed
  ultimately show ?thesis by (simp add: crc16_rbyte_high)
qed

lemma crc16_byte_ref: "crc16_byte crc b = crc16_rbyte (crc XOR ucast b)"
proof -
  have lt: "unat (take_bit 8 (crc XOR ucast b)) < 256"
    unfolding unsigned_take_bit_eq using take_bit_nat_less_exp [of 8 "unat (crc XOR ucast b)"]
    by simp
  have "drop_bit 8 (crc XOR ucast b) = drop_bit 8 crc"
    by (rule bit_word_eqI) (auto simp: bit_simps dest: bit_imp_le_length)
  then show ?thesis
    using crc16_table_nth [OF lt] by (subst crc16_rbyte_split) (simp add: crc16_byte_def and_FF)
qed

section \<open>No two inputs collide on one byte\<close>

lemma crc16_rstep_zero: "crc16_rstep c = 0 \<Longrightarrow> c = 0"
proof (cases "bit c 0")
  case True
  assume "crc16_rstep c = 0"
  then have "bit (drop_bit 1 c XOR 0xA001 :: u16) 15 = False"
    using True by (simp add: crc16_rstep_def)
  moreover have "bit (drop_bit 1 c XOR 0xA001 :: u16) 15"
    by (simp add: bit_simps impossible_bit)
  ultimately show ?thesis by simp
next
  case False
  assume "crc16_rstep c = 0"
  then have d: "drop_bit 1 c = 0" using False by (simp add: crc16_rstep_def)
  show ?thesis
  proof (rule bit_word_eqI)
    fix n assume "n < LENGTH(16)"
    have "bit c (Suc m) = False" for m
      using d bit_drop_bit_eq [of 1 c] by (metis bit_0_eq bot_apply bot_bool_def o_apply plus_1_eq_Suc)
    then show "bit c n = bit 0 n" using False by (cases n) auto
  qed
qed

lemma crc16_rbyte_inj: "crc16_rbyte c = crc16_rbyte d \<Longrightarrow> c = d"
proof -
  assume "crc16_rbyte c = crc16_rbyte d"
  then have "crc16_rbyte (c XOR d) = 0" by (simp add: crc16_rbyte_linear)
  then have "c XOR d = 0" unfolding crc16_rbyte_def by (blast dest: crc16_rstep_zero)
  then show "c = d" by (rule xor_zero_eq)
qed

lemma crc_l_step_zero: "crc_l_step c False = 0 \<Longrightarrow> c = 0"
proof (cases "bit c 15")
  case True
  assume "crc_l_step c False = 0"
  then have "bit (push_bit 1 c XOR 0x1021 :: u16) 0 = False"
    using True by (simp add: crc_l_step_def)
  moreover have "bit (push_bit 1 c XOR 0x1021 :: u16) 0"
    unfolding bit_xor_iff bit_push_bit_iff by simp
  ultimately show ?thesis by simp
next
  case False
  assume "crc_l_step c False = 0"
  then have d: "push_bit 1 c = 0" using False by (simp add: crc_l_step_def)
  show ?thesis
  proof (rule bit_word_eqI)
    fix n assume n: "n < LENGTH(16)"
    show "bit c n = bit 0 n"
    proof (cases "n = 15")
      case False
      with n have "bit c n = bit (push_bit 1 c) (Suc n)" unfolding bit_push_bit_iff by auto
      then show ?thesis unfolding d by simp
    qed (use False in simp)
  qed
qed

lemma crc_l_step_inj: "crc_l_step c m = crc_l_step d m \<Longrightarrow> c = d"
  using crc_l_step_linear [of c d m m] crc_l_step_zero [of "c XOR d"] by (auto intro: xor_zero_eq)

lemma crc_l_run_inj: "foldl crc_l_step c ms = foldl crc_l_step d ms \<Longrightarrow> c = d"
  by (induction ms arbitrary: c d) (auto dest: crc_l_step_inj)

lemma crc_l_run_linear:
  "length ms = length ns \<Longrightarrow> foldl crc_l_step (c XOR d) (map2 (\<noteq>) ms ns) =
     foldl crc_l_step c ms XOR foldl crc_l_step d ns"
proof (induction ms ns arbitrary: c d rule: list_induct2)
  case (Cons m ms n ns)
  show ?case using Cons.IH [of "crc_l_step c m" "crc_l_step d n"]
    by (simp add: crc_l_step_linear [symmetric])
qed simp

lemma crc_l_byte_inj: "crc_l_byte c a = crc_l_byte c b \<Longrightarrow> a = b"
proof -
  assume "crc_l_byte c a = crc_l_byte c b"
  then have "foldl crc_l_step 0 (map2 (\<noteq>) (byte_bits a) (byte_bits b)) = 0"
    using crc_l_run_linear [of "byte_bits a" "byte_bits b" c c]
    by (simp add: crc_l_byte_bits byte_bits_def)
  then have eq: "bit a 7 = bit b 7 \<and> bit a 6 = bit b 6 \<and> bit a 5 = bit b 5 \<and> bit a 4 = bit b 4
      \<and> bit a 3 = bit b 3 \<and> bit a 2 = bit b 2 \<and> bit a 1 = bit b 1 \<and> bit a 0 = bit b 0"
    using crc_l_zero_bits [of "bit a 7 \<noteq> bit b 7" "bit a 6 \<noteq> bit b 6" "bit a 5 \<noteq> bit b 5"
        "bit a 4 \<noteq> bit b 4" "bit a 3 \<noteq> bit b 3" "bit a 2 \<noteq> bit b 2" "bit a 1 \<noteq> bit b 1"
        "bit a 0 \<noteq> bit b 0"]
    by (simp only: byte_bits_def zip_Cons_Cons zip_Nil list.map prod.case simp_thms)
  show "a = b"
  proof (rule bit_word_eqI)
    fix n assume "n < LENGTH(8)"
    then have "n = 0 \<or> n = 1 \<or> n = 2 \<or> n = 3 \<or> n = 4 \<or> n = 5 \<or> n = 6 \<or> n = 7" by auto
    then show "bit a n = bit b n" using eq by blast
  qed
qed

lemma crc_l_step_shift:
  assumes "k \<le> 15"
  shows "crc_l_step (push_bit k c) (bit c (15 - k)) = push_bit (Suc k) c"
  using assms by (simp add: crc_l_step_def bit_simps ac_simps)

lemma upt16: "[0..<16] = [0, 1, 2, 3, 4, 5, 6, 7, 8, 9, 10, 11, 12, 13, 14, 15 :: nat]"
  by code_simp

lemma crc_l_own_bytes: "foldl crc_l_byte c [hi8 c, lo8 c] = 0"
proof -
  have "byte_bits (hi8 c) @ byte_bits (lo8 c) = map (\<lambda>k. bit c (15 - k)) [0..<16]"
    unfolding upt16 by (simp add: byte_bits_def hi8_def lo8_def bit_simps)
  moreover have "k \<le> 16 \<Longrightarrow> foldl crc_l_step c (map (\<lambda>k. bit c (15 - k)) [0..<k]) = push_bit k c" for k
    by (induction k) (simp_all add: crc_l_step_shift)
  ultimately have "foldl crc_l_step c (byte_bits (hi8 c) @ byte_bits (lo8 c)) = push_bit 16 c"
    by simp
  moreover have "push_bit 16 c = 0" by (rule bit_word_eqI) (simp add: bit_simps)
  ultimately show ?thesis by (simp add: crc_l_byte_bits)
qed

interpretation crc_l: byte_crc crc_l_byte
  by unfold_locales (auto simp: crc_l_byte_bits dest: crc_l_run_inj intro: crc_l_byte_inj)

interpretation crc16: byte_crc crc16_byte
proof unfold_locales
  show "crc16_byte c b = crc16_byte c' b \<Longrightarrow> c = c'" for c b c'
    by (auto simp: crc16_byte_ref dest!: crc16_rbyte_inj) (metis xor_twice)
next
  fix c b b' assume "crc16_byte c b = crc16_byte c b'"
  then have "c XOR ucast b = c XOR ucast b'"
    by (auto simp: crc16_byte_ref dest!: crc16_rbyte_inj)
  then have "(ucast b :: u16) = ucast b'" by (metis xor.commute xor_twice)
  then have "lo8 (ucast b) = lo8 (ucast b')" by (rule arg_cong)
  then show "b = b'" by simp
qed

section \<open>The folded sum is a ones' complement\<close>

lemma sub_mod_65536:
  assumes "m < 131072"
  shows "(4294967295 - m) mod 65536 = 65535 - m mod (65536 :: nat)"
proof (cases "m < 65536")
  case True
  then have "4294967295 - m = (65535 - m) + 65535 * 65536" by linarith
  then have "(4294967295 - m) mod 65536 = (65535 - m) mod 65536" by (simp only: mod_mult_self1)
  with True show ?thesis by simp
next
  case False
  with assms have "4294967295 - m = (65535 - (m - 65536)) + 65534 * 65536" by linarith
  then have "(4294967295 - m) mod 65536 = (65535 - (m - 65536)) mod 65536"
    by (simp only: mod_mult_self1)
  moreover have "m mod 65536 = m - 65536" using assms False by (simp add: mod_if)
  ultimately show ?thesis by simp
qed

lemma ones_fold_complement: "(unat (ones_fold s) + unat s) mod 65535 = 0"
proof -
  define h l where "h = unat s div 65536" and "l = unat s mod 65536"
  have s: "unat s = 65536 * h + l" by (simp add: h_def l_def)
  have hl: "h < 65536" "l < 65536"
    using unsigned_less [of s, where 'a = nat] by (simp_all add: h_def l_def less_mult_imp_div_less)
  define s1 where "s1 = drop_bit 16 s + (s AND 0xFFFF)"
  have FFFF: "(0xFFFF :: u32) = mask 16" by (simp add: mask_eq_exp_minus_1)
  have p: "unat (drop_bit 16 s) = h" 
    by (simp add: h_def drop_bit_eq_div unat_div)
  have q: "unat (s AND 0xFFFF) = l"
    unfolding FFFF l_def by (simp add: take_bit_eq_mask [symmetric] unsigned_take_bit_eq take_bit_eq_mod unat_mod)
  have s1: "unat s1 = h + l"
    unfolding s1_def unat_word_ariths p q using hl by simp
  define s2 where "s2 = s1 + drop_bit 16 s1"
  have "unat (drop_bit 16 s1) = (h + l) div 65536"
    by (simp add: drop_bit_eq_div unat_div s1)
  then have s2: "unat s2 = h + l + (h + l) div 65536"
    unfolding s2_def unat_word_ariths s1 using hl by simp
  have "NOT s2 = - 1 - s2" by (simp add: not_eq_complement)
  moreover have "unat (- 1 - s2) = unat (- 1 :: u32) - unat s2" by (rule unat_sub) simp
  ultimately have "unat (NOT s2) = 4294967295 - unat s2" by (simp add: unsigned_minus_1_eq_mask mask_eq_exp_minus_1)
  then have "unat (ones_fold s) = (4294967295 - unat s2) mod 65536"
    by (simp add: ones_fold_def s1_def s2_def Let_def unsigned_ucast_eq take_bit_eq_mod)
  moreover have "unat s2 < 131072" using s2 hl by linarith
  ultimately have "unat (ones_fold s) = 65535 - unat s2 mod 65536"
    by (simp only: sub_mod_65536)
  then have "unat (ones_fold s) + unat s2 mod 65536 = 65535" by simp
  moreover have "unat s2 mod 65536 = (if h + l < 65536 then h + l else h + l - 65535)"
  proof (cases "h + l < 65536")
    case False
    then have "(h + l) div 65536 = 1" using hl by linarith
    then have "unat s2 = (h + l - 65535) + 1 * 65536" using s2 False by linarith
    then show ?thesis using False hl by (simp only: mod_mult_self1) simp
  qed (simp add: s2)
  ultimately have "unat (ones_fold s) + unat s = 65535 * (1 + h) \<or>
      unat (ones_fold s) + unat s = 65535 * (2 + h)"
    unfolding s using hl by (simp split: if_splits)
  then show ?thesis by (elim disjE) (simp_all only: mod_mult_self1_is_0)
qed

lemma nv_checksum_loop_sum: "nv_checksum_loop s bs = s + word_of_nat (word_sum bs)"
  by (induction s bs rule: nv_checksum_loop.induct) (simp_all add: le16_def)

lemma frm_chk_loop_sum: "frm_chk_loop s bs = s + word_of_nat (word_sum bs)"
  by (induction s bs rule: frm_chk_loop.induct) (simp_all)


lemma word_sum_append: "even (length xs) \<Longrightarrow> word_sum (xs @ ys) = word_sum xs + word_sum ys"
  by (induction xs rule: word_sum.induct) auto

lemma boot_words_sum:
  "k + 2 * n \<le> length src \<Longrightarrow>
     boot_words n src k s = s + word_of_nat (word_sum (take (2 * n) (drop k src)))"
proof (induction n arbitrary: k s)
  case (Suc n)
  have k: "k < length src" "Suc k < length src" using Suc.prems by auto
  then have "drop k src = src ! k # src ! Suc k # drop (k + 2) src"
    by (simp add: Cons_nth_drop_Suc)
  with Suc show ?case by simp
qed simp

lemma word_sum_split_last:
  assumes "odd (length bs)"
  shows "word_sum bs = word_sum (take (2 * (length bs div 2)) bs) + unat (bs ! (length bs - 1))"
proof -
  have n: "2 * (length bs div 2) = length bs - 1" using assms by presburger
  have ne: "bs \<noteq> []" using assms by auto
  then have "bs = take (length bs - 1) bs @ [bs ! (length bs - 1)]"
    by (metis append_butlast_last_id butlast_conv_take last_conv_nth)
  moreover have "even (length (take (length bs - 1) bs))" using assms by auto
  ultimately show ?thesis unfolding n by (metis word_sum.simps(2) word_sum_append)
qed

text \<open>The reference: all the implementations sum to this, with 32-bit wrap-around.\<close>

definition ones_checksum :: "bytes \<Rightarrow> u16" where
  "ones_checksum bs = ones_fold (word_of_nat (word_sum bs))"

lemma nv_calc_checksum_eq: "nv_calc_checksum bs = ones_checksum bs"
  by (simp add: nv_calc_checksum_def ones_checksum_def nv_checksum_loop_sum)

lemma frm_chk_eq: "frm_chk bs = ones_checksum bs"
  by (simp add: frm_chk_def ones_checksum_def frm_chk_loop_sum)

lemma boot_checksum_eq: "boot_checksum bs = ones_checksum bs"
proof (cases "odd (length bs)")
  case True
  then have "bs \<noteq> []" "length bs mod 2 = 1" by (auto simp: odd_iff_mod_2_eq_one)
  then show ?thesis
    using boot_words_sum [of 0 "length bs div 2" bs 0] word_sum_split_last [OF True]
    by (simp add: boot_checksum_def ones_checksum_def)
next
  case False
  then have "2 * (length bs div 2) = length bs" "length bs mod 2 = 0" by auto
  then show ?thesis
    using boot_words_sum [of 0 "length bs div 2" bs 0]
    by (simp add: boot_checksum_def ones_checksum_def)
qed

lemma mb_calc_checksum_eq: "mb_calc_checksum True bs = Some (ones_checksum bs)"
proof (cases "odd (length bs)")
  case True
  then have "2 * (length bs div 2) = length bs - 1" "length bs mod 2 = 1" by presburger+
  then show ?thesis
    using boot_words_sum [of 0 "length bs div 2" bs 0] word_sum_split_last [OF True]
    by (simp add: mb_calc_checksum_def ones_checksum_def)
next
  case False
  then have "2 * (length bs div 2) = length bs" "length bs mod 2 = 0" by auto
  then show ?thesis
    using boot_words_sum [of 0 "length bs div 2" bs 0]
    by (simp add: mb_calc_checksum_def ones_checksum_def)
qed

lemma word_sum_bound: "word_sum bs \<le> 65535 * ((length bs + 1) div 2)"
proof (induction bs rule: word_sum.induct)
  case (1 a b r)
  have "unat (le16 a b) \<le> 65535" using unsigned_less [of "le16 a b", where 'a = nat] by simp
  with "1" show ?case by simp
next
  case (2 a)
  then show ?case using unsigned_less [of a, where 'a = nat] by simp
qed simp

lemma ones_checksum_complement:
  assumes "length bs \<le> 131072"
  shows "(unat (ones_checksum bs) + word_sum bs) mod 65535 = 0"
proof -
  have "word_sum bs \<le> 65535 * 65536"
  proof -
    have "(length bs + 1) div 2 \<le> 65536" using assms by linarith
    then have "65535 * ((length bs + 1) div 2) \<le> 65535 * 65536" by (rule mult_le_mono2)
    with word_sum_bound [of bs] show ?thesis by (rule le_trans)
  qed
  then have "unat (word_of_nat (word_sum bs) :: u32) = word_sum bs"
    by (simp add: unat_of_nat take_bit_nat_eq_self)
  then show ?thesis
    using ones_fold_complement [of "word_of_nat (word_sum bs)"] by (simp add: ones_checksum_def)
qed

interpretation nv_chk: checksum16 nv_calc_checksum
  by unfold_locales (simp add: nv_calc_checksum_eq ones_checksum_complement)

interpretation frm: checksum16 frm_chk
  by unfold_locales (simp add: frm_chk_eq ones_checksum_complement)

interpretation boot: checksum16 boot_checksum
  by unfold_locales (simp add: boot_checksum_eq ones_checksum_complement)

interpretation mb_chk: checksum16 "\<lambda>bs. the (mb_calc_checksum True bs)"
  by unfold_locales (simp add: mb_calc_checksum_eq ones_checksum_complement)

lemma read_le16_bound: "read_le16 k b = Some v \<Longrightarrow> k + 2 \<le> length b"
  by (auto simp: read_le16_def buf_read_def split: if_splits)

lemma mb_odd_loop_bound:
  "mb_odd_loop n dat k c = Some r \<Longrightarrow> 0 < n \<Longrightarrow> k + 2 * n \<le> length dat"
proof (induction n dat k c rule: mb_odd_loop.induct)
  case (1 len dat k checksum)
  from "1.prems"(1) obtain p q where p: "read_le16 k dat = Some p"
    and q: "read_le16 (k + 2) dat = Some q"
    and r: "mb_odd_loop len dat (k + 4) (checksum + (ucast p OR push_bit 8 (ucast q))) = Some r"
    by (auto simp: bind_eq_Some_conv)
  show ?case
  proof (cases "len = 0")
    case True
    then show ?thesis using read_le16_bound [OF q] by simp
  next
    case False
    with "1.IH" [OF p q r] have "k + 4 + 2 * len \<le> length dat" by simp
    then show ?thesis by simp
  qed
next
  case (2 dat k checksum)
  then show ?case by (auto dest: read_le16_bound split: bind_splits)
qed simp

lemma ucast_u16_u32: "(ucast (ucast c :: u32) :: u16) = c"
  by (rule bit_word_eqI) (simp add: bit_simps)

lemma ucast_u16_u32_inj: "(ucast (a :: u16) :: u32) = ucast b \<Longrightarrow> a = b"
  by (drule arg_cong [where f = "ucast :: u32 \<Rightarrow> u16"]) (simp only: ucast_u16_u32)

section \<open>Properties\<close>

text \<open>C20: the receiver's check. The CRC of a message followed by its own CRC, high byte first
  as \<open>setup_packet\<close> stores it, is \<open>CRC_16_L_OK\<close> = 0, for every message.\<close>

theorem crc_l_residue:
  "crc_16_l_calc (msg @ [hi8 (ucast (crc_16_l_calc msg)), lo8 (ucast (crc_16_l_calc msg))]) = 0"
  using crc_l_own_bytes [of "foldl crc_l_byte 0 msg"]
  by (simp only: crc_16_l_calc_def foldl_append ucast_u16_u32) simp

text \<open>A message with any one byte replaced by a different one has a different CRC.\<close>

theorem crc_l_byte_error_detected:
  assumes "i < length msg" and "b \<noteq> msg ! i"
  shows "crc_16_l_calc (msg[i := b]) \<noteq> crc_16_l_calc msg"
proof
  assume "crc_16_l_calc (msg[i := b]) = crc_16_l_calc msg"
  then have "foldl crc_l_byte 0 (msg[i := b]) = foldl crc_l_byte 0 msg"
    unfolding crc_16_l_calc_def by (rule ucast_u16_u32_inj)
  with crc_l.byte_change_detected [OF assms, of 0] show False by contradiction
qed

theorem crc_l_byte_error_detected_witness:
  "crc_16_l_calc ([0x00, 0x01, 0x00, 0x08][1 := 0x02]) \<noteq> crc_16_l_calc [0x00, 0x01, 0x00, 0x08]"
  by (rule crc_l_byte_error_detected) simp_all

text \<open>The table driven \<open>calculate_crc\<close> is the bit serial CRC-16 of the polynomial 0x8005
  for every start value and every buffer, and engmode's \<open>crc16\<close> computes the same.\<close>

theorem crc16_table_correct:
  "calculate_crc crc buf = foldl (\<lambda>c b. crc16_rbyte (c XOR ucast b)) crc buf \<and>
   eng_crc16 crc buf = calculate_crc crc buf"
proof
  have "crc16_byte = (\<lambda>c b. crc16_rbyte (c XOR ucast b))"
    by (intro ext) (rule crc16_byte_ref)
  then show "calculate_crc crc buf = foldl (\<lambda>c b. crc16_rbyte (c XOR ucast b)) crc buf"
    by (simp add: calculate_crc_def)
  have "crc16_byte = (\<lambda>c b. drop_bit 8 c XOR (crc16_table ! unat ((c XOR ucast b) AND 0xFF)))"
    by (intro ext) (rule crc16_byte_def)
  then show "eng_crc16 crc buf = calculate_crc crc buf"
    by (simp add: eng_crc16_def calculate_crc_def)
qed

text \<open>the four checksum loops of the two daemons compute one and the same function of the
  bytes, whatever the length; \<open>modem_boot.c\<close>'s for a buffer at an even address.\<close>

theorem checksums_agree:
  "nv_calc_checksum bs = ones_checksum bs \<and> frm_chk bs = ones_checksum bs \<and>
   boot_checksum bs = ones_checksum bs \<and> mb_calc_checksum True bs = Some (ones_checksum bs)"
  by (simp add: nv_calc_checksum_eq frm_chk_eq boot_checksum_eq mb_calc_checksum_eq)

text \<open>Two NV images of at most 128 KiB that pass with the same stored checksum have the
  same sum of half words modulo 65535; in particular changing one half word by an amount that
  is not a multiple of 65535 is always noticed.\<close>

theorem nv_checksum_sound:
  assumes "length xs \<le> 131072" and "length ys \<le> 131072"
    and "nv_calc_checksum xs = nv_calc_checksum ys"
  shows "word_sum xs mod 65535 = word_sum ys mod 65535"
  using assms by (rule nv_chk.equal_sums)

theorem nv_checksum_sound_witness:
  "word_sum [1, 2, 3, 4] mod 65535 = word_sum [3, 4, 1, 2] mod 65535"
  by (rule nv_checksum_sound) (simp_all add: nv_calc_checksum_def ones_fold_def)

text \<open>The odd-address branch of \<open>modem_boot.c\<close>'s \<open>calc_checksum\<close> reads past the end of
  every non-empty buffer.\<close>

theorem mb_odd_branch_reads_past_end: "dat \<noteq> [] \<Longrightarrow> mb_calc_checksum False dat = None"
  using mb_odd_loop_bound [of "length dat" dat 0 0]
  by (cases "mb_odd_loop (length dat) dat 0 0") (auto simp: mb_calc_checksum_def)

theorem mb_odd_branch_reads_past_end_witness: "mb_calc_checksum False [1, 2, 3, 4] = None"
  by (rule mb_odd_branch_reads_past_end) simp

end
