(* ===== verification/Posix_Io.thy ===== *)
theory Posix_Io
  imports Sprd_Prelude
begin

text \<open>
  The operating system side of a character device or pipe: the environment of the programs,
  not part of them. A channel holds the bytes the peer has sent and the program has not read
  (\<open>rx\<close>), the bytes the device has accepted so far (\<open>tx\<close>), and for each future call of
  \<open>read\<close> and \<open>write\<close> its outcome: a negative number is the error return -1, a number
  \<open>n\<close> lets the call move at most \<open>n\<close> bytes. A call for which no outcome is left never
  returns. Loops around the calls therefore consume the schedule, and a loop the program
  would never leave has the value \<open>None\<close>.
\<close>

record chan =
  rx :: bytes
  tx :: bytes
  rd_sched :: "int list"
  wr_sched :: "int list"

definition sys_read :: "nat \<Rightarrow> chan \<Rightarrow> (int \<times> bytes \<times> chan) option" where
  "sys_read n c =
     (case rd_sched c of
        [] \<Rightarrow> None
      | r # rs \<Rightarrow>
          (let c' = c\<lparr>rd_sched := rs\<rparr>
           in if r < 0 then Some (-1, [], c')
              else let k = min (nat r) (min n (length (rx c)))
                   in Some (int k, take k (rx c), c'\<lparr>rx := drop k (rx c)\<rparr>)))"

definition sys_write :: "bytes \<Rightarrow> chan \<Rightarrow> (int \<times> chan) option" where
  "sys_write d c =
     (case wr_sched c of
        [] \<Rightarrow> None
      | w # ws \<Rightarrow>
          (let c' = c\<lparr>wr_sched := ws\<rparr>
           in if w < 0 then Some (-1, c')
              else let k = min (nat w) (length d)
                   in Some (int k, c'\<lparr>tx := tx c @ take k d\<rparr>)))"

lemma sys_read_sched: "sys_read n c = Some (r, d, c') \<Longrightarrow> length (rd_sched c') < length (rd_sched c)"
  by (auto simp: sys_read_def Let_def split: list.splits if_splits)

lemma sys_write_sched: "sys_write d c = Some (r, c') \<Longrightarrow> length (wr_sched c') < length (wr_sched c)"
  by (auto simp: sys_write_def Let_def split: list.splits if_splits)

lemma sys_read_props:
  assumes "sys_read n c = Some (r, d, c')"
  shows "length d = nat r" and "r \<le> int n" and "d @ rx c' = rx c" and "tx c' = tx c"
    and "wr_sched c' = wr_sched c"
  using assms by (auto simp: sys_read_def Let_def split: list.splits if_splits)

lemma sys_write_props:
  assumes "sys_write d c = Some (r, c')"
  shows "r \<le> int (length d)" and "tx c' = tx c @ take (nat r) d" and "rx c' = rx c"
    and "rd_sched c' = rd_sched c"
  using assms by (auto simp: sys_write_def Let_def split: list.splits if_splits)

text \<open>A call whose outcome allows everything moves everything.\<close>

lemma sys_write_full:
  assumes "wr_sched c = w # ws" and "int (length d) \<le> w"
  shows "sys_write d c = Some (int (length d), c\<lparr>wr_sched := ws, tx := tx c @ d\<rparr>)"
proof -
  have "min (nat w) (length d) = length d" using assms by (simp add: le_nat_iff)
  then show ?thesis using assms by (simp add: sys_write_def Let_def)
qed

lemma sys_read_full:
  assumes "rd_sched c = r # rs" and "int n \<le> r" and "n \<le> length (rx c)"
  shows "sys_read n c = Some (int n, take n (rx c), c\<lparr>rd_sched := rs, rx := drop n (rx c)\<rparr>)"
proof -
  have "min (nat r) (min n (length (rx c))) = n" using assms by (simp add: le_nat_iff)
  then show ?thesis using assms by (simp add: sys_read_def Let_def)
qed

end
