(* ===== verification/Mc_Packet.thy ===== *)
theory Mc_Packet
  imports Checksums Posix_Io
begin

unbundle bit_operations_syntax

text \<open>
  \<open>apps/modem_control/packet.c\<close>: the download protocol between the application processor and
  the modem. A message is laid out in a byte buffer by \<open>setup_packet\<close>, for the UART in an
  HDLC frame (0x7E delimited, 0x7D escaped, CRC-CCITT), for SPI behind an 8 byte header with
  two ones' complement checksums; the \<open>send_*\<close> functions transmit it, collect the fixed size
  reply and look for an acknowledge.

  Buffers are byte lists, out-of-range accesses are \<open>None\<close>; the static \<open>send_buffer\<close> is
  passed in and returned because replies are decoded into it over whatever it held.
\<close>

section \<open>Message codes (cmd\_def.h)\<close>

datatype CMD_TYPE =
    BSL_CMD_CONNECT
  | BSL_CMD_START_DATA
  | BSL_CMD_MIDST_DATA
  | BSL_CMD_END_DATA
  | BSL_CMD_EXEC_DATA
  | BSL_CMD_NORMAL_RESET
  | BSL_CMD_READ_FLASH
  | BSL_CMD_READ_CHIP_TYPE
  | BSL_CMD_LOOKUP_NVITEM
  | BSL_SET_BAUDRATE
  | BSL_ERASE_FLASH
  | BSL_REPARTITION
  | BSL_CMD_SWITCH_MODE
  | BSL_CMD_TYPE_MAX
  | BSL_REP_ACK
  | BSL_REP_VER
  | BSL_REP_INVALID_CMD
  | BSL_REP_UNKNOW_CMD
  | BSL_REP_OPERATION_FAILED
  | BSL_REP_NOT_SUPPORT_BAUDRATE
  | BSL_REP_DOWN_NOT_START
  | BSL_REP_DOWN_MULTI_START
  | BSL_REP_DOWN_EARLY_END
  | BSL_REP_DOWN_DEST_ERROR
  | BSL_REP_DOWN_SIZE_ERROR
  | BSL_REP_VERIFY_ERROR
  | BSL_REP_NOT_VERIFY
  | BSL_PHONE_NOT_ENOUGH_MEMORY
  | BSL_PHONE_WAIT_INPUT_TIMEOUT
  | BSL_PHONE_SUCCEED
  | BSL_PHONE_VALID_BAUDRATE
  | BSL_PHONE_REPEAT_CONTINUE
  | BSL_PHONE_REPEAT_BREAK
  | BSL_REP_READ_FLASH
  | BSL_REP_READ_CHIP_TYPE
  | BSL_REP_LOOKUP_NVITEM
  | BSL_INCOMPATIBLE_PARTITION
  | BSL_UNKNOWN_DEVICE
  | BSL_INVALID_DEVICE_SIZE
  | BSL_ILLEGAL_SDRAM
  | BSL_WRONG_SDRAM_PARAMETER
  | BSL_EEROR_CHECKSUM
  | BSL_CHECKSUM_DIFF
  | BSL_WRITE_ERROR
  | BSL_PKT_TYPE_MAX

text \<open>\<open>BSL_PKT_TYPE_MIN\<close> and \<open>BSL_CMD_TYPE_MIN\<close> are further names of 0,
  \<open>BSL_REP_TYPE_MIN\<close> of 0x80.\<close>

primrec cmd_val :: "CMD_TYPE \<Rightarrow> u16" where
  "cmd_val BSL_CMD_CONNECT = 0"
| "cmd_val BSL_CMD_START_DATA = 1"
| "cmd_val BSL_CMD_MIDST_DATA = 0x2"
| "cmd_val BSL_CMD_END_DATA = 0x3"
| "cmd_val BSL_CMD_EXEC_DATA = 0x4"
| "cmd_val BSL_CMD_NORMAL_RESET = 0x5"
| "cmd_val BSL_CMD_READ_FLASH = 0x6"
| "cmd_val BSL_CMD_READ_CHIP_TYPE = 0x7"
| "cmd_val BSL_CMD_LOOKUP_NVITEM = 0x8"
| "cmd_val BSL_SET_BAUDRATE = 0x9"
| "cmd_val BSL_ERASE_FLASH = 0xA"
| "cmd_val BSL_REPARTITION = 0xB"
| "cmd_val BSL_CMD_SWITCH_MODE = 0xD"
| "cmd_val BSL_CMD_TYPE_MAX = 0xE"
| "cmd_val BSL_REP_ACK = 0x80"
| "cmd_val BSL_REP_VER = 0x81"
| "cmd_val BSL_REP_INVALID_CMD = 0x82"
| "cmd_val BSL_REP_UNKNOW_CMD = 0x83"
| "cmd_val BSL_REP_OPERATION_FAILED = 0x84"
| "cmd_val BSL_REP_NOT_SUPPORT_BAUDRATE = 0x85"
| "cmd_val BSL_REP_DOWN_NOT_START = 0x86"
| "cmd_val BSL_REP_DOWN_MULTI_START = 0x87"
| "cmd_val BSL_REP_DOWN_EARLY_END = 0x88"
| "cmd_val BSL_REP_DOWN_DEST_ERROR = 0x89"
| "cmd_val BSL_REP_DOWN_SIZE_ERROR = 0x8A"
| "cmd_val BSL_REP_VERIFY_ERROR = 0x8B"
| "cmd_val BSL_REP_NOT_VERIFY = 0x8C"
| "cmd_val BSL_PHONE_NOT_ENOUGH_MEMORY = 0x8D"
| "cmd_val BSL_PHONE_WAIT_INPUT_TIMEOUT = 0x8E"
| "cmd_val BSL_PHONE_SUCCEED = 0x8F"
| "cmd_val BSL_PHONE_VALID_BAUDRATE = 0x90"
| "cmd_val BSL_PHONE_REPEAT_CONTINUE = 0x91"
| "cmd_val BSL_PHONE_REPEAT_BREAK = 0x92"
| "cmd_val BSL_REP_READ_FLASH = 0x93"
| "cmd_val BSL_REP_READ_CHIP_TYPE = 0x94"
| "cmd_val BSL_REP_LOOKUP_NVITEM = 0x95"
| "cmd_val BSL_INCOMPATIBLE_PARTITION = 0x96"
| "cmd_val BSL_UNKNOWN_DEVICE = 0x97"
| "cmd_val BSL_INVALID_DEVICE_SIZE = 0x98"
| "cmd_val BSL_ILLEGAL_SDRAM = 0x99"
| "cmd_val BSL_WRONG_SDRAM_PARAMETER = 0x9A"
| "cmd_val BSL_EEROR_CHECKSUM = 0xA0"
| "cmd_val BSL_CHECKSUM_DIFF = 0xA1"
| "cmd_val BSL_WRITE_ERROR = 0xA2"
| "cmd_val BSL_PKT_TYPE_MAX = 0xA3"

section \<open>HDLC framing\<close>

definition HDLC_FLAG :: u8 where "HDLC_FLAG = 0x7E"
definition HDLC_ESCAPE :: u8 where "HDLC_ESCAPE = 0x7D"

fun translate_body :: "bytes \<Rightarrow> bytes" where
  "translate_body [] = []"
| "translate_body (c # src) =
     (if c = 0x7E then 0x7D # 0x5E # translate_body src
      else if c = 0x7D then 0x7D # 0x5D # translate_body src
      else c # translate_body src)"

definition translate_packet :: "bytes \<Rightarrow> bytes" where
  "translate_packet src = 0x7E # translate_body src @ [0x7E]"

text \<open>
  The receiver's state machine; \<open>dest\<close> holds what was stored so far. At the closing flag the
  code computes a CRC over \<open>translated_size - 2\<close> bytes and drops it; for a frame of one byte
  that length is -1, which the callee takes for 4294967295, a read far outside the buffer.
\<close>

fun untranslate_loop :: "nat \<Rightarrow> bytes \<Rightarrow> bytes \<Rightarrow> bytes option" where
  "untranslate_loop status dest [] = Some dest"
| "untranslate_loop status dest (c # src) =
     (if status = 0 then
        (if c = 0x7E then untranslate_loop 1 dest src else untranslate_loop 0 dest src)
      else if status = 1 then
        (if c \<noteq> 0x7E then untranslate_loop 2 (dest @ [c]) src else untranslate_loop 1 dest src)
      else
        (if c = 0x7E then (if length dest < 2 then None else Some dest)
         else if last dest = 0x7D then
           (if c = 0x5E then untranslate_loop 2 (butlast dest @ [0x7E]) src
            else if c = 0x5D then untranslate_loop 2 (butlast dest @ [0x7D]) src
            else untranslate_loop 2 dest src)
         else untranslate_loop 2 (dest @ [c]) src))"

definition untranslate_packet :: "bytes \<Rightarrow> bytes option" where
  "untranslate_packet src = untranslate_loop 0 [] src"

section \<open>Laying out a message\<close>

abbreviation put16 :: "nat \<Rightarrow> u16 \<Rightarrow> bytes \<Rightarrow> bytes option" where
  "put16 off v b \<equiv> buf_write off (to_le16 v) b"

abbreviation put32 :: "nat \<Rightarrow> u32 \<Rightarrow> bytes \<Rightarrow> bytes option" where
  "put32 off v b \<equiv> buf_write off (to_le32 v) b"

text \<open>The header \<open>head = &buffer[4]\<close> of a UART packet: type and length, big endian.\<close>

definition uart_head :: "CMD_TYPE \<Rightarrow> nat \<Rightarrow> bytes \<Rightarrow> bytes option" where
  "uart_head msg data_size b =
     do { b \<leftarrow> put16 4 (cpu2be16 (cmd_val msg)) b;
          put16 6 (cpu2be16 (word_of_nat data_size)) b }"

definition uart_crc_packet :: "CMD_TYPE \<Rightarrow> nat \<Rightarrow> bytes \<Rightarrow> (nat \<times> bytes) option" where
  "uart_crc_packet msg data_size buffer =
     do { b \<leftarrow> uart_head msg data_size buffer;
          f \<leftarrow> buf_read 4 (4 + data_size) b;
          b \<leftarrow> put16 (4 + data_size + 4) (cpu2be16 (ucast (crc_16_l_calc f))) b;
          Some (4 + data_size + 2, b) }"

text \<open>The two checksum fields of an SPI packet, over the data and over the first six bytes.\<close>

definition spi_checksums :: "nat \<Rightarrow> nat \<Rightarrow> bytes \<Rightarrow> bytes option" where
  "spi_checksums offset data_size b =
     do { d \<leftarrow> buf_read offset data_size b;
          b \<leftarrow> put16 4 (boot_checksum d) b;
          h \<leftarrow> buf_read 0 6 b;
          put16 6 (boot_checksum h) b }"

definition spi_packet :: "u16 \<Rightarrow> CMD_TYPE \<Rightarrow> nat \<Rightarrow> nat \<Rightarrow> bytes \<Rightarrow> bytes option" where
  "spi_packet size_field msg offset data_size b =
     do { b \<leftarrow> put16 0 size_field b;
          b \<leftarrow> put16 2 (cmd_val msg) b;
          spi_checksums offset data_size b }"

definition BSL_UART_PACKET :: nat where "BSL_UART_PACKET = 0"
definition BSL_SPI_PACKET :: nat where "BSL_SPI_PACKET = 1"

fun setup_packet :: "CMD_TYPE \<Rightarrow> bytes \<Rightarrow> nat \<Rightarrow> nat \<Rightarrow> nat \<Rightarrow> (nat \<times> bytes) option" where
  "setup_packet BSL_CMD_CONNECT buffer offset data_size flag =
     (if flag = BSL_UART_PACKET
      then do { b \<leftarrow> uart_head BSL_CMD_CONNECT data_size buffer;
                b \<leftarrow> put16 (4 + data_size + 4) 0 b;
                Some (4 + data_size + 2, b) }
      else do { b \<leftarrow> put16 0 (word_of_nat data_size) buffer;
                b \<leftarrow> put16 2 (cmd_val BSL_CMD_CONNECT) b;
                b \<leftarrow> put16 8 0 b;
                b \<leftarrow> spi_checksums offset data_size b;
                Some (12, b) })"
| "setup_packet BSL_CMD_START_DATA buffer offset data_size flag =
     (if flag = BSL_UART_PACKET then uart_crc_packet BSL_CMD_START_DATA data_size buffer
      else do { b \<leftarrow> spi_packet (word_of_nat data_size) BSL_CMD_START_DATA offset data_size buffer;
                Some (data_size + 8, b) })"
| "setup_packet BSL_CMD_MIDST_DATA buffer offset data_size flag =
     (if flag = BSL_UART_PACKET then uart_crc_packet BSL_CMD_MIDST_DATA data_size buffer
      else do { b \<leftarrow> spi_packet (if data_size = 0 then 4 else word_of_nat data_size)
                       BSL_CMD_MIDST_DATA offset data_size buffer;
                Some (data_size + 8, b) })"
| "setup_packet BSL_CMD_END_DATA buffer offset data_size flag =
     (if flag = BSL_UART_PACKET then uart_crc_packet BSL_CMD_END_DATA data_size buffer
      else do { b \<leftarrow> spi_packet 4 BSL_CMD_END_DATA offset data_size buffer;
                b \<leftarrow> put32 8 0 b;
                Some (12, b) })"
| "setup_packet BSL_CMD_EXEC_DATA buffer offset data_size flag =
     (if flag = BSL_UART_PACKET then uart_crc_packet BSL_CMD_EXEC_DATA data_size buffer
      else do { b \<leftarrow> spi_packet (word_of_nat data_size) BSL_CMD_EXEC_DATA offset data_size buffer;
                Some (data_size + 8, b) })"
| "setup_packet BSL_CMD_SWITCH_MODE buffer offset data_size flag =
     (if flag = BSL_UART_PACKET
      then do { b \<leftarrow> uart_head BSL_CMD_SWITCH_MODE data_size buffer;
                f \<leftarrow> buf_read 4 (4 + data_size) b;
                b \<leftarrow> put16 (4 + data_size + 4) (frm_chk f) b;
                Some (4 + data_size + 2, b) }
      else do { b \<leftarrow> spi_packet 4 BSL_CMD_SWITCH_MODE offset data_size buffer;
                b \<leftarrow> put32 8 0 b;
                Some (12, b) })"
| "setup_packet msg buffer offset data_size flag = Some (0, buffer)"

section \<open>Transmitting and waiting for the reply\<close>

text \<open>
  The UART write loop. After a short write the code reduces \<open>translated_size\<close> but calls
  \<open>write(fd, send_buffer, translated_size)\<close> again from the start of the buffer.
\<close>

function write_loop :: "bytes \<Rightarrow> nat \<Rightarrow> chan \<Rightarrow> (int \<times> chan) option" where
  "write_loop send_buffer translated_size c =
     (case sys_write (take translated_size send_buffer) c of
        None \<Rightarrow> None
      | Some (retval, c') \<Rightarrow>
          (let rest = (if retval > 0 then translated_size - nat retval else translated_size)
           in if rest > 0 then write_loop send_buffer rest c' else Some (retval, c')))"
  by pat_completeness auto
termination
  by (relation "measure (\<lambda>(b, n, c). length (wr_sched c))") (auto dest: sys_write_sched)

text \<open>The reply loop reads until \<open>size\<close> bytes have arrived at \<open>&raw_buffer[offset]\<close>. The
  variants of the source that test \<open>retval >= 0\<close> differ only in adding 0.\<close>

function read_loop :: "bytes \<Rightarrow> nat \<Rightarrow> nat \<Rightarrow> chan \<Rightarrow> (int \<times> bytes \<times> nat \<times> chan) option" where
  "read_loop raw offset len c =
     (case sys_read len c of
        None \<Rightarrow> None
      | Some (retval, d, c') \<Rightarrow>
          (case (if retval > 0 then buf_write offset d raw else Some raw) of
             None \<Rightarrow> None
           | Some raw' \<Rightarrow>
               (let offset' = (if retval > 0 then offset + nat retval else offset);
                    len' = (if retval > 0 then len - nat retval else len)
                in if len' \<noteq> 0 then read_loop raw' offset' len' c'
                   else Some (retval, raw', offset', c'))))"
  by pat_completeness auto
termination
  by (relation "measure (\<lambda>(b, k, n, c). length (rd_sched c))") (auto dest: sys_read_sched)

declare write_loop.simps [simp del] read_loop.simps [simp del]

definition transmit :: "nat \<Rightarrow> bytes \<Rightarrow> nat \<Rightarrow> bytes \<Rightarrow> chan \<Rightarrow> (int \<times> bytes \<times> chan) option" where
  "transmit flag pkt len sb c =
     (if flag = 0
      then do { f \<leftarrow> buf_read 4 len pkt;
                sb \<leftarrow> buf_write 0 (translate_packet f) sb;
                (retval, c) \<leftarrow> write_loop sb (length (translate_packet f)) c;
                Some (retval, sb, c) }
      else do { f \<leftarrow> buf_read 0 len pkt;
                (retval, c) \<leftarrow> sys_write f c;
                Some (retval, sb, c) })"

text \<open>\<open>head.type = (data[0]<<8)|data[1]\<close>\<close>

definition reply_type :: "bytes \<Rightarrow> u16 option" where
  "reply_type data = do { d \<leftarrow> buf_read 0 2 data; Some (le16 (d ! 1) (d ! 0)) }"

definition decode_reply :: "nat \<Rightarrow> bytes \<Rightarrow> nat \<Rightarrow> bytes \<Rightarrow> (u16 \<times> bytes) option" where
  "decode_reply flag raw offset sb =
     (if flag = 0
      then do { src \<leftarrow> buf_read 0 offset raw;
                d \<leftarrow> untranslate_packet src;
                sb \<leftarrow> buf_write 0 d sb;
                t \<leftarrow> reply_type sb;
                Some (t, sb) }
      else do { t \<leftarrow> reply_type raw; Some (t, sb) })"

text \<open>
  What every \<open>send_*\<close> function does once its packet is laid out: transmit, read the reply if
  the write went through, compare its type. \<open>zero_ok\<close> is the test
  \<open>(head.type == BSL_REP_ACK)||(head.type == 0)\<close> of all but the connect and switch messages.
  The result is the return value 0 or -1.
\<close>

definition exchange ::
  "bool \<Rightarrow> nat \<Rightarrow> bytes \<Rightarrow> nat \<Rightarrow> bytes \<Rightarrow> bytes \<Rightarrow> chan \<Rightarrow> (int \<times> bytes \<times> chan) option" where
  "exchange zero_ok flag pkt len raw sb c =
     do { (retval, sb, c) \<leftarrow> transmit flag pkt len sb c;
          (if retval > 0
           then do { (retval, raw, offset, c) \<leftarrow> read_loop raw 0 (if flag = 0 then 8 else 6) c;
                     (if retval > 0
                      then do { (t, sb) \<leftarrow> decode_reply flag raw offset sb;
                                Some (if t = cmd_val BSL_REP_ACK \<or> zero_ok \<and> t = 0 then 0 else -1,
                                      sb, c) }
                      else Some (-1, sb, c)) }
           else Some (-1, sb, c)) }"

definition raw_buffer32 :: bytes where "raw_buffer32 = replicate 32 0"

definition send_connect_message :: "nat \<Rightarrow> bytes \<Rightarrow> chan \<Rightarrow> (int \<times> bytes \<times> chan) option" where
  "send_connect_message flag sb c =
     do { (len, raw) \<leftarrow> setup_packet BSL_CMD_CONNECT raw_buffer32 8 0 flag;
          exchange False flag raw len raw sb c }"

definition send_start_message ::
  "u32 \<Rightarrow> u32 \<Rightarrow> nat \<Rightarrow> bytes \<Rightarrow> chan \<Rightarrow> (int \<times> bytes \<times> chan) option" where
  "send_start_message len addr flag sb c =
     do { raw \<leftarrow> put32 8 (cpu2be32 addr) raw_buffer32;
          raw \<leftarrow> put32 12 (cpu2be32 len) raw;
          (total, raw) \<leftarrow> setup_packet BSL_CMD_START_DATA raw 8 8 flag;
          exchange True flag raw total raw sb c }"

definition send_end_message :: "nat \<Rightarrow> bytes \<Rightarrow> chan \<Rightarrow> (int \<times> bytes \<times> chan) option" where
  "send_end_message flag sb c =
     do { (len, raw) \<leftarrow> setup_packet BSL_CMD_END_DATA raw_buffer32 8 0 flag;
          exchange True flag raw len raw sb c }"

text \<open>Over SPI the packet is laid out in the caller's buffer, which comes back changed; over the
  UART the data is copied into a local array of 300 bytes.\<close>

definition send_data_message ::
  "bytes \<Rightarrow> nat \<Rightarrow> nat \<Rightarrow> bytes \<Rightarrow> chan \<Rightarrow> (int \<times> bytes \<times> bytes \<times> chan) option" where
  "send_data_message buffer data_size flag sb c =
     (if flag = 0
      then do { d \<leftarrow> buf_read 0 data_size buffer;
                uart_buffer \<leftarrow> buf_write 8 d (replicate 300 0);
                (len, uart_buffer) \<leftarrow> setup_packet BSL_CMD_MIDST_DATA uart_buffer 8 data_size flag;
                (ret, sb, c) \<leftarrow> exchange True flag uart_buffer len raw_buffer32 sb c;
                Some (ret, buffer, sb, c) }
      else do { (len, buffer) \<leftarrow> setup_packet BSL_CMD_MIDST_DATA buffer 8 data_size flag;
                (ret, sb, c) \<leftarrow> exchange True flag buffer len raw_buffer32 sb c;
                Some (ret, buffer, sb, c) })"

definition send_exec_message ::
  "u32 \<Rightarrow> nat \<Rightarrow> bytes \<Rightarrow> chan \<Rightarrow> (int \<times> bytes \<times> chan) option" where
  "send_exec_message addr flag sb c =
     do { raw \<leftarrow> put32 8 (cpu2be32 addr) raw_buffer32;
          (len, raw) \<leftarrow> setup_packet BSL_CMD_EXEC_DATA raw 8 4 flag;
          exchange True flag raw len raw sb c }"

definition uart_send_change_spi_mode_message ::
  "bytes \<Rightarrow> chan \<Rightarrow> (int \<times> bytes \<times> chan) option" where
  "uart_send_change_spi_mode_message sb c =
     do { (len, raw) \<leftarrow> setup_packet BSL_CMD_SWITCH_MODE raw_buffer32 8 0 BSL_UART_PACKET;
          exchange False 0 raw len raw sb c }"

lemma translate_body_no_flag: "0x7E \<notin> set (translate_body p)"
  by (induction p) auto

lemma translate_body_length:
  "length p \<le> length (translate_body p)" "length (translate_body p) \<le> 2 * length p"
  by (induction p) auto

lemma untranslate_body:
  assumes "dest \<noteq> []" and "last dest \<noteq> 0x7D" and "0x7D \<notin> set p"
  shows "untranslate_loop 2 dest (translate_body p @ r) = untranslate_loop 2 (dest @ p) r"
  using assms
proof (induction p arbitrary: dest)
  case (Cons c p)
  then show ?case using Cons.IH [of "dest @ [c]"] by (auto simp: butlast_append)
qed simp

lemma untranslate_start:
  assumes "p \<noteq> []" and "0x7D \<notin> set p"
  shows "untranslate_packet (0x7E # translate_body p @ r) = untranslate_loop 2 p r"
proof -
  obtain c q where p: "p = c # q" using assms(1) by (cases p) auto
  have c: "c \<noteq> 0x7D" and q: "0x7D \<notin> set q" using assms(2) p by auto
  have "untranslate_packet (0x7E # translate_body p @ r) = untranslate_loop 2 [c] (translate_body q @ r)"
    using c by (simp add: untranslate_packet_def p)
  also have "\<dots> = untranslate_loop 2 p r" using untranslate_body [of "[c]" q r] c q p by simp
  finally show ?thesis .
qed

lemma untranslate_loop_escape:
  assumes "dest \<noteq> []" and "last dest \<noteq> 0x7D"
  shows "untranslate_loop 2 dest (0x7D # 0x5D # r) = untranslate_loop 2 (dest @ [0x7D]) r"
  using assms by (simp add: butlast_append)

lemma hdlc_roundtrip_lemma:
  assumes len: "2 \<le> length p" and esc: "0x7D \<notin> set (butlast p)"
  shows "untranslate_packet (translate_packet p) = Some p"
proof (cases "last p = 0x7D")
  case False
  have ne: "p \<noteq> []" using len by auto
  then have "0x7D \<notin> set p" using esc False
    by (metis Un_iff append_butlast_last_id empty_iff empty_set set_ConsD set_append)
  then show ?thesis using untranslate_start [OF ne, of "[0x7E]"] len by (simp add: translate_packet_def)
next
  case True
  have ne: "butlast p \<noteq> []" using len by (cases p rule: rev_cases) auto
  have p: "p = butlast p @ [0x7D]" using True len by (metis append_butlast_last_id list.size(3) not_numeral_le_zero)
  have tb: "translate_body (xs @ ys) = translate_body xs @ translate_body ys" for xs ys
    by (induction xs) auto
  have "translate_packet p = 0x7E # translate_body (butlast p) @ 0x7D # 0x5D # [0x7E]"
    using p tb [of "butlast p" "[0x7D]"] by (simp add: translate_packet_def)
  then have "untranslate_packet (translate_packet p) = untranslate_loop 2 (butlast p) (0x7D # 0x5D # [0x7E])"
    using untranslate_start [OF ne esc] by simp
  also have "\<dots> = untranslate_loop 2 p [0x7E]"
    using untranslate_loop_escape [OF ne, of "[0x7E]"] esc p ne by (metis last_in_set)
  finally show ?thesis using len by simp
qed

lemma translate_body_append: "translate_body (xs @ ys) = translate_body xs @ translate_body ys"
  by (induction xs) auto

lemma untranslate_loses_byte:
  assumes "p \<noteq> []" and "0x7D \<notin> set p" and "c \<notin> {0x5D, 0x5E, 0x7D, 0x7E}"
  shows "untranslate_packet (translate_packet (p @ [0x7D, c])) = Some (p @ [0x7D])"
proof -
  have "translate_packet (p @ [0x7D, c]) = 0x7E # translate_body p @ 0x7D # 0x5D # [c, 0x7E]"
    using assms(3) by (simp add: translate_packet_def translate_body_append)
  then have "untranslate_packet (translate_packet (p @ [0x7D, c])) =
      untranslate_loop 2 p (0x7D # 0x5D # [c, 0x7E])"
    using untranslate_start [OF assms(1,2)] by simp
  also have "\<dots> = untranslate_loop 2 (p @ [0x7D]) [c, 0x7E]"
    using assms(1,2) by (intro untranslate_loop_escape) (auto dest: last_in_set)
  finally show ?thesis using assms by (cases p) auto
qed

definition uart_fields :: "CMD_TYPE \<Rightarrow> nat \<Rightarrow> bytes" where
  "uart_fields msg n = [hi8 (cmd_val msg), lo8 (cmd_val msg), hi8 (word_of_nat n), lo8 (word_of_nat n)]"

lemma length_uart_fields [simp]: "length (uart_fields msg n) = 4"
  by (simp add: uart_fields_def)

lemma uart_head_eq:
  assumes "8 \<le> length b"
  shows "uart_head msg n b = Some (take 4 b @ uart_fields msg n @ drop 8 b)"
  using assms by (simp add: uart_head_def buf_write_def cpu2be16_bytes uart_fields_def min_def)

definition be_crc :: "bytes \<Rightarrow> bytes" where
  "be_crc f = [hi8 (ucast (crc_16_l_calc f)), lo8 (ucast (crc_16_l_calc f))]"

lemma length_be_crc [simp]: "length (be_crc f) = 2"
  by (simp add: be_crc_def)

lemma uart_crc_packet_eq:
  assumes "n + 10 \<le> length b"
  shows "uart_crc_packet msg n b =
    Some (n + 6, take 4 b @ (uart_fields msg n @ take n (drop 8 b)) @
      be_crc (uart_fields msg n @ take n (drop 8 b)) @ drop (n + 10) b)"
proof -
  let ?F = "uart_fields msg n @ take n (drop 8 b)"
  let ?b = "take 4 b @ uart_fields msg n @ drop 8 b"
  have 1: "uart_head msg n b = Some ?b" using assms by (intro uart_head_eq) simp
  have 2: "buf_read 4 (4 + n) ?b = Some ?F"
    using assms by (simp add: buf_read_def min_def)
  have 3: "put16 (4 + n + 4) (cpu2be16 (ucast (crc_16_l_calc ?F))) ?b =
      Some (take 4 b @ ?F @ be_crc ?F @ drop (n + 10) b)"
    using assms by (simp add: buf_write_def cpu2be16_bytes be_crc_def min_def ac_simps)
  show ?thesis unfolding uart_crc_packet_def 1 bind.bind_lunit 2 3 by simp
qed

definition spi_header :: "u16 \<Rightarrow> CMD_TYPE \<Rightarrow> bytes \<Rightarrow> bytes" where
  "spi_header sf msg d =
     (let h = to_le16 sf @ to_le16 (cmd_val msg) @ to_le16 (boot_checksum d)
      in h @ to_le16 (boot_checksum h))"

lemma length_spi_header [simp]: "length (spi_header sf msg d) = 8"
  by (simp add: spi_header_def Let_def)

lemma spi_packet_eq:
  assumes "n + 8 \<le> length b"
  shows "spi_packet sf msg 8 n b = Some (spi_header sf msg (take n (drop 8 b)) @ drop 8 b)"
proof -
  let ?d = "take n (drop 8 b)"
  have 0: "put16 0 sf b = Some (to_le16 sf @ drop 2 b)"
    using assms by (simp add: buf_write_def numeral_2_eq_2)
  have 1: "put16 2 (cmd_val msg) (to_le16 sf @ drop 2 b) =
      Some (to_le16 sf @ to_le16 (cmd_val msg) @ drop 4 b)" (is "_ = Some ?b1")
    using assms by (simp add: buf_write_def)
  have 2: "buf_read 8 n ?b1 = Some ?d" using assms by (simp add: buf_read_def)
  have 3: "put16 4 (boot_checksum ?d) ?b1 =
      Some (to_le16 sf @ to_le16 (cmd_val msg) @ to_le16 (boot_checksum ?d) @ drop 6 b)"
      (is "_ = Some ?b2")
    using assms by (simp add: buf_write_def)
  have 4: "buf_read 0 6 ?b2 = Some (to_le16 sf @ to_le16 (cmd_val msg) @ to_le16 (boot_checksum ?d))"
     (is "_ = Some ?h")
    using assms by (simp add: buf_read_def)
  have 5: "put16 6 (boot_checksum ?h) ?b2 = Some (?h @ to_le16 (boot_checksum ?h) @ drop 8 b)"
    using assms by (simp add: buf_write_def)
  show ?thesis
    unfolding spi_packet_def spi_checksums_def 0 bind.bind_lunit 1 2 3 4 5
    by (simp add: spi_header_def Let_def)
qed

lemma write_loop_full:
  assumes "wr_sched c = w # ws" and "int n \<le> w" and "n \<le> length sb"
  shows "write_loop sb n c = Some (int n, c\<lparr>wr_sched := ws, tx := tx c @ take n sb\<rparr>)"
  using sys_write_full [of c w ws "take n sb"] assms
  by (subst write_loop.simps) (simp add: min_def)

lemma write_loop_short:
  assumes "wr_sched c = int a # w # ws" and "0 < a" and "a < n" and "int (n - a) \<le> w" and "n \<le> length sb"
  shows "write_loop sb n c =
    Some (int (n - a), c\<lparr>wr_sched := ws, tx := tx c @ take a sb @ take (n - a) sb\<rparr>)"
proof -
  let ?c = "c\<lparr>wr_sched := w # ws, tx := tx c @ take a sb\<rparr>"
  have "sys_write (take n sb) c = Some (int a, ?c)"
    using assms by (simp add: sys_write_def min_def)
  then have "write_loop sb n c = write_loop sb (n - a) ?c"
    using assms by (subst write_loop.simps) (simp add: Let_def)
  also have "\<dots> = Some (int (n - a), c\<lparr>wr_sched := ws, tx := tx c @ take a sb @ take (n - a) sb\<rparr>)"
    using write_loop_full [of ?c w ws "n - a" sb] assms by simp
  finally show ?thesis .
qed

lemma read_loop_result:
  assumes "read_loop raw off n c = Some (rv, raw', off', c')" and "0 < n"
  shows "off' = off + n \<and> 0 < rv \<and> n \<le> length (rx c) \<and> off + n \<le> length raw \<and>
     raw' = take off raw @ take n (rx c) @ drop (off + n) raw \<and> rx c' = drop n (rx c) \<and> tx c' = tx c"
  using assms
proof (induction raw off n c arbitrary: rv raw' off' c' rule: read_loop.induct)
  case (1 raw off n c)
  obtain r d c1 where rd: "sys_read n c = Some (r, d, c1)"
    using "1.prems"(1) by (subst (asm) read_loop.simps) (auto split: option.splits)
  note p = sys_read_props [OF rd]
  show ?case
  proof (cases "r > 0")
    case False
    then have "read_loop raw off n c1 = Some (rv, raw', off', c')"
      using "1.prems" rd by (subst (asm) read_loop.simps) (simp add: Let_def)
    moreover have "rx c1 = rx c" using p(1,3) False by simp
    ultimately show ?thesis
      using "1.IH" [OF rd refl refl, of raw off n rv raw' off' c'] "1.prems"(2) False p(4) by simp
  next
    case True
    obtain raw1 where w: "buf_write off d raw = Some raw1"
      using "1.prems"(1) rd True by (subst (asm) read_loop.simps) (auto split: option.splits)
    have d: "d = take (nat r) (rx c)" "nat r \<le> length (rx c)" "rx c1 = drop (nat r) (rx c)"
      using p(1,3) by (metis append_eq_conv_conj, metis le_add1 length_append, metis append_eq_conv_conj)
    have raw1: "raw1 = take off raw @ take (nat r) (rx c) @ drop (off + nat r) raw"
      "off + nat r \<le> length raw"
      using w p(1) d by (auto simp: buf_write_Some_iff)
    show ?thesis
    proof (cases "n - nat r = 0")
      case True
      then have "nat r = n" using p(2) by linarith
      then show ?thesis using "1.prems"(1) rd w \<open>r > 0\<close> raw1 d p
        by (subst (asm) read_loop.simps) (auto simp: Let_def)
    next
      case False
      then have "read_loop raw1 (off + nat r) (n - nat r) c1 = Some (rv, raw', off', c')"
        using "1.prems"(1) rd w \<open>r > 0\<close> by (subst (asm) read_loop.simps) (simp add: Let_def)
      then have "off' = off + nat r + (n - nat r) \<and> 0 < rv \<and> n - nat r \<le> length (rx c1) \<and>
         off + nat r + (n - nat r) \<le> length raw1 \<and>
         raw' = take (off + nat r) raw1 @ take (n - nat r) (rx c1) @ drop (off + nat r + (n - nat r)) raw1 \<and>
         rx c' = drop (n - nat r) (rx c1) \<and> tx c' = tx c1"
        using "1.IH" [OF rd refl refl, of raw1] False w \<open>r > 0\<close> by simp
      moreover have "nat r < n" using False by simp
      ultimately show ?thesis using raw1 d p(4)
        by (auto simp: take_add [symmetric] ac_simps)
    qed
  qed
qed

lemma read_loop_returns:
  assumes "0 < n" and "n \<le> sum_list (map nat (rd_sched c))" and "n \<le> length (rx c)"
    and "off + n \<le> length raw"
  shows "\<exists>y. read_loop raw off n c = Some y"
  using assms
proof (induction raw off n c rule: read_loop.induct)
  case (1 raw off n c)
  obtain r rs where s: "rd_sched c = r # rs" using "1.prems"(1,2) by (cases "rd_sched c") auto
  let ?k = "min (nat r) n"
  let ?c = "c\<lparr>rd_sched := rs, rx := drop ?k (rx c)\<rparr>"
  show ?case
  proof (cases "r > 0")
    case False
    then have rd: "sys_read n c = Some (if r < 0 then -1 else 0, [], c\<lparr>rd_sched := rs\<rparr>)"
      using s by (cases c) (auto simp: sys_read_def)
    then show ?thesis
      using "1.IH" [OF rd refl refl, of raw off n] "1.prems" s False
      by (subst read_loop.simps) (auto simp: Let_def)
  next
    case True
    have rd: "sys_read n c = Some (int ?k, take ?k (rx c), ?c)"
      using s True "1.prems"(3) by (simp add: sys_read_def Let_def)
    have k: "0 < ?k" "?k \<le> n" using True "1.prems"(1) by auto
    obtain raw1 where w: "buf_write off (take ?k (rx c)) raw = Some raw1"
      using buf_write_defined [of off "take ?k (rx c)" raw] "1.prems" k by auto
    show ?thesis
    proof (cases "n - ?k = 0")
      case True
      then show ?thesis using rd w k by (subst read_loop.simps) (auto simp: Let_def)
    next
      case False
      then have "?k = nat r" by simp
      then have "\<exists>y. read_loop raw1 (off + ?k) (n - ?k) ?c = Some y"
        using "1.IH" [OF rd refl refl, of raw1 "off + ?k" "n - ?k"] "1.prems" w k s False
          buf_write_length [OF w] by auto
      then show ?thesis using rd w k False by (subst read_loop.simps) (auto simp: Let_def)
    qed
  qed
qed

text \<open>A device that takes every frame whole and a peer that answers with the given reply.\<close>

definition ready :: "chan \<Rightarrow> nat \<Rightarrow> bytes \<Rightarrow> bool" where
  "ready c n reply \<longleftrightarrow>
     (\<exists>w ws. wr_sched c = w # ws \<and> int n \<le> w) \<and>
     take (length reply) (rx c) = reply \<and> length reply \<le> sum_list (map nat (rd_sched c))"

lemma ready_write:
  assumes "ready c n reply" and "n \<le> length sb"
  shows "\<exists>c'. write_loop sb n c = Some (int n, c') \<and> rx c' = rx c \<and> rd_sched c' = rd_sched c \<and>
     tx c' = tx c @ take n sb"
  using assms write_loop_full [of c _ _ n sb] by (force simp: ready_def)

lemma ready_read:
  assumes rx: "take (length reply) (rx c) = reply" 
    and s: "length reply \<le> sum_list (map nat (rd_sched c))"
    and "0 < length reply" and "length reply \<le> length raw"
  shows "\<exists>rv raw' c'. read_loop raw 0 (length reply) c = Some (rv, raw', length reply, c') \<and> 0 < rv \<and>
     raw' = reply @ drop (length reply) raw \<and> rx c' = drop (length reply) (rx c) \<and> tx c' = tx c"
proof -
  have "length reply \<le> length (rx c)" using arg_cong [OF rx, of length] by simp
  then obtain y where "read_loop raw 0 (length reply) c = Some y"
    using read_loop_returns [of "length reply" c 0 raw] assms by auto
  moreover obtain rv raw' off' c' where "y = (rv, raw', off', c')" by (cases y)
  ultimately show ?thesis using read_loop_result [of raw 0 "length reply" c rv raw' off' c'] assms(3) rx by simp
qed

lemma exchange_uart:
  assumes f: "buf_read 4 len pkt = Some f"
    and sb: "length (translate_packet f) \<le> length sb" "8 \<le> length sb"
    and r: "ready c (length (translate_packet f)) reply" "length reply = 8" "8 \<le> length raw"
    and u: "untranslate_packet reply = Some d" "2 \<le> length d" "length d \<le> 8"
  shows "\<exists>sb' c'. exchange z 0 pkt len raw sb c =
      Some (if le16 (d ! 1) (d ! 0) = cmd_val BSL_REP_ACK \<or> z \<and> le16 (d ! 1) (d ! 0) = 0 then 0 else -1, sb', c')
    \<and> tx c' = tx c @ translate_packet f \<and> rx c' = drop 8 (rx c) \<and> length sb' = length sb"
proof -
  let ?t = "translate_packet f"
  define sb1 where "sb1 = ?t @ drop (length ?t) sb"
  have 1: "buf_write 0 ?t sb = Some sb1" using sb by (simp add: buf_write_def sb1_def)
  have l1: "length sb1 = length sb" using sb by (simp add: sb1_def)
  obtain c1 where 2: "write_loop sb1 (length ?t) c = Some (int (length ?t), c1)"
    and c1: "rx c1 = rx c" "rd_sched c1 = rd_sched c" "tx c1 = tx c @ ?t"
    using ready_write [OF r(1), of sb1] sb by (auto simp: sb1_def)
  have 3: "transmit 0 pkt len sb c = Some (int (length ?t), sb1, c1)"
    by (simp add: transmit_def f 1 2)
  have pos: "0 < int (length ?t)" by (simp add: translate_packet_def)
  obtain rv raw' c2 where 4: "read_loop raw 0 8 c1 = Some (rv, raw', 8, c2)" and rv: "0 < rv"
    and raw': "raw' = reply @ drop 8 raw" and c2: "rx c2 = drop 8 (rx c1)" "tx c2 = tx c1"
    using ready_read [of reply c1 raw] r c1 by (auto simp: ready_def)
  have 5: "buf_read 0 8 raw' = Some reply" using raw' r(2) by (simp add: buf_read_def)
  define sb2 where "sb2 = d @ drop (length d) sb1"
  have 6: "buf_write 0 d sb1 = Some sb2" using u sb l1 by (simp add: buf_write_def sb2_def)
  obtain x y d' where d': "d = x # y # d'" using u(2) by (cases d; cases "tl d") auto
  have 7: "reply_type sb2 = Some (le16 (d ! 1) (d ! 0))"
    by (simp add: reply_type_def buf_read_def sb2_def d')
  show ?thesis
    using 3 pos 4 rv 5 u(1) 6 7 c2 c1 l1 buf_write_length [OF 6]
    by (simp add: exchange_def decode_reply_def)
qed

lemma exchange_spi:
  assumes f: "buf_read 0 len pkt = Some f" "f \<noteq> []"
    and r: "ready c (length f) reply" "length reply = 6" "6 \<le> length raw"
  shows "\<exists>c'. exchange z 1 pkt len raw sb c =
      Some (if le16 (reply ! 1) (reply ! 0) = cmd_val BSL_REP_ACK \<or>
               z \<and> le16 (reply ! 1) (reply ! 0) = 0 then 0 else -1, sb, c')
    \<and> tx c' = tx c @ f \<and> rx c' = drop 6 (rx c)"
proof -
  obtain w ws where ws: "wr_sched c = w # ws" "int (length f) \<le> w" using r(1) by (auto simp: ready_def)
  let ?c = "c\<lparr>wr_sched := ws, tx := tx c @ f\<rparr>"
  have 1: "transmit 1 pkt len sb c = Some (int (length f), sb, ?c)"
    using sys_write_full [OF ws] f by (simp add: transmit_def)
  obtain rv raw' c2 where 2: "read_loop raw 0 6 ?c = Some (rv, raw', 6, c2)" and rv: "0 < rv"
    and raw': "raw' = reply @ drop 6 raw" and c2: "rx c2 = drop 6 (rx ?c)" "tx c2 = tx ?c"
    using ready_read [of reply ?c raw] r by (auto simp: ready_def)
  obtain x y d where d: "reply = x # y # d" using r(2) by (cases reply; cases "tl reply") auto
  have 3: "reply_type raw' = Some (le16 (reply ! 1) (reply ! 0))"
    by (simp add: reply_type_def buf_read_def raw' d)
  show ?thesis using 1 2 rv 3 f c2 by (simp add: exchange_def decode_reply_def)
qed

text \<open>The modem's acknowledge over the UART, with any CRC bytes that need no escape.\<close>

definition ack_frame :: "u8 \<Rightarrow> u8 \<Rightarrow> bytes" where
  "ack_frame x y = [0x7E, 0x00, 0x80, 0x00, 0x00, x, y, 0x7E]"

lemma untranslate_ack:
  "x \<notin> {0x7D, 0x7E} \<Longrightarrow> y \<noteq> 0x7E \<Longrightarrow>
     untranslate_packet (ack_frame x y) = Some [0x00, 0x80, 0x00, 0x00, x, y]"
  by (simp add: ack_frame_def untranslate_packet_def)

lemma ack_type: "le16 0x80 0x00 = cmd_val BSL_REP_ACK"
  by (simp add: le16_def)

lemma exchange_uart_ack:
  assumes "buf_read 4 len pkt = Some f" "length f \<le> 1000" "length sb = 4000" "8 \<le> length raw"
    and "ready c (length (translate_packet f)) (ack_frame x y)" "x \<notin> {0x7D, 0x7E}" "y \<noteq> 0x7E"
  shows "\<exists>sb' c'. exchange z 0 pkt len raw sb c = Some (0, sb', c') \<and>
     tx c' = tx c @ translate_packet f \<and> rx c' = drop 8 (rx c) \<and> length sb' = 4000"
proof -
  have "length (translate_packet f) \<le> 4000"
    using translate_body_length(2) [of f] assms(2) by (simp add: translate_packet_def)
  then show ?thesis
    using exchange_uart [OF assms(1) _ _ assms(5) _ assms(4) untranslate_ack [OF assms(6,7)], of sb z] assms(3)
    by (simp add: ack_frame_def ack_type)
qed

definition uart_frame :: "CMD_TYPE \<Rightarrow> bytes \<Rightarrow> bytes" where
  "uart_frame msg d = (let f = uart_fields msg (length d) @ d in f @ be_crc f)"

lemma length_uart_frame [simp]: "length (uart_frame msg d) = length d + 6"
  by (simp add: uart_frame_def Let_def)

lemma uart_crc_packet_frame:
  assumes "length d + 10 \<le> length b" and "take (length d) (drop 8 b) = d"
  shows "\<exists>b'. uart_crc_packet msg (length d) b = Some (length d + 6, b') \<and>
     buf_read 4 (length d + 6) b' = Some (uart_frame msg d) \<and> length b' = length b"
  using uart_crc_packet_eq [OF assms(1), of msg] assms(2)
  by (simp add: uart_frame_def Let_def buf_read_def assms(1) min_def) (use assms(1) in linarith)

definition start_payload :: "u32 \<Rightarrow> u32 \<Rightarrow> bytes" where
  "start_payload addr len = rev (to_le32 addr) @ rev (to_le32 len)"

lemma start_raw:
  "put32 8 (cpu2be32 addr) raw_buffer32 = Some (replicate 8 0 @ rev (to_le32 addr) @ replicate 20 0)"
  "put32 12 (cpu2be32 len) (replicate 8 0 @ rev (to_le32 addr) @ replicate 20 0) =
     Some (replicate 8 0 @ start_payload addr len @ replicate 16 0)"
  by (simp_all add: buf_write_def raw_buffer32_def cpu2be32_bytes start_payload_def)

lemma send_start_uart_lemma:
  assumes "length sb = 4000" "x \<notin> {0x7D, 0x7E}" "y \<noteq> 0x7E"
    and "ready c (length (translate_packet (uart_frame BSL_CMD_START_DATA (start_payload addr len)))) (ack_frame x y)"
  shows "\<exists>sb' c'. send_start_message len addr 0 sb c = Some (0, sb', c') \<and>
     tx c' = tx c @ translate_packet (uart_frame BSL_CMD_START_DATA (start_payload addr len))"
proof -
  let ?d = "start_payload addr len" and ?b = "replicate 8 0 @ start_payload addr len @ replicate 16 0 :: bytes"
  have l: "length ?d = 8" by (simp add: start_payload_def)
  obtain b' where 1: "uart_crc_packet BSL_CMD_START_DATA 8 ?b = Some (14, b')"
    "buf_read 4 14 b' = Some (uart_frame BSL_CMD_START_DATA ?d)" "length b' = 32"
    using uart_crc_packet_frame [of ?d ?b BSL_CMD_START_DATA] l by auto
  obtain sb' c' where "exchange True 0 b' 14 b' sb c = Some (0, sb', c')"
     "tx c' = tx c @ translate_packet (uart_frame BSL_CMD_START_DATA ?d)"
    using exchange_uart_ack [OF 1(2) _ assms(1) _ assms(4,2,3), of b' True] 1(3) l by auto
  then show ?thesis
    using 1 by (simp add: send_start_message_def start_raw BSL_UART_PACKET_def)
qed

lemma send_data_uart:
  assumes "length d = n" "n \<le> 290" "n \<le> length buffer" "take n buffer = d" "length sb = 4000"
    "x \<notin> {0x7D, 0x7E}" "y \<noteq> 0x7E"
    and "ready c (length (translate_packet (uart_frame BSL_CMD_MIDST_DATA d))) (ack_frame x y)"
  shows "\<exists>sb' c'. send_data_message buffer n 0 sb c = Some (0, buffer, sb', c') \<and>
     tx c' = tx c @ translate_packet (uart_frame BSL_CMD_MIDST_DATA d)"
proof -
  let ?b = "replicate 8 0 @ d @ replicate (292 - n) 0 :: bytes"
  have 0: "buf_read 0 n buffer = Some d" "buf_write 8 d (replicate 300 0) = Some ?b"
    using assms by (auto simp: buf_read_def buf_write_def)
  obtain b' where 1: "uart_crc_packet BSL_CMD_MIDST_DATA n ?b = Some (n + 6, b')"
    "buf_read 4 (n + 6) b' = Some (uart_frame BSL_CMD_MIDST_DATA d)"
    using uart_crc_packet_frame [of d ?b BSL_CMD_MIDST_DATA] assms(1,2) by auto
  obtain sb' c' where "exchange True 0 b' (n + 6) raw_buffer32 sb c = Some (0, sb', c')"
     "tx c' = tx c @ translate_packet (uart_frame BSL_CMD_MIDST_DATA d)"
    using exchange_uart_ack [OF 1(2) _ assms(5) _ assms(8,6,7), of raw_buffer32 True] assms(1,2)
    by (auto simp: raw_buffer32_def)
  then show ?thesis
    using 0 1 by (simp add: send_data_message_def BSL_UART_PACKET_def)
qed

definition acked :: "bytes \<Rightarrow> bool" where
  "acked reply \<longleftrightarrow> le16 (reply ! 1) (reply ! 0) = cmd_val BSL_REP_ACK \<or> le16 (reply ! 1) (reply ! 0) = 0"

lemma exchange_spi_acked:
  assumes "buf_read 0 n pkt = Some f" "0 < n" "ready c n reply" "length reply = 6" "6 \<le> length raw"
  shows "\<exists>c'. exchange True (Suc 0) pkt n raw sb c = Some (if acked reply then 0 else -1, sb, c') \<and>
    tx c' = tx c @ f \<and> rx c' = drop 6 (rx c)"
proof -
  have l: "length f = n" using assms(1) by (auto simp: buf_read_def split: if_splits)
  then have "f \<noteq> []" using assms(2) by auto
  then show ?thesis
    using exchange_spi [OF assms(1) _ _ assms(4,5), of c True sb] assms(3) l by (simp add: acked_def)
qed

lemma send_data_spi_lemma:
  assumes "0 < n" and "n + 8 \<le> length buffer" and "ready c (n + 8) reply" and "length reply = 6"
  shows "\<exists>c'. send_data_message buffer n 1 sb c =
      Some (if acked reply then 0 else -1,
            spi_header (word_of_nat n) BSL_CMD_MIDST_DATA (take n (drop 8 buffer)) @ drop 8 buffer, sb, c') \<and>
     tx c' = tx c @ spi_header (word_of_nat n) BSL_CMD_MIDST_DATA (take n (drop 8 buffer)) @ take n (drop 8 buffer) \<and>
     rx c' = drop 6 (rx c)"
proof -
  let ?d = "take n (drop 8 buffer)"
  let ?b = "spi_header (word_of_nat n) BSL_CMD_MIDST_DATA ?d @ drop 8 buffer"
  have 1: "buf_read 0 (n + 8) ?b = Some (spi_header (word_of_nat n) BSL_CMD_MIDST_DATA ?d @ ?d)"
    using assms(2) by (simp add: buf_read_def)
  obtain c' where "exchange True (Suc 0) ?b (n + 8) raw_buffer32 sb c = Some (if acked reply then 0 else -1, sb, c')"
    "tx c' = tx c @ spi_header (word_of_nat n) BSL_CMD_MIDST_DATA ?d @ ?d" "rx c' = drop 6 (rx c)"
    using exchange_spi_acked [OF 1 _ assms(3,4), of raw_buffer32 sb] by (auto simp: raw_buffer32_def)
  then show ?thesis
    using spi_packet_eq [OF assms(2), of "word_of_nat n" BSL_CMD_MIDST_DATA] assms(1)
    by (simp add: send_data_message_def BSL_UART_PACKET_def)
qed

lemma send_start_spi_lemma:
  assumes "ready c 16 reply" and "length reply = 6"
  shows "\<exists>c'. send_start_message len addr 1 sb c = Some (if acked reply then 0 else -1, sb, c') \<and>
     tx c' = tx c @ spi_header 8 BSL_CMD_START_DATA (start_payload addr len) @ start_payload addr len \<and>
     rx c' = drop 6 (rx c)"
proof -
  let ?d = "start_payload addr len" and ?b = "replicate 8 0 @ start_payload addr len @ replicate 16 0 :: bytes"
  have l: "length ?d = 8" by (simp add: start_payload_def)
  let ?p = "spi_header 8 BSL_CMD_START_DATA ?d @ ?d @ replicate 16 0"
  have 1: "spi_packet 8 BSL_CMD_START_DATA 8 8 ?b = Some ?p"
    using spi_packet_eq [of 8 ?b 8 BSL_CMD_START_DATA] l by simp
  have 2: "buf_read 0 16 ?p = Some (spi_header 8 BSL_CMD_START_DATA ?d @ ?d)"
    using l by (simp add: buf_read_def)
  obtain c' where "exchange True (Suc 0) ?p 16 ?p sb c = Some (if acked reply then 0 else -1, sb, c')"
    "tx c' = tx c @ spi_header 8 BSL_CMD_START_DATA ?d @ ?d" "rx c' = drop 6 (rx c)"
    using exchange_spi_acked [OF 2 _ assms, of ?p sb] by auto
  then show ?thesis using 1 by (simp add: send_start_message_def start_raw BSL_UART_PACKET_def)
qed

lemma send_end_spi_lemma:
  assumes "ready c 12 reply" and "length reply = 6"
  shows "\<exists>c'. send_end_message 1 sb c = Some (if acked reply then 0 else -1, sb, c') \<and>
     tx c' = tx c @ spi_header 4 BSL_CMD_END_DATA [] @ [0, 0, 0, 0] \<and> rx c' = drop 6 (rx c)"
proof -
  have 1: "spi_packet 4 BSL_CMD_END_DATA 8 0 raw_buffer32 = Some (spi_header 4 BSL_CMD_END_DATA [] @ replicate 24 0)"
    using spi_packet_eq [of 0 raw_buffer32 4 BSL_CMD_END_DATA] by (simp add: raw_buffer32_def)
  let ?p = "spi_header 4 BSL_CMD_END_DATA [] @ to_le32 0 @ replicate 20 0"
  have 2: "put32 8 0 (spi_header 4 BSL_CMD_END_DATA [] @ replicate 24 0) = Some ?p"
    by (simp add: buf_write_def)
  have 3: "buf_read 0 12 ?p = Some (spi_header 4 BSL_CMD_END_DATA [] @ [0, 0, 0, 0])"
    by (simp add: buf_read_def to_le32_def)
  obtain c' where "exchange True (Suc 0) ?p 12 ?p sb c = Some (if acked reply then 0 else -1, sb, c')"
    "tx c' = tx c @ spi_header 4 BSL_CMD_END_DATA [] @ [0, 0, 0, 0]" "rx c' = drop 6 (rx c)"
    using exchange_spi_acked [OF 3 _ assms, of ?p sb] by auto
  then show ?thesis using 1 2 by (simp add: send_end_message_def BSL_UART_PACKET_def)
qed

lemma send_exec_spi_lemma:
  assumes "ready c 12 reply" and "length reply = 6"
  shows "\<exists>c'. send_exec_message addr 1 sb c = Some (if acked reply then 0 else -1, sb, c') \<and>
     tx c' = tx c @ spi_header 4 BSL_CMD_EXEC_DATA (rev (to_le32 addr)) @ rev (to_le32 addr) \<and>
     rx c' = drop 6 (rx c)"
proof -
  let ?d = "rev (to_le32 addr)" and ?b = "replicate 8 0 @ rev (to_le32 addr) @ replicate 20 0 :: bytes"
  let ?p = "spi_header 4 BSL_CMD_EXEC_DATA ?d @ ?d @ replicate 20 0"
  have 1: "spi_packet 4 BSL_CMD_EXEC_DATA 8 4 ?b = Some ?p"
    using spi_packet_eq [of 4 ?b 4 BSL_CMD_EXEC_DATA] by simp
  have 2: "buf_read 0 12 ?p = Some (spi_header 4 BSL_CMD_EXEC_DATA ?d @ ?d)"
    by (simp add: buf_read_def)
  obtain c' where "exchange True (Suc 0) ?p 12 ?p sb c = Some (if acked reply then 0 else -1, sb, c')"
    "tx c' = tx c @ spi_header 4 BSL_CMD_EXEC_DATA ?d @ ?d" "rx c' = drop 6 (rx c)"
    using exchange_spi_acked [OF 2 _ assms, of ?p sb] by auto
  then show ?thesis using 1 by (simp add: send_exec_message_def start_raw BSL_UART_PACKET_def)
qed

text \<open>Every SPI exchange consumes an outcome of \<open>write\<close>; a UART block is read from the
  caller's buffer in full.\<close>

lemma read_loop_sched:
  "read_loop raw off n c = Some (rv, raw', off', c') \<Longrightarrow> wr_sched c' = wr_sched c"
proof (induction raw off n c arbitrary: rv raw' off' c' rule: read_loop.induct)
  case (1 raw off n c)
  obtain r d c1 where rd: "sys_read n c = Some (r, d, c1)"
    using "1.prems" by (subst (asm) read_loop.simps) (auto split: option.splits)
  obtain raw1 where w: "(if r > 0 then buf_write off d raw else Some raw) = Some raw1"
    using "1.prems" rd by (subst (asm) read_loop.simps) (auto split: option.splits)
  let ?n = "if r > 0 then n - nat r else n" and ?o = "if r > 0 then off + nat r else off"
  have e: "(if ?n \<noteq> 0 then read_loop raw1 ?o ?n c1 else Some (r, raw1, ?o, c1)) = Some (rv, raw', off', c')"
    using "1.prems" rd w by (subst (asm) read_loop.simps) (simp only: option.case prod.case Let_def)
  show ?case
  proof (cases "?n \<noteq> 0")
    case True
    have "wr_sched c' = wr_sched c1"
      by (rule "1.IH" [OF rd refl refl w refl refl True]) (use e True in simp)
    then show ?thesis using sys_read_props(5) [OF rd] by simp
  next
    case False
    then show ?thesis using e sys_read_props(5) [OF rd] by (simp split: if_splits)
  qed
qed

lemma exchange_spi_sched:
  assumes "exchange z 1 pkt len raw sb c = Some (ret, sb', c')"
  shows "length (wr_sched c') < length (wr_sched c)"
  using assms
  by (auto simp: exchange_def transmit_def bind_eq_Some_conv split: if_splits
      dest!: sys_write_sched read_loop_sched)

lemma send_data_sched:
  assumes "send_data_message buffer n 1 sb c = Some (ret, buffer', sb', c')"
  shows "length (wr_sched c') < length (wr_sched c)"
  using assms exchange_spi_sched
  by (auto simp: send_data_message_def bind_eq_Some_conv simp del: setup_packet.simps)

lemma send_data_uart_size:
  "send_data_message buffer n 0 sb c = Some y \<Longrightarrow> n \<le> length buffer"
  by (auto simp: send_data_message_def bind_eq_Some_conv buf_read_def split: if_splits)

section \<open>Properties of the packet layer\<close>

lemma be_crc_residue: "crc_16_l_calc (f @ be_crc f) = 0"
  using crc_l_own_bytes by (simp add: crc_16_l_calc_def be_crc_def ucast_u16_u32)

lemma spi_header_fields:
  "read_le16 0 (spi_header sf msg d @ r) = Some sf"
  "read_le16 2 (spi_header sf msg d @ r) = Some (cmd_val msg)"
  "read_le16 4 (spi_header sf msg d @ r) = Some (boot_checksum d)"
  "read_le16 6 (spi_header sf msg d @ r) = Some (boot_checksum (take 6 (spi_header sf msg d)))"
  by (simp_all add: spi_header_def Let_def read_le16_def buf_read_def to_le16_def le16_split)

text \<open>The two bytes behind a UART frame: nothing for the connect message, the ones' complement
  checksum in memory order for the switch message, the CRC big endian for the others.\<close>

definition uart_trailer :: "CMD_TYPE \<Rightarrow> bytes \<Rightarrow> bytes" where
  "uart_trailer msg f =
     (if msg = BSL_CMD_CONNECT then to_le16 0
      else if msg = BSL_CMD_SWITCH_MODE then to_le16 (frm_chk f)
      else be_crc f)"

definition download_cmds :: "CMD_TYPE set" where
  "download_cmds = {BSL_CMD_CONNECT, BSL_CMD_START_DATA, BSL_CMD_MIDST_DATA, BSL_CMD_END_DATA,
     BSL_CMD_EXEC_DATA, BSL_CMD_SWITCH_MODE}"

lemma to_le16_0: "to_le16 0 = [0, 0]"
  by code_simp

lemma length_uart_trailer [simp]: "length (uart_trailer msg f) = 2"
  by (simp add: uart_trailer_def)

lemma setup_uart_eq:
  assumes "msg \<in> download_cmds" and "n + 10 \<le> length b"
  shows "setup_packet msg b off n BSL_UART_PACKET =
    Some (n + 6, take 4 b @ (uart_fields msg n @ take n (drop 8 b)) @
      uart_trailer msg (uart_fields msg n @ take n (drop 8 b)) @ drop (n + 10) b)"
proof -
  let ?F = "uart_fields msg n @ take n (drop 8 b)"
  let ?b = "take 4 b @ uart_fields msg n @ drop 8 b"
  have 1: "uart_head msg n b = Some ?b" using assms by (intro uart_head_eq) simp
  have 2: "buf_read 4 (4 + n) ?b = Some ?F"
    using assms by (simp add: buf_read_def min_def)
  have 3: "put16 (4 + n + 4) v ?b = Some (take 4 b @ ?F @ to_le16 v @ drop (n + 10) b)" for v
    using assms by (simp add: buf_write_def min_def ac_simps)
  show ?thesis
    using assms(1) 1 2 3 uart_crc_packet_eq [OF assms(2), of msg]
    by (auto simp: download_cmds_def uart_trailer_def)
qed

lemma switch_residue:
  assumes "even (length f)" and "length f \<le> 131072"
  shows "word_sum (f @ to_le16 (frm_chk f)) mod 65535 = 0"
  using frm.complement [OF assms(2)] assms(1)
  by (simp add: word_sum_append to_le16_def le16_split add.commute)

lemma setup_uart_frame:
  assumes "msg \<in> download_cmds" and "n + 10 \<le> length b" and "F = uart_fields msg n @ take n (drop 8 b)"
  shows "\<exists>b'. setup_packet msg b off n BSL_UART_PACKET = Some (n + 6, b') \<and>
     buf_read 4 (n + 6) b' = Some (F @ uart_trailer msg F) \<and> length b' = length b"
  using setup_uart_eq [OF assms(1,2), of off] assms(2,3) by (auto simp: buf_read_def)

lemma replicate_4: "replicate 4 x = [x, x, x, x]"
  by (simp add: numeral_eq_Suc)

lemma to_le32_0: "to_le32 0 = [0, 0, 0, 0]"
  by code_simp

lemma setup_spi_connect:
  assumes "12 \<le> length b" and "n + 8 \<le> length b"
  shows "setup_packet BSL_CMD_CONNECT b 8 n BSL_SPI_PACKET = Some (12,
      spi_header (word_of_nat n) BSL_CMD_CONNECT (take n ([0, 0] @ drop 10 b)) @ [0, 0] @ drop 10 b)"
proof -
  let ?b = "take 8 b @ [0, 0] @ drop 10 b"
  let ?h = "to_le16 (word_of_nat n) @ to_le16 (cmd_val BSL_CMD_CONNECT)"
  have l: "n + 8 \<le> length ?b" using assms by simp
  have 0: "put16 0 (word_of_nat n) b = Some (to_le16 (word_of_nat n) @ drop 2 b)"
    using assms by (simp add: buf_write_def numeral_2_eq_2)
  have 1: "put16 2 (cmd_val BSL_CMD_CONNECT) (to_le16 (word_of_nat n) @ drop 2 b) = Some (?h @ drop 4 b)"
    using assms by (simp add: buf_write_def)
  have 2: "put16 8 0 (?h @ drop 4 b) = Some (?h @ drop 4 ?b)"
    using assms by (simp add: buf_write_def to_le16_0 drop_take)
  have 3: "put16 0 (word_of_nat n) ?b = Some (to_le16 (word_of_nat n) @ drop 2 ?b)"
    using assms by (simp add: buf_write_def numeral_2_eq_2)
  have 4: "put16 2 (cmd_val BSL_CMD_CONNECT) (to_le16 (word_of_nat n) @ drop 2 ?b) = Some (?h @ drop 4 ?b)"
    using assms by (simp add: buf_write_def)
  have "spi_checksums 8 n (?h @ drop 4 ?b) = spi_packet (word_of_nat n) BSL_CMD_CONNECT 8 n ?b"
    unfolding spi_packet_def 3 bind.bind_lunit 4 by simp
  also have "\<dots> = Some (spi_header (word_of_nat n) BSL_CMD_CONNECT (take n ([0, 0] @ drop 10 b)) @ [0, 0] @ drop 10 b)"
    using spi_packet_eq [OF l, of "word_of_nat n" BSL_CMD_CONNECT] assms by simp
  finally show ?thesis
    using 0 1 2 by (simp add: BSL_SPI_PACKET_def BSL_UART_PACKET_def)
qed

text \<open>What an SPI header announces, and how many payload bytes are overwritten with 0: the
  connect message clears two before the checksums are taken, the end and switch messages four
  after.\<close>

definition spi_size :: "CMD_TYPE \<Rightarrow> nat \<Rightarrow> nat" where
  "spi_size msg n =
     (if msg \<in> {BSL_CMD_END_DATA, BSL_CMD_SWITCH_MODE} \<or> msg = BSL_CMD_MIDST_DATA \<and> n = 0 then 4 else n)"

definition spi_cleared :: "CMD_TYPE \<Rightarrow> nat" where
  "spi_cleared msg =
     (if msg = BSL_CMD_CONNECT then 2
      else if msg \<in> {BSL_CMD_END_DATA, BSL_CMD_SWITCH_MODE} then 4 else 0)"

definition spi_summed :: "CMD_TYPE \<Rightarrow> bytes \<Rightarrow> bytes" where
  "spi_summed msg r = (if msg = BSL_CMD_CONNECT then [0, 0] @ drop 2 r else r)"

lemma setup_spi_eq:
  assumes "msg \<in> download_cmds" and "n + 8 \<le> length b" and "0 < spi_cleared msg \<longrightarrow> 12 \<le> length b"
  shows "setup_packet msg b 8 n BSL_SPI_PACKET =
    Some (if 0 < spi_cleared msg then 12 else n + 8,
      spi_header (word_of_nat (spi_size msg n)) msg (take n (spi_summed msg (drop 8 b))) @
        replicate (spi_cleared msg) 0 @ drop (8 + spi_cleared msg) b)"
proof -
  have p: "spi_packet sf msg 8 n b = Some (spi_header sf msg (take n (drop 8 b)) @ drop 8 b)" for sf
    by (rule spi_packet_eq [OF assms(2)])
  have z: "put32 8 0 (spi_header sf msg d @ drop 8 b) = Some (spi_header sf msg d @ replicate 4 0 @ drop 12 b)"
    if "12 \<le> length b" for sf d
    using that by (simp add: buf_write_def to_le32_0 replicate_4)
  have c: "setup_packet BSL_CMD_CONNECT b 8 n BSL_SPI_PACKET = Some (12,
      spi_header (word_of_nat n) BSL_CMD_CONNECT (take n ([0, 0] @ drop 10 b)) @ [0, 0] @ drop 10 b)"
    if "12 \<le> length b"
    using that assms(2) by (rule setup_spi_connect)
  consider "msg = BSL_CMD_CONNECT" | "msg \<in> {BSL_CMD_START_DATA, BSL_CMD_EXEC_DATA}" |
      "msg = BSL_CMD_MIDST_DATA" | "msg \<in> {BSL_CMD_END_DATA, BSL_CMD_SWITCH_MODE}"
    using assms(1) by (auto simp: download_cmds_def)
  then show ?thesis
  proof cases
    case 1
    then show ?thesis using c assms(3)
      by (simp add: spi_size_def spi_cleared_def spi_summed_def numeral_2_eq_2 del: setup_packet.simps)
  next
    case 2
    then show ?thesis using p
      by (auto simp: spi_size_def spi_cleared_def spi_summed_def BSL_SPI_PACKET_def BSL_UART_PACKET_def)
  next
    case 3
    then show ?thesis using p
      by (auto simp: spi_size_def spi_cleared_def spi_summed_def BSL_SPI_PACKET_def BSL_UART_PACKET_def)
  next
    case 4
    then show ?thesis using p z assms(3)
      by (auto simp: spi_size_def spi_cleared_def spi_summed_def BSL_SPI_PACKET_def BSL_UART_PACKET_def)
  qed
qed

text \<open>A translated packet is delimited by two flag bytes 0x7E, has no flag byte in between, and
  takes at most twice the packet's length plus the two flags.\<close>

theorem hdlc_framing:
  "\<exists>body. translate_packet p = [HDLC_FLAG] @ body @ [HDLC_FLAG] \<and> HDLC_FLAG \<notin> set body \<and>
     length p \<le> length body \<and> length body \<le> 2 * length p"
  using translate_body_no_flag translate_body_length
  by (intro exI [of _ "translate_body p"]) (auto simp: translate_packet_def HDLC_FLAG_def)

text \<open>C30: Translating and untranslating gives back every packet of at least two bytes in which the
  escape byte 0x7D occurs, if at all, only at the end.\<close>

theorem hdlc_roundtrip:
  assumes "2 \<le> length p" and "HDLC_ESCAPE \<notin> set (butlast p)"
  shows "untranslate_packet (translate_packet p) = Some p"
  using assms by (intro hdlc_roundtrip_lemma) (simp_all add: HDLC_ESCAPE_def)

theorem hdlc_roundtrip_witness:
  "untranslate_packet (translate_packet [0x00, 0x7E, 0x80, 0x7D]) = Some [0x00, 0x7E, 0x80, 0x7D]"
  by (rule hdlc_roundtrip) (simp_all add: HDLC_ESCAPE_def)

text \<open>Finding. When an escaped 0x7D is followed by an ordinary byte, the receiver loses that
  byte: it takes the 0x7D it has just decoded for an escape still pending.\<close>

theorem hdlc_escaped_7d_loses_byte:
  assumes "p \<noteq> []" and "0x7D \<notin> set p" and "c \<notin> {0x5D, 0x5E, 0x7D, 0x7E}"
  shows "untranslate_packet (translate_packet (p @ [0x7D, c])) = Some (p @ [0x7D])"
  using assms by (rule untranslate_loses_byte)

theorem hdlc_escaped_7d_loses_byte_witness:
  "untranslate_packet (translate_packet ([0x01] @ [0x7D, 0x33])) = Some ([0x01] @ [0x7D])"
  by (rule hdlc_escaped_7d_loses_byte) simp_all

text \<open>C33: \<open>setup_packet\<close> for the UART, for each of the six message types it lays out and a buffer
  with room for the data and ten bytes more: the frame it hands to the transmitter carries type and
  the low half word of the length big endian, and the caller's data unchanged. Behind START, MIDST,
  END and EXEC data stands the CRC that gives the frame the residue 0 a receiver checks for; behind
  the switch message the ones' complement checksum in memory order, under which the half words of a
  frame with an even number of data bytes add up to 0 modulo 65535; behind the connect message two
  zero bytes and no check at all.\<close>

theorem uart_packet_integrity:
  assumes "msg \<in> download_cmds" and "n + 10 \<le> length buffer"
  shows "\<exists>b f. setup_packet msg buffer 8 n BSL_UART_PACKET = Some (n + 6, b) \<and>
     buf_read 4 (n + 6) b = Some f \<and> length b = length buffer \<and>
     take 4 f = [hi8 (cmd_val msg), lo8 (cmd_val msg), hi8 (word_of_nat n), lo8 (word_of_nat n)] \<and>
     take n (drop 4 f) = take n (drop 8 buffer) \<and>
     (if msg = BSL_CMD_CONNECT then drop (n + 4) f = [0, 0]
      else if msg = BSL_CMD_SWITCH_MODE
      then drop (n + 4) f = to_le16 (frm_chk (take (n + 4) f)) \<and>
        (even n \<and> n + 4 \<le> 131072 \<longrightarrow> word_sum f mod 65535 = 0)
      else crc_16_l_calc f = 0)"
proof -
  obtain F where F: "F = uart_fields msg n @ take n (drop 8 buffer)" by simp
  obtain b where b: "setup_packet msg buffer 8 n BSL_UART_PACKET = Some (n + 6, b)"
    "buf_read 4 (n + 6) b = Some (F @ uart_trailer msg F)" "length b = length buffer"
    using setup_uart_frame [OF assms F] by blast
  have f: "length F = n + 4" "take 4 F = uart_fields msg n" "take n (drop 4 F) = take n (drop 8 buffer)"
    using F assms(2) by simp_all
  have "crc_16_l_calc (F @ be_crc F) = 0" by (rule be_crc_residue)
  moreover have "even n \<and> n + 4 \<le> 131072 \<longrightarrow> word_sum (F @ to_le16 (frm_chk F)) mod 65535 = 0"
    using switch_residue [of F] f(1) by simp
  ultimately show ?thesis
    using b f assms(2)
    by - (rule exI [of _ b], rule exI [of _ "F @ uart_trailer msg F"],
        simp add: uart_trailer_def to_le16_0 flip: uart_fields_def)
qed

theorem uart_packet_integrity_witness:
  "\<exists>b f. setup_packet BSL_CMD_EXEC_DATA (replicate 32 0) 8 4 BSL_UART_PACKET = Some (4 + 6, b) \<and>
     buf_read 4 (4 + 6) b = Some f \<and> length b = length (replicate 32 (0 :: u8)) \<and>
     take 4 f = [hi8 (cmd_val BSL_CMD_EXEC_DATA), lo8 (cmd_val BSL_CMD_EXEC_DATA),
                 hi8 (word_of_nat 4), lo8 (word_of_nat 4)] \<and>
     take 4 (drop 4 f) = take 4 (drop 8 (replicate 32 0)) \<and> crc_16_l_calc f = 0"
  using uart_packet_integrity [of BSL_CMD_EXEC_DATA 4 "replicate 32 0"]
  by (simp add: download_cmds_def del: setup_packet.simps)

text \<open>C34: \<open>setup_packet\<close> for SPI, for each of the six message types it lays out. The header carries
  the type, the size (4 for the end and switch messages and for an empty data block, the number of
  payload bytes otherwise, cut to 16 bits) and a checksum over itself; the payload stays as it was
  but for the leading bytes that the connect (two), end and switch messages (four) set to 0. The
  payload checksum is that of the payload as sent, except for the end and switch messages, where
  it is that of the bytes the buffer held before they were set to 0. START, MIDST and EXEC packets
  have the header's eight bytes more than the payload, the others twelve bytes in all.\<close>

theorem spi_packet_integrity:
  assumes "msg \<in> download_cmds" and "n + 8 \<le> length buffer" and "0 < spi_cleared msg \<longrightarrow> 12 \<le> length buffer"
  shows "\<exists>b. setup_packet msg buffer 8 n BSL_SPI_PACKET = Some (if 0 < spi_cleared msg then 12 else n + 8, b) \<and>
     length b = length buffer \<and>
     drop 8 b = replicate (spi_cleared msg) 0 @ drop (8 + spi_cleared msg) buffer \<and>
     read_le16 0 b = Some (word_of_nat (spi_size msg n)) \<and> read_le16 2 b = Some (cmd_val msg) \<and>
     read_le16 4 b = Some (boot_checksum (take n (drop 8
       (if msg \<in> {BSL_CMD_END_DATA, BSL_CMD_SWITCH_MODE} then buffer else b)))) \<and>
     read_le16 6 b = Some (boot_checksum (take 6 b))"
proof -
  obtain h where h: "h = spi_header (word_of_nat (spi_size msg n)) msg (take n (spi_summed msg (drop 8 buffer)))"
    by simp
  obtain r where r: "r = replicate (spi_cleared msg) 0 @ drop (8 + spi_cleared msg) buffer" by simp
  have l: "length h = 8" "8 + length r = length buffer"
    using assms h r by (simp_all add: spi_cleared_def split: if_splits)
  have s: "spi_summed msg (drop 8 buffer) =
      drop 8 (if msg \<in> {BSL_CMD_END_DATA, BSL_CMD_SWITCH_MODE} then buffer else h @ r)"
    using l(1) r by (simp add: spi_summed_def spi_cleared_def numeral_2_eq_2)
  have f: "read_le16 0 (h @ r) = Some (word_of_nat (spi_size msg n))" "read_le16 2 (h @ r) = Some (cmd_val msg)"
    "read_le16 4 (h @ r) = Some (boot_checksum (take n (spi_summed msg (drop 8 buffer))))"
    "read_le16 6 (h @ r) = Some (boot_checksum (take 6 h))"
    unfolding h by (rule spi_header_fields)+
  show ?thesis
  proof (intro exI conjI)
    show "setup_packet msg buffer 8 n BSL_SPI_PACKET = Some (if 0 < spi_cleared msg then 12 else n + 8, h @ r)"
      using setup_spi_eq [OF assms] h r by (simp del: setup_packet.simps)
    show "read_le16 4 (h @ r) = Some (boot_checksum (take n (drop 8
        (if msg \<in> {BSL_CMD_END_DATA, BSL_CMD_SWITCH_MODE} then buffer else h @ r))))"
      using f(3) unfolding s .
  qed (use f l r in simp_all)
qed

theorem spi_packet_integrity_witness:
  "\<exists>b. setup_packet BSL_CMD_MIDST_DATA (replicate 32 7) 8 5 BSL_SPI_PACKET =
       Some (if 0 < spi_cleared BSL_CMD_MIDST_DATA then 12 else 5 + 8, b) \<and>
     length b = length (replicate 32 (7 :: u8)) \<and>
     drop 8 b = replicate (spi_cleared BSL_CMD_MIDST_DATA) 0 @ drop (8 + spi_cleared BSL_CMD_MIDST_DATA) (replicate 32 7) \<and>
     read_le16 0 b = Some (word_of_nat (spi_size BSL_CMD_MIDST_DATA 5)) \<and>
     read_le16 2 b = Some (cmd_val BSL_CMD_MIDST_DATA) \<and>
     read_le16 4 b = Some (boot_checksum (take 5 (drop 8
       (if BSL_CMD_MIDST_DATA \<in> {BSL_CMD_END_DATA, BSL_CMD_SWITCH_MODE} then replicate 32 7 else b)))) \<and>
     read_le16 6 b = Some (boot_checksum (take 6 b))"
  by (rule spi_packet_integrity) (simp_all add: download_cmds_def spi_cleared_def)

text \<open>Sending START_DATA over the UART to a modem that acknowledges puts exactly the translated
  frame (address and length big endian, CRC) on the line and returns 0, however the eight bytes of
  the reply are split over the reads.\<close>

theorem send_start_uart:
  assumes "length sb = 4000" and "x \<notin> {0x7D, 0x7E}" and "y \<noteq> 0x7E"
    and "ready c (length (translate_packet (uart_frame BSL_CMD_START_DATA (start_payload addr len)))) (ack_frame x y)"
  shows "\<exists>sb' c'. send_start_message len addr BSL_UART_PACKET sb c = Some (0, sb', c') \<and>
     tx c' = tx c @ translate_packet (uart_frame BSL_CMD_START_DATA (start_payload addr len))"
  unfolding BSL_UART_PACKET_def using assms by (rule send_start_uart_lemma)

theorem send_start_uart_witness:
  "\<exists>sb' c'. send_start_message 0x1000 0x50000000 BSL_UART_PACKET (replicate 4000 0)
       \<lparr>rx = ack_frame 0x11 0x22, tx = [], rd_sched = [3, 0, -1, 5], wr_sched = [4000]\<rparr> = Some (0, sb', c') \<and>
     tx c' = tx \<lparr>rx = ack_frame 0x11 0x22, tx = [], rd_sched = [3, 0, -1, 5], wr_sched = [4000]\<rparr> @
       translate_packet (uart_frame BSL_CMD_START_DATA (start_payload 0x50000000 0x1000))"
proof (rule send_start_uart [where x = "0x11" and y = "0x22"])
  show "ready \<lparr>rx = ack_frame 0x11 0x22, tx = [], rd_sched = [3, 0, -1, 5], wr_sched = [4000]\<rparr>
    (length (translate_packet (uart_frame BSL_CMD_START_DATA (start_payload 0x50000000 0x1000)))) (ack_frame 0x11 0x22)"
    using translate_body_length(2) [of "uart_frame BSL_CMD_START_DATA (start_payload 0x50000000 0x1000)"]
    by (simp add: ready_def translate_packet_def ack_frame_def start_payload_def)
qed simp_all

text \<open>Sending a block over SPI writes the header and the block in one piece; the call returns 0
  exactly when the reply's type is ACK or 0 and -1 otherwise, and consumes the six reply bytes.\<close>

theorem send_data_spi:
  assumes "0 < n" and "n + 8 \<le> length buffer" and "ready c (n + 8) reply" and "length reply = 6"
  shows "\<exists>b' c'. send_data_message buffer n BSL_SPI_PACKET sb c = Some (if acked reply then 0 else -1, b', sb, c') \<and>
     drop 8 b' = drop 8 buffer \<and> rx c' = drop 6 (rx c) \<and>
     tx c' = tx c @ spi_header (word_of_nat n) BSL_CMD_MIDST_DATA (take n (drop 8 buffer)) @ take n (drop 8 buffer)"
  unfolding BSL_SPI_PACKET_def using send_data_spi_lemma [OF assms, of sb] by auto

theorem send_data_spi_witness:
  "\<exists>b' c'. send_data_message (replicate 20 9) 12 BSL_SPI_PACKET []
       \<lparr>rx = [0, 0x81, 0, 0, 0, 0], tx = [], rd_sched = [2, 4], wr_sched = [20]\<rparr> =
         Some (if acked [0, 0x81, 0, 0, 0, 0] then 0 else -1, b', [], c') \<and>
     drop 8 b' = drop 8 (replicate 20 9) \<and>
     rx c' = drop 6 (rx \<lparr>rx = [0, 0x81, 0, 0, 0, 0], tx = [], rd_sched = [2, 4], wr_sched = [20]\<rparr>) \<and>
     tx c' = tx \<lparr>rx = [0, 0x81, 0, 0, 0, 0], tx = [], rd_sched = [2, 4], wr_sched = [20]\<rparr> @
       spi_header (word_of_nat 12) BSL_CMD_MIDST_DATA (take 12 (drop 8 (replicate 20 9))) @ take 12 (drop 8 (replicate 20 9))"
  by (rule send_data_spi) (simp_all add: ready_def)

text \<open>C35: The reply loop reassembles the reply: when it returns, the buffer holds the next bytes of
  the input at the offset and nothing else changed; and it does return once the schedule delivers
  enough bytes, whatever short reads and errors come in between.\<close>

theorem read_loop_reassembles:
  assumes "0 < n" and "n \<le> sum_list (map nat (rd_sched c))" and "n \<le> length (rx c)"
    and "off + n \<le> length raw"
  shows "\<exists>rv c'. read_loop raw off n c =
       Some (rv, take off raw @ take n (rx c) @ drop (off + n) raw, off + n, c') \<and> 0 < rv \<and>
     rx c' = drop n (rx c) \<and> tx c' = tx c"
proof -
  obtain rv raw' off' c' where r: "read_loop raw off n c = Some (rv, raw', off', c')"
    using read_loop_returns [OF assms] by (metis prod_cases4)
  show ?thesis using read_loop_result [OF r assms(1)] r by auto
qed

theorem read_loop_reassembles_witness:
  "\<exists>rv c'. read_loop (replicate 8 0) 1 6 \<lparr>rx = [1, 2, 3, 4, 5, 6, 7], tx = [], rd_sched = [4, -1, 0, 4], wr_sched = []\<rparr> =
       Some (rv, take 1 (replicate 8 0) @ take 6 (rx \<lparr>rx = [1, 2, 3, 4, 5, 6, 7], tx = [], rd_sched = [4, -1, 0, 4], wr_sched = []\<rparr>) @ drop (1 + 6) (replicate 8 0), 1 + 6, c') \<and> 0 < rv \<and>
     rx c' = drop 6 (rx \<lparr>rx = [1, 2, 3, 4, 5, 6, 7], tx = [], rd_sched = [4, -1, 0, 4], wr_sched = []\<rparr>) \<and>
     tx c' = tx \<lparr>rx = [1, 2, 3, 4, 5, 6, 7], tx = [], rd_sched = [4, -1, 0, 4], wr_sched = []\<rparr>"
  by (rule read_loop_reassembles) simp_all

text \<open>After a short write of \<open>a\<close> bytes the loop sends the first \<open>n - a\<close> bytes of the
  buffer again instead of the remaining ones.\<close>

theorem short_write_resends_start:
  assumes "wr_sched c = int a # w # ws" and "0 < a" and "a < n" and "int (n - a) \<le> w" and "n \<le> length sb"
  shows "write_loop sb n c =
    Some (int (n - a), c\<lparr>wr_sched := ws, tx := tx c @ take a sb @ take (n - a) sb\<rparr>)"
  using assms by (rule write_loop_short)

theorem short_write_resends_start_witness:
  "write_loop [1, 2, 3] 3 \<lparr>rx = [], tx = [], rd_sched = [], wr_sched = [int 2, 1]\<rparr> =
    Some (int (3 - 2), \<lparr>rx = [], tx = [], rd_sched = [], wr_sched = [int 2, 1]\<rparr>\<lparr>wr_sched := [],
      tx := tx \<lparr>rx = [], tx = [], rd_sched = [], wr_sched = [int 2, 1]\<rparr> @ take 2 [1, 2, 3] @ take (3 - 2) [1, 2, 3]\<rparr>)"
  by (rule short_write_resends_start [where w = 1]) simp_all

end
