(* ===== verification/C_Text.thy ===== *)
theory C_Text
  imports Sprd_Prelude
begin

text \<open>
  Character strings and the conversions of the C library that the programs use: character
  classes, hexadecimal and decimal digits, \<open>strtol\<close> and \<open>atoi\<close> with a 32 bit \<open>long\<close>.
\<close>

definition isspace :: "char \<Rightarrow> bool" where
  "isspace c \<longleftrightarrow> c \<in> {CHR 0x20, CHR 0x09, CHR 0x0A, CHR 0x0B, CHR 0x0C, CHR 0x0D}"

definition hex_digit :: "char \<Rightarrow> nat option" where
  "hex_digit c =
     (let n = of_char c :: nat
      in if 48 \<le> n \<and> n \<le> 57 then Some (n - 48)
         else if 97 \<le> n \<and> n \<le> 102 then Some (n - 87)
         else if 65 \<le> n \<and> n \<le> 70 then Some (n - 55)
         else None)"

fun hex_value :: "nat \<Rightarrow> string \<Rightarrow> nat" where
  "hex_value acc [] = acc"
| "hex_value acc (c # s) =
     (case hex_digit c of None \<Rightarrow> acc | Some d \<Rightarrow> hex_value (16 * acc + d) s)"

text \<open>A prefix \<open>0x\<close> is skipped when a digit follows it.\<close>

definition skip_0x :: "string \<Rightarrow> string" where
  "skip_0x s = (case s of
       a # b # c # r \<Rightarrow> if a = CHR ''0'' \<and> b \<in> {CHR ''x'', CHR ''X''} \<and> hex_digit c \<noteq> None
                        then c # r else s
     | _ \<Rightarrow> s)"

definition isdigit :: "char \<Rightarrow> bool" where
  "isdigit c \<longleftrightarrow> 48 \<le> (of_char c :: nat) \<and> (of_char c :: nat) \<le> 57"

fun dec_value :: "nat \<Rightarrow> string \<Rightarrow> nat" where
  "dec_value acc [] = acc"
| "dec_value acc (c # s) = (if isdigit c then dec_value (10 * acc + (of_char c - 48)) s else acc)"

definition cstr :: "string \<Rightarrow> string" where
  "cstr s = takeWhile (\<lambda>c. c \<noteq> CHR 0x00) s"

text \<open>\<open>strtol\<close> skips white space and takes a sign; the value is cut off at the limits of \<open>long\<close>.
  A string without digits gives 0.\<close>

definition clamp_long :: "int \<Rightarrow> int" where
  "clamp_long v = max (- (2 ^ 31)) (min (2 ^ 31 - 1) v)"

definition signed_part :: "string \<Rightarrow> bool \<times> string" where
  "signed_part s =
     (let t = dropWhile isspace s
      in (t \<noteq> [] \<and> hd t = CHR ''-'', if t \<noteq> [] \<and> hd t \<in> {CHR ''-'', CHR ''+''} then tl t else t))"

definition strtol16 :: "string \<Rightarrow> int" where
  "strtol16 s = (let (neg, t) = signed_part s; v = int (hex_value 0 (skip_0x t))
                 in clamp_long (if neg then - v else v))"

definition atoi :: "string \<Rightarrow> int" where
  "atoi s = (let (neg, t) = signed_part s; v = int (dec_value 0 t)
             in clamp_long (if neg then - v else v))"

end
