(* ===== verification/Mc_Boot.thy ===== *)
theory Mc_Boot
  imports Mc_Packet C_Text "HOL-Library.Signed_Division"
begin

unbundle bit_operations_syntax

text \<open>
  \<open>apps/modem_control/modem_boot.c\<close>: booting the modem. The list of images comes from
  \<open>/modem_images.info\<close> (\<open>get_modem_images_info\<close>), where each image has a backup that takes
  its place when its checksum fails; the first image, a small loader, goes over the UART in
  packets of 256 bytes (\<open>download_fdl\<close>), the others over SPI in packets of 32 KiB
  (\<open>download_images\<close>).

  The file system is the parameter \<open>fs\<close>: what opening a path for reading gives, \<open>None\<close> when
  the call fails. The global variables of the file are the record \<open>boot_state\<close>.
  Undefined behaviour (a write outside an array, an indeterminate value) is \<open>None\<close>.
\<close>

section \<open>State\<close>

record image_info =
  image_path :: "string option"
  image_path_bak :: "string option"
  image_size :: u32
  address :: u32

record boot_state =
  download_image_info :: "image_info list"
  modem_images_count :: nat
  uart_dev :: string
  fdl_cp_poweron_delay :: u32
  need_shutdown :: bool
  modem_power :: "string list"
  test_buffer :: bytes
  send_buffer :: bytes

definition FDL_PACKET_SIZE :: nat where "FDL_PACKET_SIZE = 256"
definition HS_PACKET_SIZE :: nat where "HS_PACKET_SIZE = 32768"
definition DL_FAILURE :: int where "DL_FAILURE = -1"
definition DL_SUCCESS :: int where "DL_SUCCESS = 0"

definition null_image :: image_info where
  "null_image = \<lparr>image_path = None, image_path_bak = None, image_size = 0, address = 0\<rparr>"

definition image_entry :: "string \<Rightarrow> u32 \<Rightarrow> u32 \<Rightarrow> image_info" where
  "image_entry path n a =
     \<lparr>image_path = Some path, image_path_bak = Some path, image_size = n, address = a\<rparr>"

definition initial_image_info :: "image_info list" where
  "initial_image_info =
     [image_entry ''/dev/block/platform/sprd-sdhci.3/by-name/tddsp'' 0x3400 0x20000000,
      image_entry ''/dev/block/platform/sprd-sdhci.3/by-name/tdmodem'' 0x590c00 0x80400000,
      image_entry ''/dev/block/platform/sprd-sdhci.3/by-name/tdfixnv1'' 0x28000 0x809B0000,
      image_entry ''/proc/cmdline'' 0x400 0x80A10000,
      image_entry ''/dev/block/platform/sprd-sdhci.3/by-name/wcnmodem'' 0x790000 0x81F00000,
      image_entry ''/dev/block/platform/sprd-sdhci.3/by-name/wcnfixnv1'' 0x28000 0x82690000,
      image_entry ''/proc/cmdline'' 0x400 0x826F0000,
      null_image]"

definition boot_init :: boot_state where
  "boot_init =
     \<lparr>download_image_info = initial_image_info, modem_images_count = 7,
      uart_dev = ''/dev/ttyS1'', fdl_cp_poweron_delay = 180000, need_shutdown = False,
      modem_power = [], test_buffer = replicate (HS_PACKET_SIZE + 128) 0, send_buffer = replicate 4000 0\<rparr>"

section \<open>The C library calls of the parser\<close>

text \<open>\<open>fgets\<close> with a buffer of \<open>n + 1\<close> characters: at most \<open>n\<close> characters, through the first
  newline.\<close>

fun fgets :: "nat \<Rightarrow> string \<Rightarrow> string \<times> string" where
  "fgets 0 s = ([], s)"
| "fgets (Suc n) [] = ([], [])"
| "fgets (Suc n) (c # s) =
     (if c = CHR 0x0A then ([c], s) else (let (l, r) = fgets n s in (c # l, r)))"

text \<open>The conversion \<open>%s\<close>: the word and the rest of the line, nothing at the end of the line.\<close>

definition scan_s :: "string \<Rightarrow> (string \<times> string) option" where
  "scan_s s = (let t = dropWhile isspace s
               in if t = [] then None
                  else Some (takeWhile (\<lambda>c. \<not> isspace c) t, dropWhile (\<lambda>c. \<not> isspace c) t))"

text \<open>The conversion \<open>%x\<close>: an optional sign and prefix, then hexadecimal digits; the value is
  that of a 64 bit \<open>strtoumax\<close> cut to 32 bits. A lone prefix \<open>0x\<close> reads as 0.\<close>

definition scan_x :: "string \<Rightarrow> (u32 \<times> string) option" where
  "scan_x s =
     (let t = dropWhile isspace s;
          neg = (t \<noteq> [] \<and> hd t = CHR ''-'');
          t = (if t \<noteq> [] \<and> hd t \<in> {CHR ''-'', CHR ''+''} then tl t else t);
          t = skip_0x t;
          r = dropWhile (\<lambda>c. hex_digit c \<noteq> None) t;
          v = word_of_nat (min (hex_value 0 t) (2 ^ 64 - 1))
      in if t = [] \<or> hex_digit (hd t) = None then None else Some (if neg then - v else v, r))"

section \<open>Reading the list of images\<close>

text \<open>The variables of the parse loop: the table with the fill level, the two path buffers
  (indeterminate until first written) and the two global settings.\<close>

record parse_state =
  tbl :: "image_info list"
  cnt :: nat
  dev :: string
  delay :: u32
  originPath :: "string option"
  bakPath :: "string option"

definition max_item :: nat where "max_item = 7"

text \<open>\<open>sscanf(line,"%s %s %x %x",...)\<close>: every conversion that succeeds is stored, the first
  that fails ends the scan. The result is False for the return value -1, which means that
  the line ended before the first conversion.\<close>

definition scan_line :: "string \<Rightarrow> parse_state \<Rightarrow> (bool \<times> parse_state) option" where
  "scan_line line p =
     (case scan_s line of
        None \<Rightarrow> Some (False, p)
      | Some (a, r) \<Rightarrow> if length a \<ge> 100 then None else
          (let p = p\<lparr>originPath := Some a\<rparr>
           in case scan_s r of
                None \<Rightarrow> Some (True, p)
              | Some (b, r) \<Rightarrow> if length b \<ge> 100 then None else
                  (let p = p\<lparr>bakPath := Some b\<rparr>
                   in case scan_x r of
                        None \<Rightarrow> Some (True, p)
                      | Some (n, r) \<Rightarrow>
                          (let p = p\<lparr>tbl := (tbl p)[cnt p := (tbl p ! cnt p)\<lparr>image_size := n\<rparr>]\<rparr>
                           in case scan_x r of
                                None \<Rightarrow> Some (True, p)
                              | Some (x, r) \<Rightarrow>
                                  Some (True, p\<lparr>tbl := (tbl p)[cnt p := (tbl p ! cnt p)\<lparr>address := x\<rparr>]\<rparr>)))))"

definition store_paths :: "parse_state \<Rightarrow> parse_state option" where
  "store_paths p =
     do { a \<leftarrow> originPath p;
          b \<leftarrow> bakPath p;
          Some (p\<lparr>tbl := (tbl p)[cnt p := (tbl p ! cnt p)\<lparr>image_path := Some a, image_path_bak := Some b\<rparr>]\<rparr>) }"

text \<open>An entry without size or address names the UART device, and its size, if any, the power-on
  delay; it does not count, so the next line overwrites it.\<close>

definition count_entry :: "parse_state \<Rightarrow> parse_state" where
  "count_entry p =
     (let e = tbl p ! cnt p
      in if address e = 0 \<or> image_size e = 0
         then p\<lparr>dev := the (image_path e),
                delay := (if image_size e \<noteq> 0 then image_size e else delay p)\<rparr>
         else p\<lparr>cnt := Suc (cnt p)\<rparr>)"

definition parse_line :: "string \<Rightarrow> parse_state \<Rightarrow> parse_state option" where
  "parse_line line p =
     (let l = takeWhile (\<lambda>c. c \<noteq> CHR 0x00) line
      in if l = [] then None
         else let l = butlast l
              in if l = [] \<or> hd l = CHR ''#'' then Some p
                 else do { (ok, p) \<leftarrow> scan_line l p;
                           (if \<not> ok then Some p
                            else do { p \<leftarrow> store_paths p; Some (count_entry p) }) })"

text \<open>The loop ends at the end of the file or when the table is full.\<close>

lemma fgets_append: "fst (fgets n s) @ snd (fgets n s) = s"
  by (induction n s rule: fgets.induct) (auto split: prod.splits)

lemma fgets_nonempty: "n \<noteq> 0 \<Longrightarrow> s \<noteq> [] \<Longrightarrow> fst (fgets n s) \<noteq> []"
  by (cases n; cases s) (auto split: prod.splits)

lemma fgets_shorter:
  assumes "n \<noteq> 0" and "s \<noteq> []"
  shows "length (snd (fgets n s)) < length s"
  using arg_cong [OF fgets_append [of n s], of length] fgets_nonempty [OF assms]
  by (cases "fst (fgets n s)") simp_all

function parse_loop :: "string \<Rightarrow> parse_state \<Rightarrow> parse_state option" where
  "parse_loop s p =
     (if s = [] then Some p
      else do { q \<leftarrow> parse_line (fst (fgets 511 s)) p;
                (if max_item \<le> cnt q then Some q else parse_loop (snd (fgets 511 s)) q) })"
  by pat_completeness auto
termination
  by (relation "measure (\<lambda>(s, p). length s)") (auto intro: fgets_shorter)

declare parse_loop.simps [simp del]

section \<open>Checking an image\<close>

text \<open>The stored checksum is the little endian half word at \<open>size - 4\<close>; a buffer of less than
  four bytes is read outside its bounds. The buffer comes from \<open>malloc\<close> and is aligned.\<close>

definition chkEcc :: "bytes \<Rightarrow> bool option" where
  "chkEcc buf =
     (if length buf < 4 then None
      else do { crc \<leftarrow> mb_calc_checksum True (take (length buf - 4) buf);
                Some (crc = le16 (buf ! (length buf - 4)) (buf ! (length buf - 3))) })"

text \<open>The size is an \<open>int\<close>: from \<open>0x80000000\<close> on it is negative and the allocation fails.
  Below that the allocation is taken to succeed.\<close>

definition chkImg :: "(string \<Rightarrow> chan option) \<Rightarrow> string \<Rightarrow> u32 \<Rightarrow> bool option" where
  "chkImg fs fileName n =
     (if 0x80000000 \<le> n then None
      else case fs fileName of
        None \<Rightarrow> Some False
      | Some f \<Rightarrow>
          do { (ret, d, f') \<leftarrow> sys_read (unat n) f;
               (if ret \<noteq> int (unat n) then Some False else chkEcc d) })"

text \<open>The second phase. \<open>strcpy\<close> writes the backup's path over the string that \<open>strdup\<close> made
  for the original path, so it needs the backup's path to be no longer.\<close>

definition check_entry :: "(string \<Rightarrow> chan option) \<Rightarrow> image_info \<Rightarrow> image_info option" where
  "check_entry fs e =
     do { a \<leftarrow> image_path e;
          b \<leftarrow> image_path_bak e;
          (if a = b then Some e
           else do { good \<leftarrow> chkImg fs a (image_size e);
                     (if good then Some e
                      else do { good_bak \<leftarrow> chkImg fs b (image_size e);
                                (if \<not> good_bak then Some e
                                 else if length b \<le> length a then Some (e\<lparr>image_path := Some b\<rparr>)
                                 else None) }) }) }"

fun check_entries :: "(string \<Rightarrow> chan option) \<Rightarrow> nat \<Rightarrow> image_info list \<Rightarrow> image_info list option" where
  "check_entries fs (Suc n) (e # es) =
     do { e \<leftarrow> check_entry fs e; es \<leftarrow> check_entries fs n es; Some (e # es) }"
| "check_entries fs 0 es = Some es"
| "check_entries fs (Suc n) [] = None"

definition get_modem_images_info ::
  "(string \<Rightarrow> chan option) \<Rightarrow> string option \<Rightarrow> boot_state \<Rightarrow> (nat \<times> boot_state) option" where
  "get_modem_images_info fs conf st =
     (case conf of
        None \<Rightarrow> Some (0, st)
      | Some text \<Rightarrow>
          do { p \<leftarrow> parse_loop text
                 \<lparr>tbl = replicate (length (download_image_info st)) null_image, cnt = 0,
                  dev = uart_dev st, delay = fdl_cp_poweron_delay st,
                  originPath = None, bakPath = None\<rparr>;
               es \<leftarrow> check_entries fs (cnt p) ((tbl p)[cnt p := null_image]);
               Some (cnt p, st\<lparr>download_image_info := es, modem_images_count := cnt p,
                               uart_dev := dev p, fdl_cp_poweron_delay := delay p\<rparr>) })"

section \<open>Downloading over SPI\<close>

text \<open>The loop that fills \<open>test_buffer\<close> from the image file, until the packet is full or a read
  gives nothing.\<close>

function fill_loop :: "bytes \<Rightarrow> nat \<Rightarrow> nat \<Rightarrow> chan \<Rightarrow> (bytes \<times> chan) option" where
  "fill_loop buf off packet_size f =
     (case sys_read packet_size f of
        None \<Rightarrow> None
      | Some (read_len, d, f') \<Rightarrow>
          (if read_len > 0
           then (case buf_write off d buf of
                   None \<Rightarrow> None
                 | Some buf' \<Rightarrow>
                     (if packet_size - nat read_len > 0
                      then fill_loop buf' (off + nat read_len) (packet_size - nat read_len) f'
                      else Some (buf', f')))
           else Some (buf, f')))"
  by pat_completeness auto
termination
  by (relation "measure (\<lambda>(b, k, n, f). length (rd_sched f))") (auto dest: sys_read_sched)

declare fill_loop.simps [simp del]

text \<open>\<open>for(i=image_size;i<HS_PACKET_SIZE;i++) test_buffer[i+8] = 0xFF;\<close>\<close>

definition pad_block :: "int \<Rightarrow> bytes \<Rightarrow> bytes option" where
  "pad_block n buf =
     (if n < 0 then None
      else buf_write (8 + nat n) (replicate (HS_PACKET_SIZE - nat n) 0xFF) buf)"

text \<open>
  The block loop of \<open>download_image\<close>. The padding loop reuses the variable \<open>i\<close>, which is
  \<open>HS_PACKET_SIZE\<close> after it. The \<open>continue\<close> that follows the call of \<open>send_data_message\<close>
  discards its result.
\<close>

function block_loop ::
  "int \<Rightarrow> int \<Rightarrow> int \<Rightarrow> bytes \<Rightarrow> chan \<Rightarrow> bytes \<Rightarrow> chan \<Rightarrow> (bytes \<times> chan \<times> bytes \<times> chan) option" where
  "block_loop count i isz buf f sb c =
     (if i < count
      then do { (buf, f) \<leftarrow> fill_loop buf 8 HS_PACKET_SIZE f;
                (buf, i, isz) \<leftarrow>
                  (if isz < int HS_PACKET_SIZE
                   then do { buf \<leftarrow> pad_block isz buf; Some (buf, int HS_PACKET_SIZE, 0) }
                   else Some (buf, i, isz - int HS_PACKET_SIZE));
                (ret, buf, sb, c) \<leftarrow> send_data_message buf HS_PACKET_SIZE 1 sb c;
                block_loop count (i + 1) isz buf f sb c }
      else Some (buf, f, sb, c))"
  by pat_completeness auto
termination
  by (relation "measure (\<lambda>(n, i, k, b, f, sb, c). length (wr_sched c))") (auto dest: send_data_sched simp del: One_nat_def)

declare block_loop.simps [simp del]

text \<open>\<open>count = (image_size+HS_PACKET_SIZE-1)/HS_PACKET_SIZE\<close> in \<open>int\<close>, whose addition must not
  overflow.\<close>

definition block_count :: "u32 \<Rightarrow> int option" where
  "block_count n =
     (let s = sint n + int HS_PACKET_SIZE - 1
      in if s \<ge> 2 ^ 31 then None else Some (s sdiv int HS_PACKET_SIZE))"

definition download_image ::
  "(string \<Rightarrow> chan option) \<Rightarrow> image_info \<Rightarrow> boot_state \<Rightarrow> chan \<Rightarrow> (int \<times> boot_state \<times> chan) option" where
  "download_image fs info st c =
     (case image_path info of
        None \<Rightarrow> Some (DL_SUCCESS, st, c)
      | Some path \<Rightarrow>
          (case fs path of
             None \<Rightarrow> Some (DL_SUCCESS, st, c)
           | Some f \<Rightarrow>
               do { count \<leftarrow> block_count (image_size info);
                    (ret, sb, c) \<leftarrow> send_start_message (word_of_int (count * int HS_PACKET_SIZE))
                                       (address info) 1 (send_buffer st) c;
                    (if ret \<noteq> DL_SUCCESS then Some (DL_FAILURE, st\<lparr>send_buffer := sb\<rparr>, c)
                     else do { (buf, f, sb, c) \<leftarrow>
                                 block_loop count 0 (sint (image_size info)) (test_buffer st) f sb c;
                               (ret, sb, c) \<leftarrow> send_end_message 1 sb c;
                               Some (ret, st\<lparr>test_buffer := buf, send_buffer := sb\<rparr>, c) }) }))"

text \<open>The loop over the images stops at the first failure; \<open>ret\<close> is indeterminate (\<open>None\<close>)
  when there is none.\<close>

fun images_loop ::
  "(string \<Rightarrow> chan option) \<Rightarrow> nat \<Rightarrow> nat \<Rightarrow> int option \<Rightarrow> boot_state \<Rightarrow> chan
     \<Rightarrow> (int option \<times> boot_state \<times> chan) option" where
  "images_loop fs 0 k ret st c = Some (ret, st, c)"
| "images_loop fs (Suc n) k ret st c =
     (if k < length (download_image_info st)
      then do { (r, st, c) \<leftarrow> download_image fs (download_image_info st ! k) st c;
                (if r \<noteq> DL_SUCCESS then Some (Some r, st, c)
                 else images_loop fs n (Suc k) (Some r) st c) }
      else None)"

definition download_images ::
  "(string \<Rightarrow> chan option) \<Rightarrow> boot_state \<Rightarrow> chan \<Rightarrow> (int \<times> boot_state \<times> chan) option" where
  "download_images fs st c =
     do { (ret, st, c) \<leftarrow> images_loop fs (modem_images_count st - 1) 1 None st c;
          (e, sb, c) \<leftarrow> send_exec_message 0x80400000 1 (send_buffer st) c;
          r \<leftarrow> ret;
          Some (r, st\<lparr>send_buffer := sb\<rparr>, c) }"

section \<open>Downloading the loader over the UART\<close>

text \<open>The read loop of \<open>load_fdl2memory\<close> goes on after end of file and errors alike. The buffer
  has four bytes more than the image; their contents \<open>junk\<close> are whatever \<open>malloc\<close> left. The size is
  an \<open>int\<close>: when it is negative and still is with the four added, the allocation of more than 2 GiB
  fails and the function returns no buffer; when the addition overflows, or leads from a negative
  size to a small buffer that is then overrun, the behaviour is undefined.\<close>

function load_loop :: "bytes \<Rightarrow> nat \<Rightarrow> chan \<Rightarrow> bytes option" where
  "load_loop acc n f =
     (case sys_read n f of
        None \<Rightarrow> None
      | Some (read_len, d, f') \<Rightarrow>
          (let n' = (if read_len > 0 then n - nat read_len else n)
           in if n' > 0 then load_loop (acc @ d) n' f' else Some (acc @ d)))"
  by pat_completeness auto
termination
  by (relation "measure (\<lambda>(a, n, f). length (rd_sched f))") (auto dest: sys_read_sched)

declare load_loop.simps [simp del]

definition load_fdl2memory ::
  "(string \<Rightarrow> chan option) \<Rightarrow> bytes \<Rightarrow> image_info \<Rightarrow> bytes option option" where
  "load_fdl2memory fs junk info =
     (case Option.bind (image_path info) fs of
        None \<Rightarrow> Some None
      | Some f \<Rightarrow>
          (if 0x80000000 \<le> image_size info \<and> image_size info < 0xFFFFFFFC then Some None
           else if 0x7FFFFFFC \<le> image_size info then None
           else do { d \<leftarrow> load_loop [] (unat (image_size info)) f;
                     Some (Some (d @ take 4 junk)) }))"

text \<open>\<open>while(size)\<close> with steps of 256: each round reads 256 bytes at the advancing pointer.\<close>

function fdl_loop :: "int \<Rightarrow> bytes \<Rightarrow> bytes \<Rightarrow> chan \<Rightarrow> (int \<times> bytes \<times> chan) option" where
  "fdl_loop n buffer sb c =
     (if n = 0 then Some (DL_SUCCESS, sb, c)
      else do { (ret, b, sb, c) \<leftarrow> send_data_message buffer FDL_PACKET_SIZE 0 sb c;
                (if ret = DL_FAILURE then Some (ret, sb, c)
                 else fdl_loop (n - int FDL_PACKET_SIZE) (drop FDL_PACKET_SIZE buffer) sb c) })"
  by pat_completeness auto
termination
  by (relation "measure (\<lambda>(n, b, sb, c). length b)")
     (auto dest: send_data_uart_size simp: FDL_PACKET_SIZE_def)

declare fdl_loop.simps [simp del]

definition download_fdl ::
  "(string \<Rightarrow> chan option) \<Rightarrow> bytes \<Rightarrow> boot_state \<Rightarrow> chan \<Rightarrow> (int \<times> boot_state \<times> chan) option" where
  "download_fdl fs junk st c =
     (let info = hd (download_image_info st)
      in do { buffer \<leftarrow> load_fdl2memory fs junk info;
              (case buffer of
                 None \<Rightarrow> Some (DL_FAILURE, st, c)
               | Some buffer \<Rightarrow>
                   do { (ret, sb, c) \<leftarrow> send_start_message (image_size info) (address info) 0 (send_buffer st) c;
                        (if ret = DL_FAILURE then Some (ret, st\<lparr>send_buffer := sb\<rparr>, c)
                         else do { (ret, sb, c) \<leftarrow> fdl_loop (sint (image_size info)) buffer sb c;
                                   (if ret = DL_FAILURE then Some (ret, st\<lparr>send_buffer := sb\<rparr>, c)
                                    else do { (ret, sb, c) \<leftarrow> send_end_message 0 sb c;
                                              (if ret = DL_FAILURE then Some (ret, st\<lparr>send_buffer := sb\<rparr>, c)
                                               else do { (ret, sb, c) \<leftarrow> send_exec_message (address info) 0 sb c;
                                                         Some (ret, st\<lparr>send_buffer := sb\<rparr>, c) }) }) }) }) })"

section \<open>Connecting and booting\<close>

text \<open>\<open>reset_modem\<close> writes to the power switch, here the list \<open>modem_power\<close>; from the second
  reset on the modem is switched off first.\<close>

definition reset_modem :: "bool \<Rightarrow> boot_state \<Rightarrow> boot_state" where
  "reset_modem opened st =
     (if \<not> opened then st
      else st\<lparr>modem_power := modem_power st @ (if need_shutdown st then [''0''] else []) @ [''1''],
              need_shutdown := True\<rparr>)"

text \<open>
  The wait for the version string. The inner loop reads one byte at a time into
  \<open>version_string\<close>, of which \<open>n\<close> bytes are filled, until a second flag byte arrives
  (\<open>modem_connect = 1\<close>), the buffer of 64 bytes is full, or too many reads failed. The counter
  \<open>modem_connect\<close> is unbounded here; the \<open>int\<close> of the source would have to count some 50 million
  attempts to overflow.
\<close>

function version_loop :: "int \<Rightarrow> nat \<Rightarrow> chan \<Rightarrow> (int \<times> chan) option" where
  "version_loop modem_connect n c =
     (case sys_read 1 c of
        None \<Rightarrow> None
      | Some (ret, d, c') \<Rightarrow>
          (if ret = 1
           then (if d = [0x7E] then Some (1, c')
                 else if Suc n \<ge> 64 then Some (modem_connect, c')
                 else if modem_connect < 200 then version_loop modem_connect (Suc n) c'
                 else Some (modem_connect, c'))
           else if modem_connect + 2 < 200 then version_loop (modem_connect + 2) n c'
                else Some (modem_connect + 2, c')))"
  by pat_completeness auto
termination
  by (relation "measure (\<lambda>(m, n, c). length (rd_sched c))") (auto dest: sys_read_sched)

declare version_loop.simps [simp del]

definition hand_shake :: bytes where "hand_shake = [0x7E, 0x7E, 0x7E]"

text \<open>One round of the outer loop: send the hand shake, look at the first byte that comes back.\<close>

definition connect_round :: "int \<Rightarrow> chan \<Rightarrow> (int \<times> chan) option" where
  "connect_round modem_connect c =
     do { (w, c) \<leftarrow> sys_write hand_shake c;
          (ret, d, c) \<leftarrow> sys_read 1 c;
          (if ret = 1
           then (if d = [0x7E] then version_loop 0 1 c
                 else if d = [0x55] then do { (w, c) \<leftarrow> sys_write hand_shake c;
                                              Some (modem_connect + 42, c) }
                 else Some (modem_connect + 2, c))
           else Some (modem_connect, c)) }"

lemma version_loop_sched:
  "version_loop m n c = Some (m', c') \<Longrightarrow> wr_sched c' = wr_sched c"
proof (induction m n c arbitrary: m' c' rule: version_loop.induct)
  case (1 m n c)
  obtain r d c1 where rd: "sys_read 1 c = Some (r, d, c1)"
    using "1.prems" by (subst (asm) version_loop.simps) (auto split: option.splits)
  have e: "(if r = 1
       then if d = [0x7E] then Some (1, c1) else if Suc n \<ge> 64 then Some (m, c1)
            else if m < 200 then version_loop m (Suc n) c1 else Some (m, c1)
       else if m + 2 < 200 then version_loop (m + 2) n c1 else Some (m + 2, c1)) = Some (m', c')"
    using "1.prems" rd by (subst (asm) version_loop.simps) simp
  have "wr_sched c' = wr_sched c1"
    using e "1.IH" [OF rd refl refl] by (simp split: if_splits)
  then show ?case using sys_read_props(5) [OF rd] by simp
qed

lemma connect_round_sched:
  "connect_round m c = Some (m', c') \<Longrightarrow> length (wr_sched c') < length (wr_sched c)"
  by (auto simp: connect_round_def bind_eq_Some_conv split: if_splits
      dest!: sys_write_sched sys_read_props(5) version_loop_sched)

function connect_loop :: "int \<Rightarrow> chan \<Rightarrow> chan option" where
  "connect_loop modem_connect c =
     do { (m, c) \<leftarrow> connect_round modem_connect c;
          (if m = 1 then Some c else connect_loop (m + 2) c) }"
  by pat_completeness auto
termination
  by (relation "measure (\<lambda>(m, c). length (wr_sched c))") (auto dest: connect_round_sched)

declare connect_loop.simps [simp del]

definition try_to_connect_modem :: "chan \<Rightarrow> chan option" where
  "try_to_connect_modem c = connect_loop 0 c"

text \<open>\<open>do { try_to_connect_modem; ret = send_connect_message } while(ret < 0)\<close>; every round
  consumes outcomes of \<open>write\<close>.\<close>

lemma connect_loop_sched:
  "connect_loop m c = Some c' \<Longrightarrow> length (wr_sched c') < length (wr_sched c)"
proof (induction m c arbitrary: c' rule: connect_loop.induct)
  case (1 m c)
  obtain m1 c1 where r: "connect_round m c = Some (m1, c1)"
    and e: "(if m1 = 1 then Some c1 else connect_loop (m1 + 2) c1) = Some c'"
    using "1.prems" by (subst (asm) connect_loop.simps) (auto simp: bind_eq_Some_conv)
  show ?case
    using e "1.IH" [OF r refl] connect_round_sched [OF r] by (fastforce split: if_splits)
qed

lemma write_loop_sched:
  "write_loop sb n c = Some (r, c') \<Longrightarrow> length (wr_sched c') < length (wr_sched c)"
proof (induction sb n c arbitrary: r c' rule: write_loop.induct)
  case (1 sb n c)
  obtain rv c1 where w: "sys_write (take n sb) c = Some (rv, c1)"
    using "1.prems" by (subst (asm) write_loop.simps) (auto split: option.splits)
  let ?m = "if rv > 0 then n - nat rv else n"
  have e: "(if ?m > 0 then write_loop sb ?m c1 else Some (rv, c1)) = Some (r, c')"
    using "1.prems" w by (subst (asm) write_loop.simps) (simp add: Let_def)
  show ?case
  proof (cases "?m > 0")
    case True
    then have "write_loop sb ?m c1 = Some (r, c')" using e by presburger
    then show ?thesis using "1.IH" [OF w refl refl True] sys_write_sched [OF w] by (meson less_trans)
  next
    case False
    then have "c' = c1" using e by (metis old.prod.inject option.inject)
    then show ?thesis using sys_write_sched [OF w] by simp
  qed
qed

lemma exchange_uart_sched:
  assumes "exchange z 0 pkt len raw sb c = Some (ret, sb', c')"
  shows "length (wr_sched c') < length (wr_sched c)"
  using assms
  by (auto simp: exchange_def transmit_def bind_eq_Some_conv split: if_splits
      dest!: write_loop_sched read_loop_sched)

lemma send_connect_sched:
  "send_connect_message 0 sb c = Some (r, sb', c') \<Longrightarrow> length (wr_sched c') < length (wr_sched c)"
  by (auto simp: send_connect_message_def bind_eq_Some_conv simp del: setup_packet.simps dest: exchange_uart_sched)

function handshake_loop :: "bytes \<Rightarrow> chan \<Rightarrow> (bytes \<times> chan) option" where
  "handshake_loop sb c =
     do { c \<leftarrow> try_to_connect_modem c;
          (ret, sb, c) \<leftarrow> send_connect_message 0 sb c;
          (if ret < 0 then handshake_loop sb c else Some (sb, c)) }"
  by pat_completeness auto
termination
  by (relation "measure (\<lambda>(sb, c). length (wr_sched c))")
     (auto simp: try_to_connect_modem_def dest!: connect_loop_sched send_connect_sched)

declare handshake_loop.simps [simp del]

text \<open>
  \<open>modem_boot\<close>. The arguments \<open>uarts\<close> and \<open>dls\<close> are the outcomes of the calls of \<open>open\<close> on
  the UART and on the downloader device, in order; the loop around the downloader repeats
  until it opens. A failed download starts over (\<open>goto reboot_modem\<close>). The result has the
  downloader channel of the last attempt.
\<close>

fun open_dloader :: "chan option list \<Rightarrow> (chan \<times> chan option list) option" where
  "open_dloader [] = None"
| "open_dloader (None # ds) = open_dloader ds"
| "open_dloader (Some c # ds) = Some (c, ds)"

fun modem_boot ::
  "(string \<Rightarrow> chan option) \<Rightarrow> bytes \<Rightarrow> chan option list \<Rightarrow> chan option list \<Rightarrow> boot_state
     \<Rightarrow> (int \<times> boot_state \<times> chan option) option" where
  "modem_boot fs junk [] dls st = None"
| "modem_boot fs junk (None # us) dls st = Some (-1, st, None)"
| "modem_boot fs junk (Some c # us) dls st =
     do { (sb, c) \<leftarrow> handshake_loop (send_buffer st) c;
          (ret, st, c) \<leftarrow> download_fdl fs junk (st\<lparr>send_buffer := sb\<rparr>) c;
          (if ret = DL_FAILURE then modem_boot fs junk us dls st
           else do { c \<leftarrow> try_to_connect_modem c;
                     (case us of
                        [] \<Rightarrow> None
                      | None # us \<Rightarrow> Some (-1, st, None)
                      | Some u # us \<Rightarrow>
                          do { (r, sb, u) \<leftarrow> uart_send_change_spi_mode_message (send_buffer st) u;
                               (spi, dls) \<leftarrow> open_dloader dls;
                               (ret, st, spi) \<leftarrow> download_images fs (st\<lparr>send_buffer := sb\<rparr>) spi;
                               (if ret = DL_FAILURE then modem_boot fs junk us dls st
                                else Some (0, st, Some spi)) }) }) }"

declare modem_boot.simps [simp del]

lemma modem_boot_success:
  assumes "modem_boot fs junk us dls st = Some (0, st', d)"
  shows "\<exists>st0 c0 r c. download_images fs st0 c0 = Some (r, st', c) \<and> r \<noteq> DL_FAILURE \<and> d = Some c"
  using assms
proof (induction fs junk us dls st rule: modem_boot.induct)
  case (3 fs junk c us dls st)
  obtain sb1 c1 ret st1 c2 where 1: "handshake_loop (send_buffer st) c = Some (sb1, c1)"
    "download_fdl fs junk (st\<lparr>send_buffer := sb1\<rparr>) c1 = Some (ret, st1, c2)"
    using "3.prems" by (auto simp: modem_boot.simps bind_eq_Some_conv)
  show ?case
  proof (cases "ret = DL_FAILURE")
    case True
    then have "modem_boot fs junk us dls st1 = Some (0, st', d)"
      using "3.prems" 1 by (simp add: modem_boot.simps)
    then show ?thesis using "3.IH"(1) [OF 1(1) refl 1(2) refl refl True] by blast
  next
    case False
    obtain c3 u us1 where 2: "try_to_connect_modem c2 = Some c3" "us = Some u # us1"
      using "3.prems" 1 False by (auto simp: modem_boot.simps bind_eq_Some_conv split: list.splits option.splits)
    obtain r sb2 u2 spi dls1 ret2 st2 spi2 where 3: "uart_send_change_spi_mode_message (send_buffer st1) u = Some (r, sb2, u2)"
      "open_dloader dls = Some (spi, dls1)" "download_images fs (st1\<lparr>send_buffer := sb2\<rparr>) spi = Some (ret2, st2, spi2)"
      using "3.prems" 1 False 2 by (auto simp: modem_boot.simps bind_eq_Some_conv)
    show ?thesis
    proof (cases "ret2 = DL_FAILURE")
      case True
      then have "modem_boot fs junk us1 dls1 st2 = Some (0, st', d)"
        using "3.prems" 1 2 3 False by (simp add: modem_boot.simps)
      then show ?thesis
        using "3.IH"(2) [OF 1(1) refl 1(2) refl refl False 2(1,2) refl 3(1) refl refl 3(2) refl 3(3) refl refl True] by blast
    next
      case False2: False
      then have "d = Some spi2" "st' = st2" using "3.prems" 1 2 3 False by (simp_all add: modem_boot.simps)
      then show ?thesis using 3(3) False2 by blast
    qed
  qed
qed (simp_all add: modem_boot.simps)

section \<open>The image table\<close>

definition entry_ok :: "image_info \<Rightarrow> bool" where
  "entry_ok e \<longleftrightarrow> image_path e \<noteq> None \<and> image_path_bak e \<noteq> None \<and> image_size e \<noteq> 0 \<and> address e \<noteq> 0"

definition parse_inv :: "nat \<Rightarrow> parse_state \<Rightarrow> bool" where
  "parse_inv k p \<longleftrightarrow> length (tbl p) = max_item + 1 \<and> cnt p \<le> k \<and> (\<forall>i < cnt p. entry_ok (tbl p ! i))"

lemma parse_inv_update:
  "parse_inv k p \<Longrightarrow> parse_inv k (p\<lparr>tbl := (tbl p)[cnt p := e]\<rparr>)"
  by (auto simp: parse_inv_def)

lemma parse_inv_fields [simp]:
  "parse_inv k (p\<lparr>originPath := a\<rparr>) = parse_inv k p"
  "parse_inv k (p\<lparr>bakPath := a\<rparr>) = parse_inv k p"
  "parse_inv k (p\<lparr>dev := b, delay := d\<rparr>) = parse_inv k p"
  by (simp_all add: parse_inv_def)

lemma scan_line_inv:
  assumes "scan_line l p = Some (ok, q)" and "parse_inv k p"
  shows "parse_inv k q \<and> cnt q = cnt p"
  using assms parse_inv_update [of k "p\<lparr>originPath := a, bakPath := b\<rparr>" for a b]
    parse_inv_update [of k "p\<lparr>originPath := a, bakPath := b, tbl := t\<rparr>" for a b t]
  by (auto simp: scan_line_def Let_def parse_inv_def split: option.splits if_splits prod.splits)

lemma store_paths_inv:
  assumes "store_paths p = Some q" and "parse_inv max_item p"
  shows "parse_inv max_item q \<and> cnt q = cnt p \<and> image_path (tbl q ! cnt q) \<noteq> None \<and> image_path_bak (tbl q ! cnt q) \<noteq> None"
  using assms by (auto simp: store_paths_def bind_eq_Some_conv parse_inv_def max_item_def)

lemma count_entry_inv:
  assumes "parse_inv max_item p" "cnt p < max_item" "image_path (tbl p ! cnt p) \<noteq> None" "image_path_bak (tbl p ! cnt p) \<noteq> None"
  shows "parse_inv max_item (count_entry p)"
  using assms by (auto simp: count_entry_def Let_def parse_inv_def entry_ok_def less_Suc_eq)

lemma parse_line_inv:
  assumes "parse_line l p = Some q" and "parse_inv max_item p" and "cnt p < max_item"
  shows "parse_inv max_item q"
proof -
  let ?l = "butlast (takeWhile (\<lambda>c. c \<noteq> CHR 0x00) l)"
  show ?thesis
  proof (cases "q = p")
    case False
    then obtain ok p1 where s: "scan_line ?l p = Some (ok, p1)"
      "(if \<not> ok then Some p1 else do { p \<leftarrow> store_paths p1; Some (count_entry p) }) = Some q"
      using assms(1) by (auto simp: parse_line_def Let_def bind_eq_Some_conv split: if_splits)
    note i = scan_line_inv [OF s(1) assms(2)]
    show ?thesis
    proof (cases ok)
      case True
      then obtain p2 where p2: "store_paths p1 = Some p2" "q = count_entry p2"
        using s(2) by (auto simp: bind_eq_Some_conv)
      show ?thesis using store_paths_inv [OF p2(1)] i assms(3) unfolding p2(2) by (intro count_entry_inv) auto
    qed (use s i in simp)
  qed (use assms in simp)
qed

lemma parse_loop_inv:
  "parse_loop s p = Some q \<Longrightarrow> parse_inv max_item p \<Longrightarrow> cnt p < max_item \<Longrightarrow> parse_inv max_item q"
proof (induction s p arbitrary: q rule: parse_loop.induct)
  case (1 s p)
  show ?case
  proof (cases "s = []")
    case True
    then show ?thesis using "1.prems" by (subst (asm) parse_loop.simps) simp
  next
    case False
    obtain p1 where p1: "parse_line (fst (fgets 511 s)) p = Some p1"
      "(if max_item \<le> cnt p1 then Some p1 else parse_loop (snd (fgets 511 s)) p1) = Some q"
      using "1.prems"(1) False by (subst (asm) parse_loop.simps) (auto simp: bind_eq_Some_conv)
    note i = parse_line_inv [OF p1(1) "1.prems"(2,3)]
    show ?thesis using "1.IH" [OF False p1(1)] p1(2) i by (auto split: if_splits)
  qed
qed

lemma check_entry_fields:
  assumes "check_entry fs e = Some e'"
  shows "image_size e' = image_size e \<and> address e' = address e \<and> image_path_bak e' = image_path_bak e \<and>
    image_path e' \<in> {image_path e, image_path_bak e} \<and> image_path e \<noteq> None \<and> image_path_bak e \<noteq> None"
  using assms by (auto simp: check_entry_def bind_eq_Some_conv split: if_splits)

lemma check_entry_ok: "check_entry fs e = Some e' \<Longrightarrow> entry_ok e \<Longrightarrow> entry_ok e'"
  using check_entry_fields [of fs e e'] by (auto simp: entry_ok_def)

lemma check_entries_nth:
  "check_entries fs n es = Some es' \<Longrightarrow>
     length es' = length es \<and> n \<le> length es \<and> (\<forall>i < n. check_entry fs (es ! i) = Some (es' ! i)) \<and> drop n es' = drop n es"
proof (induction fs n es arbitrary: es' rule: check_entries.induct)
  case (1 fs n e es)
  then obtain e1 es1 where "check_entry fs e = Some e1" "check_entries fs n es = Some es1" "es' = e1 # es1"
    by (auto simp: bind_eq_Some_conv)
  then show ?case using "1.IH" by (auto simp: nth_Cons split: nat.splits)
qed auto

lemma check_entry_picks_good:
  assumes e: "check_entry fs e = Some e'" "image_path e = Some a" "image_path_bak e = Some b" "a \<noteq> b"
    and good: "chkImg fs a (image_size e) = Some True \<or> chkImg fs b (image_size e) = Some True"
  shows "\<exists>p. image_path e' = Some p \<and> chkImg fs p (image_size e') = Some True"
  using assms by (auto simp: check_entry_def bind_eq_Some_conv split: if_splits dest: arg_cong [of _ _ image_path])

section \<open>Waiting for the version string\<close>

lemma sys_read_1:
  assumes "sys_read 1 c = Some (r, d, c')"
  shows "(r = 1 \<and> (\<exists>x. d = [x] \<and> rx c = x # rx c')) \<or> (r \<noteq> 1 \<and> rx c' = rx c)"
proof (cases "r = 1")
  case True
  then obtain x where "d = [x]" using sys_read_props(1) [OF assms] by (auto simp: length_Suc_conv)
  then show ?thesis using sys_read_props(3) [OF assms] True by auto
next
  case False
  then have "nat r = 0" using sys_read_props(2) [OF assms] by auto
  then show ?thesis using sys_read_props(1,3) [OF assms] False by simp
qed

lemma version_loop_result:
  "version_loop m n c = Some (m', c') \<Longrightarrow> even m \<Longrightarrow> n < 64 \<Longrightarrow>
    (\<exists>s. rx c = s @ rx c') \<and>
    (even m' \<or> m' = 1 \<and> (\<exists>s. rx c = s @ 0x7E # rx c' \<and> 0x7E \<notin> set s \<and> length s + n < 64))"
proof (induction m n c arbitrary: m' c' rule: version_loop.induct)
  case (1 m n c)
  obtain r d c1 where rd: "sys_read 1 c = Some (r, d, c1)"
    using "1.prems" by (subst (asm) version_loop.simps) (auto split: option.splits)
  have e: "(if r = 1
       then if d = [0x7E] then Some (1, c1) else if Suc n \<ge> 64 then Some (m, c1)
            else if m < 200 then version_loop m (Suc n) c1 else Some (m, c1)
       else if m + 2 < 200 then version_loop (m + 2) n c1 else Some (m + 2, c1)) = Some (m', c')"
    using "1.prems"(1) rd by (subst (asm) version_loop.simps) simp
  show ?case
  proof (cases "r = 1")
    case False
    then have x: "rx c1 = rx c" using sys_read_1 [OF rd] by simp
    show ?thesis using e "1.IH"(2) [OF rd refl refl False] "1.prems"(2,3) False x by (auto split: if_splits)
  next
    case True
    then obtain x where x: "d = [x]" "rx c = x # rx c1" using sys_read_1 [OF rd] by auto
    consider "x = 0x7E" | "x \<noteq> 0x7E" "Suc n \<ge> 64 \<or> \<not> m < 200" | "x \<noteq> 0x7E" "Suc n < 64" "m < 200" by linarith
    then show ?thesis
    proof cases
      case 1
      then show ?thesis using e True x "1.prems"(3) by (auto intro: exI [of _ "[]"])
    next
      case 2
      then show ?thesis using e True x "1.prems"(2) by (auto split: if_splits)
    next
      case 3
      then have v: "version_loop m (Suc n) c1 = Some (m', c')" using e True x by (simp split: if_splits)
      have "(\<exists>s. rx c1 = s @ rx c') \<and>
         (even m' \<or> m' = 1 \<and> (\<exists>s. rx c1 = s @ 0x7E # rx c' \<and> 0x7E \<notin> set s \<and> length s + Suc n < 64))"
        using "1.IH"(1) [OF rd refl refl True _ _ 3(3) v "1.prems"(2) 3(2)] x 3 by simp
      then show ?thesis
      proof (elim conjE disjE exE)
        fix s assume "rx c1 = s @ rx c'" "even m'"
        then show ?thesis using x by auto
      next
        fix s t assume "rx c1 = t @ rx c'" "m' = 1" "rx c1 = s @ 0x7E # rx c'" "0x7E \<notin> set s" "length s + Suc n < 64"
        then show ?thesis using x 3(1) by (auto intro!: exI [of _ "x # s"])
      qed
    qed
  qed
qed


lemma sys_write_rx: "sys_write d c = Some (r, c') \<Longrightarrow> rx c' = rx c"
  by (rule sys_write_props(3))

lemma connect_round_result:
  assumes "connect_round m c = Some (m', c')" and "even m"
  shows "(\<exists>s. rx c = s @ rx c') \<and>
    (even m' \<or> m' = 1 \<and> (\<exists>s. rx c = 0x7E # s @ 0x7E # rx c' \<and> 0x7E \<notin> set s \<and> length s < 63))"
proof -
  obtain w c1 r d c2 where 1: "sys_write hand_shake c = Some (w, c1)" "sys_read 1 c1 = Some (r, d, c2)"
    and e: "(if r = 1
        then if d = [0x7E] then version_loop 0 1 c2
             else if d = [0x55] then do { (w, c) \<leftarrow> sys_write hand_shake c2; Some (m + 42, c) }
             else Some (m + 2, c2)
        else Some (m, c2)) = Some (m', c')"
    using assms(1) by (auto simp: connect_round_def bind_eq_Some_conv)
  have c1: "rx c1 = rx c" using 1(1) by (rule sys_write_rx)
  note rd = sys_read_1 [OF 1(2), unfolded c1]
  show ?thesis
  proof (cases "r = 1 \<and> d = [0x7E]")
    case True
    then have "rx c = 0x7E # rx c2" using rd by auto
    moreover have "version_loop 0 1 c2 = Some (m', c')" using e True by simp
    from version_loop_result [OF this]
    have "(\<exists>s. rx c2 = s @ rx c') \<and>
      (even m' \<or> m' = 1 \<and> (\<exists>s. rx c2 = s @ 0x7E # rx c' \<and> 0x7E \<notin> set s \<and> length s < 63))" by simp
    ultimately show ?thesis by (metis append_Cons)
  next
    case False
    then have "even m'" "rx c' = rx c2"
      using e assms(2) by (auto simp: bind_eq_Some_conv dest: sys_write_rx split: if_splits)
    then show ?thesis using rd by (metis append_Cons append_Nil)
  qed
qed

lemma connect_loop_result:
  "connect_loop m c = Some c' \<Longrightarrow> even m \<Longrightarrow>
    \<exists>p s. rx c = p @ 0x7E # s @ 0x7E # rx c' \<and> 0x7E \<notin> set s \<and> length s < 63"
proof (induction m c arbitrary: c' rule: connect_loop.induct)
  case (1 m c)
  obtain m1 c1 where r: "connect_round m c = Some (m1, c1)"
    and e: "(if m1 = 1 then Some c1 else connect_loop (m1 + 2) c1) = Some c'"
    using "1.prems"(1) by (subst (asm) connect_loop.simps) (auto simp: bind_eq_Some_conv)
  note i = connect_round_result [OF r "1.prems"(2)]
  show ?case
  proof (cases "m1 = 1")
    case True
    then show ?thesis using i e by (auto intro: exI [of _ "[]"])
  next
    case False
    have "even (m1 + 2)" using i False by auto
    then obtain p s where "rx c1 = p @ 0x7E # s @ 0x7E # rx c'" "0x7E \<notin> set s" "length s < 63"
      using "1.IH" [OF r refl False] e False by auto
    moreover obtain q where "rx c = q @ rx c1" using i by auto
    ultimately show ?thesis by (metis append.assoc)
  qed
qed

section \<open>Configuration files the parser is defined on\<close>

text \<open>What a line must keep to: it does not begin with NUL; if it names an image it names the backup
  too, both in less than 100 characters and the backup in no more than the image; a size is 0 or
  between 4 and \<open>0x7FFFFFFF\<close>.\<close>

definition size_ok :: "u32 \<Rightarrow> bool" where
  "size_ok n \<longleftrightarrow> n = 0 \<or> 4 \<le> n \<and> n < 0x80000000"

definition line_ok :: "string \<Rightarrow> bool" where
  "line_ok line \<longleftrightarrow>
     (let l = takeWhile (\<lambda>c. c \<noteq> CHR 0x00) line; t = butlast l
      in l \<noteq> [] \<and>
         (t = [] \<or> hd t = CHR ''#'' \<or>
          (case scan_s t of
             None \<Rightarrow> True
           | Some (a, r) \<Rightarrow> length a < 100 \<and>
               (case scan_s r of
                  None \<Rightarrow> False
                | Some (b, r) \<Rightarrow> length b < 100 \<and> length b \<le> length a \<and>
                    (case scan_x r of None \<Rightarrow> True | Some (n, r) \<Rightarrow> size_ok n)))))"

function conf_lines :: "string \<Rightarrow> string list" where
  "conf_lines s = (if s = [] then [] else fst (fgets 511 s) # conf_lines (snd (fgets 511 s)))"
  by pat_completeness auto
termination
  by (relation "measure length") (auto intro: fgets_shorter)

declare conf_lines.simps [simp del]

definition conf_ok :: "string \<Rightarrow> bool" where
  "conf_ok s \<longleftrightarrow> list_all line_ok (conf_lines s)"

definition entry_checkable :: "image_info \<Rightarrow> bool" where
  "entry_checkable e \<longleftrightarrow> size_ok (image_size e) \<and>
     (case image_path e of None \<Rightarrow> True
      | Some a \<Rightarrow> case image_path_bak e of None \<Rightarrow> True | Some b \<Rightarrow> length b \<le> length a)"

abbreviation tbl_checkable :: "parse_state \<Rightarrow> bool" where
  "tbl_checkable p \<equiv> list_all entry_checkable (tbl p)"

lemma tbl_checkable_update:
  assumes "list_all entry_checkable t" and "i < length t \<Longrightarrow> entry_checkable (t ! i) \<Longrightarrow> entry_checkable e"
  shows "list_all entry_checkable (t[i := e])"
  using assms by (cases "i < length t") (auto simp: list_all_length nth_list_update)

lemma entry_checkable_fields [simp]:
  "entry_checkable e \<Longrightarrow> size_ok n \<Longrightarrow> entry_checkable (e\<lparr>image_size := n\<rparr>)"
  "entry_checkable (e\<lparr>address := x\<rparr>) = entry_checkable e"
  "length b \<le> length a \<Longrightarrow> entry_checkable e \<Longrightarrow>
     entry_checkable (e\<lparr>image_path := Some a, image_path_bak := Some b\<rparr>)"
  by (simp_all add: entry_checkable_def split: option.splits)

lemma scan_line_defined:
  assumes "tbl_checkable p" and "scan_s t = Some (a, r)" and "length a < 100"
    and "scan_s r = Some (b, r1)" and "length b < 100"
    and "case scan_x r1 of None \<Rightarrow> True | Some (n, r) \<Rightarrow> size_ok n"
  shows "\<exists>q. scan_line t p = Some (True, q) \<and> tbl_checkable q \<and> originPath q = Some a \<and> bakPath q = Some b"
  using assms
  by (auto simp: scan_line_def Let_def intro!: tbl_checkable_update split: option.splits)

lemma parse_line_defined:
  assumes "line_ok line" and "tbl_checkable p"
  shows "\<exists>q. parse_line line p = Some q \<and> tbl_checkable q"
proof -
  let ?t = "butlast (takeWhile (\<lambda>c. c \<noteq> CHR 0x00) line)"
  have l: "takeWhile (\<lambda>c. c \<noteq> CHR 0x00) line \<noteq> []" using assms(1) by (auto simp: line_ok_def Let_def)
  show ?thesis
  proof (cases "?t = [] \<or> hd ?t = CHR ''#'' \<or> scan_s ?t = None")
    case True
    then show ?thesis using l assms(2) by (auto simp: parse_line_def Let_def scan_line_def)
  next
    case False
    then obtain a r where a: "scan_s ?t = Some (a, r)" by auto
    obtain b r1 where b: "scan_s r = Some (b, r1)"
      using assms(1) False a by (cases "scan_s r") (auto simp: line_ok_def Let_def)
    have s: "length a < 100" "length b < 100" "case scan_x r1 of None \<Rightarrow> True | Some (n, r) \<Rightarrow> size_ok n"
      "length b \<le> length a"
      using assms(1) False a b by (simp_all add: line_ok_def Let_def)
    obtain q where q: "scan_line ?t p = Some (True, q)" "tbl_checkable q" "originPath q = Some a" "bakPath q = Some b"
      using scan_line_defined [OF assms(2) a s(1) b s(2,3)] by blast
    have "tbl_checkable (count_entry (q\<lparr>tbl := (tbl q)[cnt q := (tbl q ! cnt q)\<lparr>image_path := Some a, image_path_bak := Some b\<rparr>]\<rparr>))"
      using q(2) s(4) by (auto simp: count_entry_def Let_def intro!: tbl_checkable_update)
    then show ?thesis using False l q by (auto simp: parse_line_def Let_def store_paths_def)
  qed
qed

lemma parse_loop_defined:
  "conf_ok s \<Longrightarrow> tbl_checkable p \<Longrightarrow> \<exists>q. parse_loop s p = Some q \<and> tbl_checkable q"
proof (induction s p rule: parse_loop.induct)
  case (1 s p)
  show ?case
  proof (cases "s = []")
    case True
    then show ?thesis using "1.prems"(2) by (subst parse_loop.simps) simp
  next
    case False
    then have ok: "line_ok (fst (fgets 511 s))" "conf_ok (snd (fgets 511 s))"
      using "1.prems"(1) by (simp_all add: conf_ok_def conf_lines.simps [of s])
    obtain q where q: "parse_line (fst (fgets 511 s)) p = Some q" "tbl_checkable q"
      using parse_line_defined [OF ok(1) "1.prems"(2)] by blast
    show ?thesis using "1.IH" [OF False q(1) _ ok(2) q(2)] q False by (subst parse_loop.simps) simp
  qed
qed

text \<open>Reading a file returns as long as its schedule of outcomes has one for the call.\<close>

definition readable :: "(string \<Rightarrow> chan option) \<Rightarrow> string \<Rightarrow> bool" where
  "readable fs p \<longleftrightarrow> (case fs p of None \<Rightarrow> True | Some f \<Rightarrow> rd_sched f \<noteq> [])"

lemma chkImg_defined:
  assumes "4 \<le> n" and "n < 0x80000000" and "readable fs p"
  shows "\<exists>g. chkImg fs p n = Some g"
proof (cases "fs p")
  case (Some f)
  then have "sys_read (unat n) f \<noteq> None"
    using assms(3) by (cases "rd_sched f") (simp_all add: readable_def sys_read_def Let_def)
  then obtain ret d f' where r: "sys_read (unat n) f = Some (ret, d, f')" by auto
  have "4 \<le> unat n" using assms(1) by (simp add: word_le_nat_alt)
  moreover have "length d = unat n" if "ret = int (unat n)" using that sys_read_props(1) [OF r] by simp
  ultimately show ?thesis using Some r assms(2)
    by (cases "ret = int (unat n)") (auto simp: chkImg_def chkEcc_def mb_calc_checksum_eq not_le)
qed (use assms(2) in \<open>auto simp: chkImg_def not_le\<close>)

lemma check_entry_defined:
  assumes "entry_ok e" and "entry_checkable e" and "\<And>p. readable fs p"
  shows "\<exists>e'. check_entry fs e = Some e'"
proof -
  obtain a b where ab: "image_path e = Some a" "image_path_bak e = Some b" "length b \<le> length a"
    and n: "4 \<le> image_size e" "image_size e < 0x80000000"
    using assms(1,2) by (auto simp: entry_ok_def entry_checkable_def size_ok_def)
  obtain g g' where "chkImg fs a (image_size e) = Some g" "chkImg fs b (image_size e) = Some g'"
    using chkImg_defined [OF n assms(3)] by metis
  then show ?thesis using ab by (simp add: check_entry_def)
qed

lemma check_entries_defined:
  assumes "n \<le> length es" and "\<And>i. i < n \<Longrightarrow> \<exists>e'. check_entry fs (es ! i) = Some e'"
  shows "\<exists>es'. check_entries fs n es = Some es'"
  using assms
proof (induction n arbitrary: es)
  case (Suc n)
  then obtain e es1 where es: "es = e # es1" by (cases es) auto
  obtain e' where "check_entry fs e = Some e'" using Suc.prems(2) [of 0] es by auto
  moreover have "\<exists>es'. check_entries fs n es1 = Some es'"
  proof (rule Suc.IH)
    show "\<exists>e'. check_entry fs (es1 ! i) = Some e'" if "i < n" for i
      using that Suc.prems(2) [of "Suc i"] es by simp
  qed (use Suc.prems es in simp)
  ultimately show ?case using es by auto
qed simp

lemma images_info_defined:
  assumes "length (download_image_info st) = 8" and "conf_ok conf" and "\<And>p. readable fs p"
  shows "\<exists>r. get_modem_images_info fs (Some conf) st = Some r"
proof -
  let ?p0 = "\<lparr>tbl = replicate 8 null_image, cnt = 0, dev = uart_dev st, delay = fdl_cp_poweron_delay st,
                originPath = None, bakPath = None\<rparr>"
  have "tbl_checkable ?p0" by (simp add: list_all_length entry_checkable_def null_image_def size_ok_def)
  then obtain p where p: "parse_loop conf ?p0 = Some p" "tbl_checkable p"
    using parse_loop_defined [OF assms(2)] by blast
  have i: "length (tbl p) = 8" "cnt p \<le> 7" "\<forall>i < cnt p. entry_ok (tbl p ! i)"
    using parse_loop_inv [OF p(1)] by (auto simp: parse_inv_def max_item_def)
  have "\<exists>es. check_entries fs (cnt p) ((tbl p)[cnt p := null_image]) = Some es"
  proof (rule check_entries_defined)
    show "\<exists>e'. check_entry fs ((tbl p)[cnt p := null_image] ! k) = Some e'" if "k < cnt p" for k
      using that i p(2) check_entry_defined [OF _ _ assms(3)] by (auto simp: list_all_length)
  qed (use i in simp)
  then show ?thesis using p(1) assms(1) by (auto simp: get_modem_images_info_def)
qed

section \<open>Properties of the boot loader\<close>

text \<open>A file system with one stamped image, for the examples.\<close>

definition demo_file :: chan where
  "demo_file = \<lparr>rx = [1, 2, 3] @ to_le16 (nv_calc_checksum [1, 2, 3]) @ [0, 0], tx = [], rd_sched = [9], wr_sched = []\<rparr>"

definition demo_fs :: "string \<Rightarrow> chan option" where
  "demo_fs p = (if p = ''/backup'' then Some demo_file else None)"

lemma demo_fs_backup: "chkImg demo_fs ''/backup'' 7 = Some True"
  by code_simp

lemma image_table:
  assumes "get_modem_images_info fs (Some conf) st = Some (n, st')" and "length (download_image_info st) = 8"
  shows "modem_images_count st' = n \<and> n \<le> 7 \<and> length (download_image_info st') = 8 \<and>
     (\<forall>i < n. entry_ok (download_image_info st' ! i)) \<and> download_image_info st' ! n = null_image"
proof -
  let ?p0 = "\<lparr>tbl = replicate 8 null_image, cnt = 0, dev = uart_dev st, delay = fdl_cp_poweron_delay st,
                originPath = None, bakPath = None\<rparr>"
  obtain p es where p: "parse_loop conf ?p0 = Some p"
    "check_entries fs (cnt p) ((tbl p)[cnt p := null_image]) = Some es" "n = cnt p"
    "modem_images_count st' = n" "download_image_info st' = es"
    using assms by (auto simp: get_modem_images_info_def bind_eq_Some_conv)
  have i: "length (tbl p) = 8" "cnt p \<le> 7" "\<forall>i < cnt p. entry_ok (tbl p ! i)"
    using parse_loop_inv [OF p(1)] by (auto simp: parse_inv_def max_item_def)
  note c = check_entries_nth [OF p(2)]
  have ok: "entry_ok (es ! i)" if "i < n" for i
    using c that i(3) p(3) by (auto intro: check_entry_ok)
  have "es ! n = ((tbl p)[cnt p := null_image]) ! n"
    using c i p(3) hd_drop_conv_nth [of n es] hd_drop_conv_nth [of n "(tbl p)[cnt p := null_image]"] by simp
  then have "es ! n = null_image" using i p(3) by simp
  then show ?thesis using p i c ok by simp
qed

text \<open>C7: \<open>get_modem_images_info\<close> on a configuration file that can be opened. Whenever the call gets
  through without undefined behaviour, it fills at most seven of the eight table entries, each with
  both paths, a size and an address, and leaves the entry after them cleared. It does get through
  when no line begins with NUL, every line that names an image names its backup too, with paths of
  less than 100 characters and a backup path no longer than the other, sizes are 0 or
  from 4 to \<open>0x7FFFFFFF\<close>, and the reads of the image files return. Outside these conditions the
  code may write past a path buffer or the string of \<open>strdup\<close>, read the uninitialised \<open>bakPath\<close>, or
  check an image of less than four bytes, and nothing is claimed.\<close>

theorem image_table_wellformed:
  assumes "length (download_image_info st) = 8"
  shows "(\<forall>n st'. get_modem_images_info fs (Some conf) st = Some (n, st') \<longrightarrow>
       modem_images_count st' = n \<and> n \<le> 7 \<and> length (download_image_info st') = 8 \<and>
       (\<forall>i < n. entry_ok (download_image_info st' ! i)) \<and> download_image_info st' ! n = null_image) \<and>
     (conf_ok conf \<and> (\<forall>p. readable fs p) \<longrightarrow> get_modem_images_info fs (Some conf) st \<noteq> None)"
  using image_table [of fs conf st, OF _ assms] images_info_defined [OF assms, of conf fs] by auto

text \<open>C36: For an image with a different backup path, the path that is kept passes the checksum
  whenever one of the two files does, and the size, the address and the backup path stay.\<close>

theorem good_image_selected:
  assumes "check_entries fs n es = Some es'" and "i < n"
    and "image_path (es ! i) = Some a" and "image_path_bak (es ! i) = Some b" and "a \<noteq> b"
    and "chkImg fs a (image_size (es ! i)) = Some True \<or> chkImg fs b (image_size (es ! i)) = Some True"
  shows "\<exists>p. p \<in> {a, b} \<and> es' ! i = (es ! i)\<lparr>image_path := Some p\<rparr> \<and> chkImg fs p (image_size (es ! i)) = Some True"
proof -
  have c: "check_entry fs (es ! i) = Some (es' ! i)" using check_entries_nth [OF assms(1)] assms(2) by simp
  obtain p where "image_path (es' ! i) = Some p" "chkImg fs p (image_size (es' ! i)) = Some True"
    using check_entry_picks_good [OF c assms(3-6)] by blast
  moreover have "es' ! i = (es ! i)\<lparr>image_path := image_path (es' ! i)\<rparr>" "image_path (es' ! i) \<in> {Some a, Some b}"
    using check_entry_fields [OF c] assms(3,4) by auto
  ultimately show ?thesis by (metis image_info.select_convs(3) image_info.update_convs(1) image_info.surjective insertE option.inject singletonD insertCI)
qed

text \<open>An image file that ends in the checksum of its data (little endian, followed by two
  bytes that are not looked at) passes \<open>_chkImg\<close>, provided the single read returns it whole.\<close>

theorem stamped_image_accepted:
  assumes "fs name = Some f" and "rx f = d @ to_le16 (nv_calc_checksum d) @ [x, y] @ rest"
    and "unat n = length d + 4" and "unat n < 2 ^ 31" and "rd_sched f = r # rs" and "int (unat n) \<le> r"
  shows "chkImg fs name n = Some True"
proof -
  let ?img = "d @ to_le16 (nv_calc_checksum d) @ [x, y]"
  have l: "length ?img = unat n" using assms(3) by simp
  have x: "rx f = ?img @ rest" using assms(2) by simp
  have "take (unat n) (rx f) = ?img" "drop (unat n) (rx f) = rest" "unat n \<le> length (rx f)"
    unfolding x l [symmetric] by simp_all
  then have "sys_read (unat n) f = Some (int (unat n), ?img, f\<lparr>rd_sched := rs, rx := rest\<rparr>)"
    using sys_read_full [OF assms(5,6)] by simp
  moreover have "chkEcc ?img = Some True"
    by (simp add: chkEcc_def mb_calc_checksum_eq nv_calc_checksum_eq to_le16_def nth_append le16_split)
  moreover have "\<not> 0x80000000 \<le> n" using assms(4) by (simp add: word_le_nat_alt)
  ultimately show ?thesis using assms(1) by (simp add: chkImg_def)
qed


theorem stamped_image_accepted_witness: "chkImg demo_fs ''/backup'' 7 = Some True"
  by (rule stamped_image_accepted [where f = demo_file and r = 9 and rs = "[]" and d = "[1, 2, 3]" and x = 0 and y = 0 and rest = "[]"])
     (simp_all add: demo_fs_def demo_file_def)

text \<open>When the original image fails its checksum and the backup passes, but the backup's
  path is longer, \<open>strcpy\<close> writes past the end of the string allocated for the original path.\<close>

theorem longer_backup_path_overflows:
  assumes "image_path e = Some a" and "image_path_bak e = Some b" and "length a < length b"
    and "chkImg fs a (image_size e) = Some False" and "chkImg fs b (image_size e) = Some True"
  shows "check_entry fs e = None"
  using assms by (auto simp: check_entry_def)

theorem longer_backup_path_overflows_witness:
  "check_entry demo_fs \<lparr>image_path = Some ''/m'', image_path_bak = Some ''/backup'', image_size = 7, address = 1\<rparr> = None"
  by (rule longer_backup_path_overflows [where a = "''/m''" and b = "''/backup''"])
     (simp_all add: demo_fs_backup, simp add: chkImg_def demo_fs_def)

theorem good_image_selected_witness:
  "\<exists>p. p \<in> {''/longpath'', ''/backup''} \<and>
     [\<lparr>image_path = Some ''/backup'', image_path_bak = Some ''/backup'', image_size = 7, address = 1\<rparr>] ! 0 =
       ([\<lparr>image_path = Some ''/longpath'', image_path_bak = Some ''/backup'', image_size = 7, address = 1\<rparr>] ! 0)\<lparr>image_path := Some p\<rparr> \<and>
     chkImg demo_fs p (image_size ([\<lparr>image_path = Some ''/longpath'', image_path_bak = Some ''/backup'', image_size = 7, address = 1\<rparr>] ! 0)) = Some True"
proof (rule good_image_selected [where n = 1 and fs = demo_fs])
  show "check_entries demo_fs 1 [\<lparr>image_path = Some ''/longpath'', image_path_bak = Some ''/backup'', image_size = 7, address = 1\<rparr>] =
    Some [\<lparr>image_path = Some ''/backup'', image_path_bak = Some ''/backup'', image_size = 7, address = 1\<rparr>]"
    using demo_fs_backup by (simp add: check_entry_def) (simp add: chkImg_def demo_fs_def)
qed (simp_all add: demo_fs_backup)

text \<open>A configuration with a UART line and one image.\<close>

definition demo_state :: boot_state where
  "demo_state = \<lparr>download_image_info = replicate 8 null_image,
     modem_images_count = 7, uart_dev = ''/dev/ttyS1'', fdl_cp_poweron_delay = 180000,
     need_shutdown = False, modem_power = [], test_buffer = [], send_buffer = []\<rparr>"

definition demo_conf :: string where
  "demo_conf = ''/u /u 9 0'' @ [CHR 0x0A] @ ''/m /m 0x20 0x90'' @ [CHR 0x0A]"

definition demo_result :: boot_state where
  "demo_result = \<lparr>download_image_info = image_entry ''/m'' 0x20 0x90 # replicate 7 null_image,
     modem_images_count = 1, uart_dev = ''/u'', fdl_cp_poweron_delay = 9,
     need_shutdown = False, modem_power = [], test_buffer = [], send_buffer = []\<rparr>"


lemma fgets_numeral [simp]:
  "fgets (numeral k) [] = ([], [])"
  "fgets (numeral k) (c # s) =
     (if c = CHR 0x0A then ([c], s) else (let (l, r) = fgets (pred_numeral k) s in (c # l, r)))"
  by (simp_all add: numeral_eq_Suc)

lemmas parse_defs = parse_line_def scan_line_def scan_s_def scan_x_def isspace_def hex_digit_def
  skip_0x_def store_paths_def count_entry_def max_item_def

lemma demo_line1: "parse_line (''/u /u 9 0'' @ [CHR 0x0A]) \<lparr>tbl = null_image # replicate 7 null_image, cnt = 0, dev = d, delay = y, originPath = None, bakPath = None\<rparr> =
    Some \<lparr>tbl = \<lparr>image_path = Some ''/u'', image_path_bak = Some ''/u'', image_size = 9, address = 0\<rparr> # replicate 7 null_image, cnt = 0, dev = ''/u'', delay = 9,
      originPath = Some ''/u'', bakPath = Some ''/u''\<rparr>"
  by (simp add: parse_defs)

lemma demo_line2: "parse_line (''/m /m 0x20 0x90'' @ [CHR 0x0A]) \<lparr>tbl = e # replicate 7 null_image, cnt = 0, dev = d, delay = y, originPath = a, bakPath = b\<rparr> =
    Some \<lparr>tbl = image_entry ''/m'' 0x20 0x90 # replicate 7 null_image, cnt = 1, dev = d, delay = y,
      originPath = Some ''/m'', bakPath = Some ''/m''\<rparr>"
  by (simp add: parse_defs image_entry_def)

lemma demo_images_info: "get_modem_images_info (\<lambda>_. None) (Some demo_conf) demo_state = Some (1, demo_result)"
proof -
  have t: "replicate 8 null_image = null_image # replicate 7 null_image" by (simp add: numeral_eq_Suc)
  have "parse_loop demo_conf \<lparr>tbl = null_image # replicate 7 null_image, cnt = 0, dev = d, delay = y, originPath = None, bakPath = None\<rparr> =
     Some \<lparr>tbl = image_entry ''/m'' 0x20 0x90 # replicate 7 null_image, cnt = 1, dev = ''/u'', delay = 9,
      originPath = Some ''/m'', bakPath = Some ''/m''\<rparr>" for d y
    using demo_line1 [of d y] demo_line2
    by (subst parse_loop.simps, simp add: demo_conf_def max_item_def)
       (subst parse_loop.simps, simp add: max_item_def, subst parse_loop.simps, simp)
  then show ?thesis
    by (simp add: get_modem_images_info_def demo_state_def demo_result_def t check_entry_def image_entry_def)
       (simp add: numeral_eq_Suc)
qed

lemma demo_conf_ok: "conf_ok demo_conf"
proof -
  have "conf_lines demo_conf = [''/u /u 9 0'' @ [CHR 0x0A], ''/m /m 0x20 0x90'' @ [CHR 0x0A]]"
    by (subst conf_lines.simps, simp add: demo_conf_def, subst conf_lines.simps, simp, subst conf_lines.simps, simp)
  moreover have "line_ok (''/u /u 9 0'' @ [CHR 0x0A])" by (simp add: line_ok_def size_ok_def parse_defs)
  moreover have "line_ok (''/m /m 0x20 0x90'' @ [CHR 0x0A])" by (simp add: line_ok_def size_ok_def parse_defs)
  ultimately show ?thesis by (simp add: conf_ok_def)
qed

theorem image_table_wellformed_witness:
  "get_modem_images_info (\<lambda>_. None) (Some demo_conf) demo_state \<noteq> None \<and>
     modem_images_count demo_result = 1 \<and> length (download_image_info demo_result) = 8 \<and>
     entry_ok (download_image_info demo_result ! 0) \<and> download_image_info demo_result ! 1 = null_image"
  using image_table_wellformed [of demo_state "\<lambda>_. None" demo_conf] demo_images_info demo_conf_ok
  by (simp add: demo_state_def readable_def)

text \<open>C37: \<open>try_to_connect_modem\<close> returns only after the modem has sent a version string: a flag
  byte, fewer than 63 bytes without flag, and a second flag; everything up to it is consumed.\<close>

theorem connect_needs_version:
  assumes "try_to_connect_modem c = Some c'"
  shows "\<exists>p s. rx c = p @ [0x7E] @ s @ [0x7E] @ rx c' \<and> 0x7E \<notin> set s \<and> length s < 63"
  using connect_loop_result [of 0 c c'] assms by (simp add: try_to_connect_modem_def)

theorem connect_needs_version_witness:
  "\<exists>p s. rx \<lparr>rx = [0x33, 0x7E, 1, 2, 0x7E, 9], tx = [], rd_sched = replicate 5 1, wr_sched = [3, 3]\<rparr> =
     p @ [0x7E] @ s @ [0x7E] @ rx \<lparr>rx = [9], tx = [0x7E, 0x7E, 0x7E, 0x7E, 0x7E, 0x7E], rd_sched = [], wr_sched = []\<rparr> \<and>
     0x7E \<notin> set s \<and> length s < 63"
proof (rule connect_needs_version)
  show "try_to_connect_modem \<lparr>rx = [0x33, 0x7E, 1, 2, 0x7E, 9], tx = [], rd_sched = replicate 5 1, wr_sched = [3, 3]\<rparr> =
    Some \<lparr>rx = [9], tx = [0x7E, 0x7E, 0x7E, 0x7E, 0x7E, 0x7E], rd_sched = [], wr_sched = []\<rparr>"
    by code_simp
qed

end
