(* ===== verification/Mc_Download.thy ===== *)
theory Mc_Download
  imports Mc_Boot
begin

unbundle bit_operations_syntax

text \<open>
  What reaches the modem: the byte streams that \<open>download_fdl\<close> puts on the UART and
  \<open>download_images\<close> on the SPI link, proved from the operations of \<open>Mc_Packet\<close> and
  \<open>Mc_Boot\<close> for links and files that keep delivering, in whatever pieces.
\<close>

section \<open>Channels that keep delivering\<close>

text \<open>Every read gives at least one byte, every write takes a whole packet, and enough calls are
  left for \<open>k\<close> exchanges with replies of \<open>n\<close> bytes.\<close>

definition flowing :: "nat \<Rightarrow> nat \<Rightarrow> chan \<Rightarrow> bool" where
  "flowing n k c \<longleftrightarrow>
     (\<forall>r \<in> set (rd_sched c). 1 \<le> r) \<and> k * n \<le> length (rd_sched c) \<and>
     (\<forall>w \<in> set (wr_sched c). 40000 \<le> w) \<and> k \<le> length (wr_sched c)"

lemma read_loop_flow:
  assumes "read_loop raw off n c = Some (rv, raw', off', c')" and "\<forall>r \<in> set (rd_sched c). 1 \<le> r"
    and "n \<le> length (rx c)" and "0 < n"
  shows "\<exists>j\<le>n. rd_sched c' = drop j (rd_sched c)"
  using assms
proof (induction raw off n c arbitrary: rv raw' off' c' rule: read_loop.induct)
  case (1 raw off n c)
  obtain r rs where s: "rd_sched c = r # rs"
    using "1.prems"(1) by (subst (asm) read_loop.simps) (cases "rd_sched c"; auto simp: sys_read_def)
  have r: "1 \<le> r" using "1.prems"(2) s by simp
  let ?k = "min (nat r) n" and ?c = "c\<lparr>rd_sched := rs, rx := drop (min (nat r) n) (rx c)\<rparr>"
  have rd: "sys_read n c = Some (int ?k, take ?k (rx c), ?c)"
    using s r "1.prems"(3) by (simp add: sys_read_def Let_def)
  have k: "0 < ?k" using r "1.prems"(4) by auto
  obtain raw1 where w: "(if int ?k > 0 then buf_write off (take ?k (rx c)) raw else Some raw) = Some raw1"
    using "1.prems"(1) rd by (subst (asm) read_loop.simps) (auto split: option.splits)
  have e: "(if n - ?k \<noteq> 0 then read_loop raw1 (off + ?k) (n - ?k) ?c
            else Some (int ?k, raw1, off + ?k, ?c)) = Some (rv, raw', off', c')"
    using "1.prems"(1) rd w k
    by (subst (asm) read_loop.simps) (simp only: option.case prod.case Let_def of_nat_0_less_iff if_True nat_int)
  show ?case
  proof (cases "n - ?k \<noteq> 0")
    case True
    have "\<exists>j\<le>n - ?k. rd_sched c' = drop j (rd_sched ?c)"
      by (rule "1.IH" [OF rd refl refl w]) (use e True k s "1.prems" in auto)
    then obtain j where "j \<le> n - ?k" "rd_sched c' = drop j rs" by auto
    then show ?thesis using s k by (intro exI [of _ "Suc j"]) auto
  next
    case False
    then show ?thesis using e s "1.prems"(4) by (intro exI [of _ 1]) (auto split: if_splits)
  qed
qed

lemma flowing_drop: "\<forall>r \<in> set rs. 1 \<le> (r::int) \<Longrightarrow> \<forall>r \<in> set (drop j rs). 1 \<le> r"
  by (meson in_set_dropD)

lemma spi_round:
  assumes f: "buf_read 0 n pkt = Some f" "0 < n" "n \<le> 40000"
    and c: "flowing 6 (Suc k) c" "rx c = reply @ rest" "length reply = 6" and raw: "6 \<le> length raw"
  shows "\<exists>c'. exchange True (Suc 0) pkt n raw sb c = Some (if acked reply then 0 else -1, sb, c') \<and>
    tx c' = tx c @ f \<and> rx c' = rest \<and> flowing 6 k c'"
proof -
  obtain w ws where ws: "wr_sched c = w # ws" "40000 \<le> w" "\<forall>w\<in>set ws. 40000 \<le> w" "k \<le> length ws"
    using c(1) by (cases "wr_sched c") (auto simp: flowing_def)
  have lf: "length f = n" using f(1) by (auto simp: buf_read_def split: if_splits)
  have pos: "\<forall>r \<in> set (rd_sched c). 1 \<le> r" and len: "Suc k * 6 \<le> length (rd_sched c)"
    using c(1) by (auto simp: flowing_def)
  have rdy: "ready c n reply"
    unfolding ready_def using ws f(3) c(2,3) sum_list_ge_length [OF pos] len by simp
  obtain c' where x: "exchange True (Suc 0) pkt n raw sb c = Some (if acked reply then 0 else -1, sb, c')"
    "tx c' = tx c @ f" "rx c' = drop 6 (rx c)"
    using exchange_spi_acked [OF f(1,2) rdy c(3) raw] by blast
  let ?c = "c\<lparr>wr_sched := ws, tx := tx c @ f\<rparr>"
  have t: "transmit 1 pkt n sb c = Some (int n, sb, ?c)"
    using sys_write_full [OF ws(1), of f] f ws(2) lf by (simp add: transmit_def)
  obtain rv raw' o' where r: "read_loop raw 0 6 ?c = Some (rv, raw', o', c')"
    using x(1) t f(2) by (auto simp: exchange_def bind_eq_Some_conv split: if_splits)
  have "\<exists>j\<le>6. rd_sched c' = drop j (rd_sched ?c)"
    by (rule read_loop_flow [OF r]) (use pos c(2,3) in simp_all)
  then obtain j where j: "j \<le> 6" "rd_sched c' = drop j (rd_sched c)" by auto
  have "flowing 6 k c'"
    unfolding flowing_def using j len ws read_loop_sched [OF r] flowing_drop [OF pos, of j] by auto
  then show ?thesis using x c(2,3) by auto
qed

lemma fill_loop_flow:
  assumes "\<forall>r \<in> set (rd_sched f). 1 \<le> r" and "n < length (rd_sched f)" and "0 < n" and "off + n \<le> length buf"
  shows "\<exists>f'. fill_loop buf off n f =
       Some (take off buf @ take n (rx f) @ drop (off + min n (length (rx f))) buf, f') \<and>
     rx f' = drop n (rx f) \<and> (\<exists>j\<le>Suc n. rd_sched f' = drop j (rd_sched f))"
  using assms
proof (induction buf off n f rule: fill_loop.induct)
  case (1 buf off n f)
  obtain r rs where s: "rd_sched f = r # rs" using "1.prems"(2) by (cases "rd_sched f") auto
  have r: "1 \<le> r" using "1.prems"(1) s by simp
  define k where "k = min (nat r) (min n (length (rx f)))"
  let ?f = "f\<lparr>rd_sched := rs, rx := drop k (rx f)\<rparr>"
  have rd: "sys_read n f = Some (int k, take k (rx f), ?f)"
    using s r by (simp add: sys_read_def Let_def k_def)
  have kn: "k \<le> n" "k \<le> length (rx f)" by (simp_all add: k_def)
  show ?case
  proof (cases "rx f = []")
    case True
    then have "k = 0" by (simp add: k_def)
    then show ?thesis using rd s True by (subst fill_loop.simps) (auto intro!: exI [of _ "Suc 0"])
  next
    case False
    then have k: "0 < k" using r "1.prems"(3) by (auto simp: k_def)
    define buf1 where "buf1 = take off buf @ take k (rx f) @ drop (off + k) buf"
    have w: "buf_write off (take k (rx f)) buf = Some buf1"
      using "1.prems"(4) kn by (simp add: buf_write_def buf1_def)
    have l: "length buf1 = length buf" using buf_write_length [OF w] .
    show ?thesis
    proof (cases "n - k > 0")
      case False
      then have "k = n" using kn by simp
      then show ?thesis using rd w k s kn
        by (subst fill_loop.simps) (auto simp: buf1_def intro!: exI [of _ "Suc 0"])
    next
      case True
      have "\<exists>f'. fill_loop buf1 (off + k) (n - k) ?f =
          Some (take (off + k) buf1 @ take (n - k) (rx ?f) @
            drop (off + k + min (n - k) (length (rx ?f))) buf1, f') \<and>
          rx f' = drop (n - k) (rx ?f) \<and> (\<exists>j\<le>Suc (n - k). rd_sched f' = drop j (rd_sched ?f))"
        using "1.IH" [OF rd refl refl _ w] True k kn "1.prems" s l by simp
      then obtain f' j where i: "fill_loop buf1 (off + k) (n - k) ?f =
          Some (take (off + k) buf1 @ take (n - k) (drop k (rx f)) @
            drop (off + k + min (n - k) (length (rx f) - k)) buf1, f')"
          "rx f' = drop (n - k) (drop k (rx f))" "j \<le> Suc (n - k)" "rd_sched f' = drop j rs" by auto
      have a: "take (off + k) buf1 = take off buf @ take k (rx f)"
        using "1.prems"(4) kn by (simp add: buf1_def)
      have b: "take k (rx f) @ take (n - k) (drop k (rx f)) = take n (rx f)"
        using kn by (metis le_add_diff_inverse take_add)
      have m: "k + min (n - k) (length (rx f) - k) = min n (length (rx f))" using kn by auto
      have d: "drop (off + k + min (n - k) (length (rx f) - k)) buf1 = drop (off + min n (length (rx f))) buf"
        using "1.prems"(4) kn m by (simp add: buf1_def ac_simps)
      have e: "fill_loop buf off n f = fill_loop buf1 (off + k) (n - k) ?f"
        using rd w k True by (subst fill_loop.simps) simp
      have "rx f' = drop n (rx f)" using i(2) kn by simp
      moreover have "\<exists>j\<le>Suc n. rd_sched f' = drop j (rd_sched f)"
        using i(3,4) s k kn by (intro exI [of _ "Suc j"]) auto
      ultimately show ?thesis unfolding e i(1) using a b d by (metis append.assoc)
    qed
  qed
qed

lemma start_round:
  assumes "flowing 6 (Suc k) c" "rx c = reply @ rest" "length reply = 6"
  shows "\<exists>c'. send_start_message len addr 1 sb c = Some (if acked reply then 0 else -1, sb, c') \<and>
     tx c' = tx c @ spi_header 8 BSL_CMD_START_DATA (start_payload addr len) @ start_payload addr len \<and>
     rx c' = rest \<and> flowing 6 k c'"
proof -
  let ?d = "start_payload addr len" and ?b = "replicate 8 0 @ start_payload addr len @ replicate 16 0 :: bytes"
  have l: "length ?d = 8" by (simp add: start_payload_def)
  let ?p = "spi_header 8 BSL_CMD_START_DATA ?d @ ?d @ replicate 16 0"
  have 1: "spi_packet 8 BSL_CMD_START_DATA 8 8 ?b = Some ?p"
    using spi_packet_eq [of 8 ?b 8 BSL_CMD_START_DATA] l by simp
  have 2: "buf_read 0 16 ?p = Some (spi_header 8 BSL_CMD_START_DATA ?d @ ?d)"
    using l by (simp add: buf_read_def)
  show ?thesis
    using spi_round [OF 2 _ _ assms, of ?p sb] 1 by (simp add: send_start_message_def start_raw BSL_UART_PACKET_def)
qed

lemma end_round:
  assumes "flowing 6 (Suc k) c" "rx c = reply @ rest" "length reply = 6"
  shows "\<exists>c'. send_end_message 1 sb c = Some (if acked reply then 0 else -1, sb, c') \<and>
     tx c' = tx c @ spi_header 4 BSL_CMD_END_DATA [] @ [0, 0, 0, 0] \<and> rx c' = rest \<and> flowing 6 k c'"
proof -
  have 1: "spi_packet 4 BSL_CMD_END_DATA 8 0 raw_buffer32 = Some (spi_header 4 BSL_CMD_END_DATA [] @ replicate 24 0)"
    using spi_packet_eq [of 0 raw_buffer32 4 BSL_CMD_END_DATA] by (simp add: raw_buffer32_def)
  let ?p = "spi_header 4 BSL_CMD_END_DATA [] @ to_le32 0 @ replicate 20 0"
  have 2: "put32 8 0 (spi_header 4 BSL_CMD_END_DATA [] @ replicate 24 0) = Some ?p"
    by (simp add: buf_write_def)
  have 3: "buf_read 0 12 ?p = Some (spi_header 4 BSL_CMD_END_DATA [] @ [0, 0, 0, 0])"
    by (simp add: buf_read_def to_le32_def)
  show ?thesis
    using spi_round [OF 3 _ _ assms, of ?p sb] 1 2 by (simp add: send_end_message_def BSL_UART_PACKET_def)
qed

lemma data_round:
  assumes "0 < n" "n + 8 \<le> 40000" "n + 8 \<le> length buffer"
    and "flowing 6 (Suc k) c" "rx c = reply @ rest" "length reply = 6"
  shows "\<exists>c'. send_data_message buffer n 1 sb c =
      Some (if acked reply then 0 else -1,
            spi_header (word_of_nat n) BSL_CMD_MIDST_DATA (take n (drop 8 buffer)) @ drop 8 buffer, sb, c') \<and>
     tx c' = tx c @ spi_header (word_of_nat n) BSL_CMD_MIDST_DATA (take n (drop 8 buffer)) @ take n (drop 8 buffer) \<and>
     rx c' = rest \<and> flowing 6 k c'"
proof -
  let ?d = "take n (drop 8 buffer)"
  let ?b = "spi_header (word_of_nat n) BSL_CMD_MIDST_DATA ?d @ drop 8 buffer"
  have 1: "buf_read 0 (n + 8) ?b = Some (spi_header (word_of_nat n) BSL_CMD_MIDST_DATA ?d @ ?d)"
    using assms(3) by (simp add: buf_read_def)
  obtain c' where "exchange True (Suc 0) ?b (n + 8) raw_buffer32 sb c = Some (if acked reply then 0 else -1, sb, c')"
    "tx c' = tx c @ spi_header (word_of_nat n) BSL_CMD_MIDST_DATA ?d @ ?d" "rx c' = rest" "flowing 6 k c'"
    using spi_round [OF 1 _ assms(2,4,5,6), of raw_buffer32 sb] by (auto simp: raw_buffer32_def)
  then show ?thesis
    using spi_packet_eq [OF assms(3), of "word_of_nat n" BSL_CMD_MIDST_DATA] assms(1)
    by (simp add: send_data_message_def BSL_UART_PACKET_def)
qed

section \<open>What the modem receives\<close>

text \<open>The image cut into blocks of 32 KiB, the last one padded with 0xFF, each behind its header.\<close>

definition block_frame :: "bytes \<Rightarrow> bytes" where
  "block_frame d = spi_header (word_of_nat HS_PACKET_SIZE) BSL_CMD_MIDST_DATA d @ d"

definition blocks_of :: "nat \<Rightarrow> nat" where
  "blocks_of n = (n + HS_PACKET_SIZE - 1) div HS_PACKET_SIZE"

definition pad_image :: "bytes \<Rightarrow> bytes" where
  "pad_image d = d @ replicate (blocks_of (length d) * HS_PACKET_SIZE - length d) 0xFF"

fun block_frames :: "nat \<Rightarrow> bytes \<Rightarrow> bytes" where
  "block_frames 0 d = []"
| "block_frames (Suc n) d = block_frame (take HS_PACKET_SIZE d) @ block_frames n (drop HS_PACKET_SIZE d)"

lemma blocks_of_small: "0 < n \<Longrightarrow> n \<le> HS_PACKET_SIZE \<Longrightarrow> blocks_of n = 1"
  by (simp add: blocks_of_def HS_PACKET_SIZE_def)

lemma blocks_of_step:
  assumes "HS_PACKET_SIZE \<le> n"
  shows "blocks_of n = Suc (blocks_of (n - HS_PACKET_SIZE))"
proof -
  obtain m where m: "n = HS_PACKET_SIZE + m" using assms le_Suc_ex by blast
  show ?thesis by (simp add: blocks_of_def HS_PACKET_SIZE_def m)
qed

lemma pad_image_small:
  "0 < length d \<Longrightarrow> length d \<le> HS_PACKET_SIZE \<Longrightarrow> pad_image d = d @ replicate (HS_PACKET_SIZE - length d) 0xFF"
  by (simp add: pad_image_def blocks_of_small)

lemma pad_image_step:
  assumes "HS_PACKET_SIZE \<le> length d"
  shows "take HS_PACKET_SIZE (pad_image d) = take HS_PACKET_SIZE d"
    and "drop HS_PACKET_SIZE (pad_image d) = pad_image (drop HS_PACKET_SIZE d)"
proof -
  show "take HS_PACKET_SIZE (pad_image d) = take HS_PACKET_SIZE d" using assms by (simp add: pad_image_def)
  have "Suc b * H - l = b * H - (l - H)" if "H \<le> l" for b H l :: nat using that by simp
  then show "drop HS_PACKET_SIZE (pad_image d) = pad_image (drop HS_PACKET_SIZE d)"
    using assms by (simp add: pad_image_def blocks_of_step [OF assms])
qed

lemma length_pad_image: "length (pad_image d) = blocks_of (length d) * HS_PACKET_SIZE"
  using le_round_up [of HS_PACKET_SIZE "length d"] by (simp add: pad_image_def blocks_of_def HS_PACKET_SIZE_def)

text \<open>One round of the block loop, full and partial.\<close>

definition file_ready :: "nat \<Rightarrow> chan \<Rightarrow> bool" where
  "file_ready k f \<longleftrightarrow> (\<forall>r \<in> set (rd_sched f). 1 \<le> r) \<and> k * (HS_PACKET_SIZE + 1) \<le> length (rd_sched f)"

lemma fill_block:
  assumes "file_ready (Suc k) f" and "length buf = HS_PACKET_SIZE + 128"
  shows "\<exists>f'. fill_loop buf 8 HS_PACKET_SIZE f =
       Some (take 8 buf @ take HS_PACKET_SIZE (rx f) @ drop (8 + min HS_PACKET_SIZE (length (rx f))) buf, f') \<and>
     rx f' = drop HS_PACKET_SIZE (rx f) \<and> file_ready k f'"
proof -
  have p: "\<forall>r \<in> set (rd_sched f). 1 \<le> r" and l: "Suc k * (HS_PACKET_SIZE + 1) \<le> length (rd_sched f)"
    using assms(1) by (auto simp: file_ready_def)
  obtain f' j where f': "fill_loop buf 8 HS_PACKET_SIZE f =
       Some (take 8 buf @ take HS_PACKET_SIZE (rx f) @ drop (8 + min HS_PACKET_SIZE (length (rx f))) buf, f')"
     "rx f' = drop HS_PACKET_SIZE (rx f)" "j \<le> Suc HS_PACKET_SIZE" "rd_sched f' = drop j (rd_sched f)"
    using fill_loop_flow [OF p, of HS_PACKET_SIZE 8 buf] l assms(2) by (auto simp: HS_PACKET_SIZE_def)
  have "file_ready k f'"
    unfolding file_ready_def using f'(3,4) l flowing_drop [OF p, of j] by auto
  then show ?thesis using f' by blast
qed

lemma pad_block_result:
  assumes "n \<le> HS_PACKET_SIZE" and "length buf = HS_PACKET_SIZE + 128"
  shows "\<exists>b. pad_block (int n) buf = Some b \<and> length b = HS_PACKET_SIZE + 128 \<and>
    take HS_PACKET_SIZE (drop 8 b) = take n (drop 8 buf) @ replicate (HS_PACKET_SIZE - n) 0xFF"
  using assms by (simp add: pad_block_def buf_write_def drop_take)

lemma data_block:
  assumes "length b = HS_PACKET_SIZE + 128"
    and "flowing 6 (Suc k) c" "rx c = reply @ rest" "length reply = 6"
  shows "\<exists>b' c'. send_data_message b HS_PACKET_SIZE 1 sb c = Some (if acked reply then 0 else -1, b', sb, c') \<and>
     length b' = HS_PACKET_SIZE + 128 \<and>
     tx c' = tx c @ block_frame (take HS_PACKET_SIZE (drop 8 b)) \<and> rx c' = rest \<and> flowing 6 k c'"
proof -
  have h: "0 < HS_PACKET_SIZE" "HS_PACKET_SIZE + 8 \<le> 40000" by (simp_all add: HS_PACKET_SIZE_def)
  show ?thesis using data_round [OF h _ assms(2-4), of b sb] assms(1) unfolding block_frame_def by force
qed

lemma last_block:
  assumes "0 < r" "r \<le> HS_PACKET_SIZE" "r \<le> length (rx f)" "count = i + 1" "count \<le> 32769"
    and "length buf = HS_PACKET_SIZE + 128" "file_ready 1 f"
    and "flowing 6 (Suc k) c" "rx c = reply @ rest" "length reply = 6"
  shows "\<exists>buf' f' c'. block_loop count i (int r) buf f sb c = Some (buf', f', sb, c') \<and>
     length buf' = HS_PACKET_SIZE + 128 \<and>
     tx c' = tx c @ block_frame (pad_image (take r (rx f))) \<and> rx c' = rest \<and> flowing 6 k c'"
proof -
  let ?H = HS_PACKET_SIZE
  obtain f' where f': "fill_loop buf 8 ?H f =
       Some (take 8 buf @ take ?H (rx f) @ drop (8 + min ?H (length (rx f))) buf, f')"
    using fill_block [of 0 f buf] assms(6,7) by auto
  define b1 where "b1 = take 8 buf @ take ?H (rx f) @ drop (8 + min ?H (length (rx f))) buf"
  have l1: "length b1 = ?H + 128" using assms(6) by (auto simp: b1_def)
  have t1: "take r (drop 8 b1) = take r (rx f)" using assms(2,3,6) by (simp add: b1_def)
  obtain b2 i2 where b2: "(if int r < int ?H then do { buf \<leftarrow> pad_block (int r) b1; Some (buf, int ?H, 0) }
      else Some (b1, i, int r - int ?H)) = Some (b2, i2, 0)"
      "length b2 = ?H + 128" "take ?H (drop 8 b2) = pad_image (take r (rx f))" "count \<le> i2 + 1"
  proof (cases "r < ?H")
    case True
    obtain b where "pad_block (int r) b1 = Some b" "length b = ?H + 128"
      "take ?H (drop 8 b) = take r (drop 8 b1) @ replicate (?H - r) 0xFF"
      using pad_block_result [OF assms(2) l1] by auto
    then show ?thesis using that [of b "int ?H"] True t1 assms(1,2,3,5)
      by (simp add: pad_image_small HS_PACKET_SIZE_def)
  next
    case False
    then have "r = ?H" using assms(2) by simp
    then show ?thesis using that [of b1 i] t1 l1 assms(1,3,4) by (simp add: pad_image_small)
  qed
  obtain b3 c' where c': "send_data_message b2 ?H 1 sb c = Some (if acked reply then 0 else -1, b3, sb, c')"
     "length b3 = ?H + 128" "tx c' = tx c @ block_frame (take ?H (drop 8 b2))" "rx c' = rest" "flowing 6 k c'"
    using data_block [OF b2(2) assms(8-10), of sb] by blast
  have "block_loop count i (int r) buf f sb c = block_loop count (i2 + 1) 0 b3 f' sb c'"
    using assms(4) f' b2(1) c'(1) by (subst block_loop.simps) (simp add: b1_def [symmetric])
  also have "\<dots> = Some (b3, f', sb, c')" using b2(4) by (subst block_loop.simps) simp
  finally show ?thesis using c' b2(3) by metis
qed

lemma full_block:
  assumes "HS_PACKET_SIZE < r" "HS_PACKET_SIZE \<le> length (rx f)" "i < count"
    and "length buf = HS_PACKET_SIZE + 128" "file_ready (Suc m) f"
    and "flowing 6 (Suc k) c" "rx c = reply @ rest" "length reply = 6"
  shows "\<exists>buf' f' c'. block_loop count i (int r) buf f sb c =
       block_loop count (i + 1) (int (r - HS_PACKET_SIZE)) buf' f' sb c' \<and>
     length buf' = HS_PACKET_SIZE + 128 \<and> rx f' = drop HS_PACKET_SIZE (rx f) \<and> file_ready m f' \<and>
     tx c' = tx c @ block_frame (take HS_PACKET_SIZE (rx f)) \<and> rx c' = rest \<and> flowing 6 k c'"
proof -
  let ?H = HS_PACKET_SIZE
  define b1 where "b1 = take 8 buf @ take ?H (rx f) @ drop (8 + min ?H (length (rx f))) buf"
  obtain f' where f': "fill_loop buf 8 ?H f = Some (b1, f')" "rx f' = drop ?H (rx f)" "file_ready m f'"
    using fill_block [OF assms(5,4)] by (auto simp: b1_def)
  have t: "take ?H (drop 8 b1) = take ?H (rx f)" using assms(2,4) by (simp add: b1_def)
  have l: "length b1 = ?H + 128" using assms(2,4) by (simp add: b1_def)
  obtain b3 c' where c': "send_data_message b1 ?H 1 sb c = Some (if acked reply then 0 else -1, b3, sb, c')"
     "length b3 = ?H + 128" "tx c' = tx c @ block_frame (take ?H (rx f))" "rx c' = rest" "flowing 6 k c'"
    using data_block [OF l assms(6-8), of sb] t by metis
  have "block_loop count i (int r) buf f sb c = block_loop count (i + 1) (int (r - ?H)) b3 f' sb c'"
    using assms(1,3) f'(1) c'(1) by (subst block_loop.simps) (simp add: of_nat_diff)
  then show ?thesis using c' f' by metis
qed

lemma block_loop_frames:
  assumes "0 < r" "r \<le> length (rx f)" "count = i + int (blocks_of r)" "count \<le> 32769"
    and "length buf = HS_PACKET_SIZE + 128" "file_ready (blocks_of r) f"
    and "flowing 6 (blocks_of r + k) c" "rx c = concat replies @ rest"
    and "length replies = blocks_of r" "\<forall>x \<in> set replies. length x = 6"
  shows "\<exists>buf' f' c'. block_loop count i (int r) buf f sb c = Some (buf', f', sb, c') \<and>
     length buf' = HS_PACKET_SIZE + 128 \<and>
     tx c' = tx c @ block_frames (blocks_of r) (pad_image (take r (rx f))) \<and> rx c' = rest \<and> flowing 6 k c'"
  using assms
proof (induction r arbitrary: f i buf c replies rule: less_induct)
  case (less r)
  let ?H = HS_PACKET_SIZE
  show ?case
  proof (cases "r \<le> ?H")
    case True
    have b: "blocks_of r = 1" using less.prems(1) True by (rule blocks_of_small)
    obtain reply where rs: "replies = [reply]" "length reply = 6"
      using less.prems(9,10) b by (cases replies) auto
    have c: "count = i + 1" "file_ready 1 f" "flowing 6 (Suc k) c" "rx c = reply @ rest"
      using less.prems b rs by simp_all
    have p: "length (pad_image (take r (rx f))) = ?H"
      using length_pad_image [of "take r (rx f)"] less.prems(2) b by simp
    show ?thesis
      using last_block [OF less.prems(1) True less.prems(2) c(1) less.prems(4,5) c(2-4) rs(2), of sb] p
      by (simp add: b)
  next
    case False
    have b: "blocks_of r = Suc (blocks_of (r - ?H))" using False by (intro blocks_of_step) simp
    obtain reply rs where rs: "replies = reply # rs" "length reply = 6" "length rs = blocks_of (r - ?H)"
      "\<forall>x \<in> set rs. length x = 6"
      using less.prems(9,10) b by (cases replies) auto
    have pre: "?H < r" "?H \<le> length (rx f)" "i < count" "file_ready (Suc (blocks_of (r - ?H))) f"
      "flowing 6 (Suc (blocks_of (r - ?H) + k)) c" "rx c = reply @ (concat rs @ rest)"
      using False less.prems b rs by simp_all
    obtain buf1 f1 c1 where s: "block_loop count i (int r) buf f sb c =
         block_loop count (i + 1) (int (r - ?H)) buf1 f1 sb c1"
       "length buf1 = ?H + 128" "rx f1 = drop ?H (rx f)" "file_ready (blocks_of (r - ?H)) f1"
       "tx c1 = tx c @ block_frame (take ?H (rx f))" "rx c1 = concat rs @ rest"
       "flowing 6 (blocks_of (r - ?H) + k) c1"
      using full_block [OF pre(1-3) less.prems(5) pre(4-6) rs(2), of sb] by blast
    have d: "take ?H (pad_image (take r (rx f))) = take ?H (rx f)"
      "drop ?H (pad_image (take r (rx f))) = pad_image (take (r - ?H) (drop ?H (rx f)))"
      using pad_image_step [of "take r (rx f)"] False less.prems(2) by (simp_all add: drop_take min_def)
    have "\<exists>buf' f' c'. block_loop count (i + 1) (int (r - ?H)) buf1 f1 sb c1 = Some (buf', f', sb, c') \<and>
       length buf' = ?H + 128 \<and>
       tx c' = tx c1 @ block_frames (blocks_of (r - ?H)) (pad_image (take (r - ?H) (rx f1))) \<and>
       rx c' = rest \<and> flowing 6 k c'"
      using False less.prems(2-4) b s rs
      by (intro less.IH) (simp_all add: HS_PACKET_SIZE_def)
    then show ?thesis using s(1,3,5) d by (simp add: b)
  qed
qed

lemma block_count_small:
  assumes "unat n \<le> 2 ^ 30"
  shows "block_count n = Some (int (blocks_of (unat n)))"
proof -
  define m where "m = unat n"
  have s: "sint n = int m" and m: "m \<le> 1073741824" using assms by (simp_all add: sint_small m_def)
  have "int m + 32768 - 1 = int (m + 32768 - 1)" by simp
  then have "(int m + 32768 - 1) sdiv 32768 = int ((m + 32768 - 1) div 32768)"
    by (simp only: signed_divide_int_def) (simp add: sgn_if zdiv_int)
  then show ?thesis using m
    unfolding block_count_def Let_def s blocks_of_def HS_PACKET_SIZE_def m_def [symmetric] by simp
qed

lemma blocks_of_bound: "n \<le> 2 ^ 30 \<Longrightarrow> blocks_of n \<le> 32768"
proof -
  assume "n \<le> 2 ^ 30"
  then have "blocks_of n \<le> (2 ^ 30 + HS_PACKET_SIZE - 1) div HS_PACKET_SIZE"
    unfolding blocks_of_def by (intro div_le_mono) simp
  then show ?thesis by (simp add: HS_PACKET_SIZE_def)
qed

text \<open>The bytes on the wire for one image.\<close>

definition image_frames :: "u32 \<Rightarrow> bytes \<Rightarrow> bytes" where
  "image_frames addr img =
     (let n = blocks_of (length img);
          p = start_payload addr (word_of_nat (n * HS_PACKET_SIZE))
      in spi_header 8 BSL_CMD_START_DATA p @ p @ block_frames n (pad_image img) @
         spi_header 4 BSL_CMD_END_DATA [] @ [0, 0, 0, 0])"

lemma download_image_frames:
  assumes p: "image_path info = Some path" "fs path = Some f"
    and n: "n = unat (image_size info)" "0 < n" "n \<le> 2 ^ 30" "n \<le> length (rx f)"
    and f: "file_ready (blocks_of n) f" "length (test_buffer st) = HS_PACKET_SIZE + 128"
    and c: "flowing 6 (blocks_of n + 2 + k) c" "rx c = r1 @ concat replies @ r2 @ rest"
    and r: "length replies = blocks_of n" "\<forall>x \<in> set replies. length x = 6" "length r1 = 6" "length r2 = 6"
    and a: "acked r1"
  shows "\<exists>st' c'. download_image fs info st c = Some (if acked r2 then DL_SUCCESS else DL_FAILURE, st', c') \<and>
     tx c' = tx c @ image_frames (address info) (take n (rx f)) \<and> rx c' = rest \<and> flowing 6 k c' \<and>
     download_image_info st' = download_image_info st \<and> length (test_buffer st') = HS_PACKET_SIZE + 128"
proof -
  let ?len = "word_of_nat (blocks_of n * HS_PACKET_SIZE) :: u32" and ?b = "blocks_of n"
  have cnt: "block_count (image_size info) = Some (int ?b)" using block_count_small n by simp
  have sz: "sint (image_size info) = int n" using n by (simp add: sint_small)
  have w: "word_of_int (int ?b * int HS_PACKET_SIZE) = ?len" by (metis of_int_of_nat_eq of_nat_mult)
  have fl: "flowing 6 (Suc (?b + Suc k)) c" using c(1) by simp
  obtain c1 where 1: "send_start_message ?len (address info) 1 (send_buffer st) c = Some (0, send_buffer st, c1)"
     "tx c1 = tx c @ spi_header 8 BSL_CMD_START_DATA (start_payload (address info) ?len) @ start_payload (address info) ?len"
     "rx c1 = concat replies @ r2 @ rest" "flowing 6 (?b + Suc k) c1"
    using start_round [OF fl c(2) r(3), of ?len "address info" "send_buffer st"] a by auto
  obtain buf f' c2 where 2: "block_loop (int ?b) 0 (int n) (test_buffer st) f (send_buffer st) c1 = Some (buf, f', send_buffer st, c2)"
     "length buf = HS_PACKET_SIZE + 128"
     "tx c2 = tx c1 @ block_frames ?b (pad_image (take n (rx f)))" "rx c2 = r2 @ rest" "flowing 6 (Suc k) c2"
    using block_loop_frames [OF n(2,4) _ _ f(2,1) 1(4,3) r(1,2), of "int ?b" 0 "send_buffer st"]
      blocks_of_bound [OF n(3)] by auto
  obtain c3 where 3: "send_end_message 1 (send_buffer st) c2 = Some (if acked r2 then 0 else -1, send_buffer st, c3)"
     "tx c3 = tx c2 @ spi_header 4 BSL_CMD_END_DATA [] @ [0, 0, 0, 0]" "rx c3 = rest" "flowing 6 k c3"
    using end_round [OF 2(5,4) r(4)] by blast
  have "download_image fs info st c =
      Some (if acked r2 then DL_SUCCESS else DL_FAILURE, st\<lparr>test_buffer := buf, send_buffer := send_buffer st\<rparr>, c3)"
    unfolding download_image_def using p cnt sz w 1(1) 2(1) 3(1)
    by (simp add: DL_SUCCESS_def DL_FAILURE_def)
  then show ?thesis
    using 1(2) 2(2,3) 3(2-4) n(4) by (simp add: image_frames_def Let_def)
qed

section \<open>The loader over the UART\<close>

text \<open>Acknowledges of eight bytes whose CRC bytes need no escape.\<close>

definition is_ack :: "bytes \<Rightarrow> bool" where
  "is_ack a \<longleftrightarrow> (\<exists>x y. a = ack_frame x y \<and> x \<notin> {0x7D, 0x7E} \<and> y \<noteq> 0x7E)"

lemma length_is_ack: "is_ack a \<Longrightarrow> length a = 8"
  by (auto simp: is_ack_def ack_frame_def)

lemma uart_round:
  assumes f: "buf_read 4 n pkt = Some f" "length f \<le> 1000"
    and c: "flowing 8 (Suc k) c" "rx c = reply @ rest" "is_ack reply" and raw: "8 \<le> length raw"
    and sb: "length sb = 4000"
  shows "\<exists>sb' c'. exchange True 0 pkt n raw sb c = Some (0, sb', c') \<and> length sb' = 4000 \<and>
    tx c' = tx c @ translate_packet f \<and> rx c' = rest \<and> flowing 8 k c'"
proof -
  let ?t = "translate_packet f"
  obtain w ws where ws: "wr_sched c = w # ws" "40000 \<le> w" "\<forall>w\<in>set ws. 40000 \<le> w" "k \<le> length ws"
    using c(1) by (cases "wr_sched c") (auto simp: flowing_def)
  have lt: "length ?t \<le> 4000" using translate_body_length(2) [of f] f(2) by (simp add: translate_packet_def)
  have lr: "length reply = 8" using length_is_ack c(3) .
  have pos: "\<forall>r \<in> set (rd_sched c). 1 \<le> r" and len: "Suc k * 8 \<le> length (rd_sched c)"
    using c(1) by (auto simp: flowing_def)
  have rdy: "ready c (length ?t) reply"
    unfolding ready_def using ws lt c(2) lr sum_list_ge_length [OF pos] len by simp
  obtain x y where a: "reply = ack_frame x y" "x \<notin> {0x7D, 0x7E}" "y \<noteq> 0x7E" using c(3) by (auto simp: is_ack_def)
  obtain sb' c' where x: "exchange True 0 pkt n raw sb c = Some (0, sb', c')"
    "tx c' = tx c @ ?t" "rx c' = drop 8 (rx c)" "length sb' = 4000"
    using exchange_uart_ack [OF f sb raw rdy [unfolded a(1)] a(2,3)] by blast
  define sb1 where "sb1 = ?t @ drop (length ?t) sb"
  let ?c = "c\<lparr>wr_sched := ws, tx := tx c @ ?t\<rparr>"
  have "write_loop sb1 (length ?t) c = Some (int (length ?t), ?c)"
    using write_loop_full [OF ws(1), of "length ?t" sb1] ws(2) lt sb by (simp add: sb1_def)
  then have t: "transmit 0 pkt n sb c = Some (int (length ?t), sb1, ?c)"
    using f lt sb by (simp add: transmit_def buf_write_def sb1_def)
  have nz: "0 < length ?t" by (simp add: translate_packet_def)
  obtain rv raw' o' where r: "read_loop raw 0 8 ?c = Some (rv, raw', o', c')"
    using x(1) t nz by (auto simp: exchange_def bind_eq_Some_conv split: if_splits)
  have "\<exists>j\<le>8. rd_sched c' = drop j (rd_sched ?c)"
    by (rule read_loop_flow [OF r]) (use pos c(2) lr in simp_all)
  then obtain j where j: "j \<le> 8" "rd_sched c' = drop j (rd_sched c)" by auto
  have "flowing 8 k c'"
    unfolding flowing_def using j len ws read_loop_sched [OF r] flowing_drop [OF pos, of j] by auto
  then show ?thesis using x c(2) lr by auto
qed

lemma uart_message_round:
  assumes "length d + 10 \<le> length b" and "take (length d) (drop 8 b) = d" and "length d \<le> 990"
    and c: "flowing 8 (Suc k) c" "rx c = reply @ rest" "is_ack reply" and raw: "8 \<le> length raw"
    and sb: "length sb = 4000"
  shows "\<exists>b' sb' c'. uart_crc_packet msg (length d) b = Some (length d + 6, b') \<and> length b' = length b \<and>
     exchange True 0 b' (length d + 6) (if own then b' else raw) sb c = Some (0, sb', c') \<and> length sb' = 4000 \<and>
     tx c' = tx c @ translate_packet (uart_frame msg d) \<and> rx c' = rest \<and> flowing 8 k c'"
proof -
  obtain b' where b': "uart_crc_packet msg (length d) b = Some (length d + 6, b')"
     "buf_read 4 (length d + 6) b' = Some (uart_frame msg d)" "length b' = length b"
    using uart_crc_packet_frame [OF assms(1,2), of msg] by blast
  have l: "length (uart_frame msg d) \<le> 1000" "8 \<le> length (if own then b' else raw)"
    using assms(1,3) raw b'(3) by simp_all
  show ?thesis using uart_round [OF b'(2) l(1) c l(2) sb] b' by blast
qed

lemma fdl_start_round:
  assumes "flowing 8 (Suc k) c" "rx c = reply @ rest" "is_ack reply" "length sb = 4000"
  shows "\<exists>sb' c'. send_start_message len addr 0 sb c = Some (0, sb', c') \<and> length sb' = 4000 \<and>
     tx c' = tx c @ translate_packet (uart_frame BSL_CMD_START_DATA (start_payload addr len)) \<and>
     rx c' = rest \<and> flowing 8 k c'"
proof -
  have l: "length (start_payload addr len) = 8" by (simp add: start_payload_def)
  show ?thesis
    using uart_message_round [of "start_payload addr len" "replicate 8 0 @ start_payload addr len @ replicate 16 0",
        OF _ _ _ assms(1-3), of "replicate 8 0" sb BSL_CMD_START_DATA True] l assms(4)
    by (auto simp: send_start_message_def start_raw BSL_UART_PACKET_def)
qed

lemma fdl_end_round:
  assumes "flowing 8 (Suc k) c" "rx c = reply @ rest" "is_ack reply" "length sb = 4000"
  shows "\<exists>sb' c'. send_end_message 0 sb c = Some (0, sb', c') \<and> length sb' = 4000 \<and>
     tx c' = tx c @ translate_packet (uart_frame BSL_CMD_END_DATA []) \<and> rx c' = rest \<and> flowing 8 k c'"
  using uart_message_round [of "[]" raw_buffer32, OF _ _ _ assms(1-3), of "replicate 8 0" sb BSL_CMD_END_DATA True] assms(4)
  by (auto simp: send_end_message_def BSL_UART_PACKET_def raw_buffer32_def)

lemma fdl_exec_round:
  assumes "flowing 8 (Suc k) c" "rx c = reply @ rest" "is_ack reply" "length sb = 4000"
  shows "\<exists>sb' c'. send_exec_message addr 0 sb c = Some (0, sb', c') \<and> length sb' = 4000 \<and>
     tx c' = tx c @ translate_packet (uart_frame BSL_CMD_EXEC_DATA (rev (to_le32 addr))) \<and>
     rx c' = rest \<and> flowing 8 k c'"
  using uart_message_round [of "rev (to_le32 addr)" "replicate 8 0 @ rev (to_le32 addr) @ replicate 20 0",
      OF _ _ _ assms(1-3), of "replicate 8 0" sb BSL_CMD_EXEC_DATA True] assms(4)
  by (auto simp: send_exec_message_def start_raw BSL_UART_PACKET_def)

lemma fdl_data_round:
  assumes "flowing 8 (Suc k) c" "rx c = reply @ rest" "is_ack reply" "length sb = 4000"
    and "FDL_PACKET_SIZE \<le> length buffer"
  shows "\<exists>sb' c'. send_data_message buffer FDL_PACKET_SIZE 0 sb c = Some (0, buffer, sb', c') \<and> length sb' = 4000 \<and>
     tx c' = tx c @ translate_packet (uart_frame BSL_CMD_MIDST_DATA (take FDL_PACKET_SIZE buffer)) \<and>
     rx c' = rest \<and> flowing 8 k c'"
proof -
  let ?d = "take FDL_PACKET_SIZE buffer"
  have l: "length ?d = 256" using assms(5) by (simp add: FDL_PACKET_SIZE_def)
  have r: "buf_read 0 FDL_PACKET_SIZE buffer = Some ?d" using assms(5) by (simp add: buf_read_def)
  have w: "buf_write 8 ?d (replicate 300 0) = Some (replicate 8 0 @ ?d @ replicate 36 0)"
    using l by (simp add: buf_write_def)
  show ?thesis
    using uart_message_round [of ?d "replicate 8 0 @ ?d @ replicate 36 0", OF _ _ _ assms(1-3),
        of raw_buffer32 sb BSL_CMD_MIDST_DATA False] l assms(4) r w
    by (auto simp: send_data_message_def BSL_UART_PACKET_def raw_buffer32_def FDL_PACKET_SIZE_def)
qed

fun fdl_frames :: "nat \<Rightarrow> bytes \<Rightarrow> bytes" where
  "fdl_frames 0 d = []"
| "fdl_frames (Suc n) d =
     translate_packet (uart_frame BSL_CMD_MIDST_DATA (take FDL_PACKET_SIZE d)) @ fdl_frames n (drop FDL_PACKET_SIZE d)"

lemma fdl_loop_frames:
  assumes "m * FDL_PACKET_SIZE \<le> length buffer" "length sb = 4000"
    and "flowing 8 (m + k) c" "rx c = concat acks @ rest" "length acks = m" "\<forall>a \<in> set acks. is_ack a"
  shows "\<exists>sb' c'. fdl_loop (int m * int FDL_PACKET_SIZE) buffer sb c = Some (DL_SUCCESS, sb', c') \<and> length sb' = 4000 \<and>
     tx c' = tx c @ fdl_frames m buffer \<and> rx c' = rest \<and> flowing 8 k c'"
  using assms
proof (induction m arbitrary: buffer sb c acks)
  case 0
  then show ?case by (subst fdl_loop.simps) simp
next
  case (Suc m)
  obtain a as where as: "acks = a # as" "is_ack a" "length as = m" "\<forall>a \<in> set as. is_ack a"
    using Suc.prems(5,6) by (cases acks) auto
  have p: "flowing 8 (Suc (m + k)) c" "rx c = a @ (concat as @ rest)" "FDL_PACKET_SIZE \<le> length buffer"
    using Suc.prems as by simp_all
  obtain sb1 c1 where 1: "send_data_message buffer FDL_PACKET_SIZE 0 sb c = Some (0, buffer, sb1, c1)" "length sb1 = 4000"
     "tx c1 = tx c @ translate_packet (uart_frame BSL_CMD_MIDST_DATA (take FDL_PACKET_SIZE buffer))"
     "rx c1 = concat as @ rest" "flowing 8 (m + k) c1"
    using fdl_data_round [OF p(1,2) as(2) Suc.prems(2) p(3)] by blast
  have n: "int (Suc m) * int FDL_PACKET_SIZE \<noteq> 0"
    "int (Suc m) * int FDL_PACKET_SIZE - int FDL_PACKET_SIZE = int m * int FDL_PACKET_SIZE"
    by (simp_all add: FDL_PACKET_SIZE_def)
  have "m * FDL_PACKET_SIZE \<le> length (drop FDL_PACKET_SIZE buffer)" using Suc.prems(1) by simp
  from Suc.IH [OF this 1(2,5,4) as(3,4)]
  obtain sb' c' where 2: "fdl_loop (int m * int FDL_PACKET_SIZE) (drop FDL_PACKET_SIZE buffer) sb1 c1 = Some (DL_SUCCESS, sb', c')"
     "length sb' = 4000" "tx c' = tx c1 @ fdl_frames m (drop FDL_PACKET_SIZE buffer)" "rx c' = rest" "flowing 8 k c'"
    by blast
  have "fdl_loop (int (Suc m) * int FDL_PACKET_SIZE) buffer sb c = Some (DL_SUCCESS, sb', c')"
    using n 1(1) 2(1) by (subst fdl_loop.simps) (simp add: DL_FAILURE_def)
  then show ?case using 1(3) 2 by simp
qed

lemma fdl_loop_success:
  "fdl_loop n buffer sb c = Some (r, sb', c') \<Longrightarrow> r \<noteq> DL_FAILURE \<Longrightarrow> int FDL_PACKET_SIZE dvd n \<and> 0 \<le> n"
proof (induction n buffer sb c arbitrary: r sb' c' rule: fdl_loop.induct)
  case (1 n buffer sb c)
  show ?case
  proof (cases "n = 0")
    case False
    obtain r1 b1 sb1 c1 where s: "send_data_message buffer FDL_PACKET_SIZE 0 sb c = Some (r1, b1, sb1, c1)"
      and e: "(if r1 = DL_FAILURE then Some (r1, sb1, c1)
               else fdl_loop (n - int FDL_PACKET_SIZE) (drop FDL_PACKET_SIZE buffer) sb1 c1) = Some (r, sb', c')"
      using "1.prems"(1) False by (subst (asm) fdl_loop.simps) (auto simp: bind_eq_Some_conv)
    have "int FDL_PACKET_SIZE dvd n - int FDL_PACKET_SIZE \<and> 0 \<le> n - int FDL_PACKET_SIZE"
      using "1.IH" [OF False s refl refl refl] e "1.prems"(2) by (auto split: if_splits)
    then show ?thesis
      using dvd_add [of "int FDL_PACKET_SIZE" "n - int FDL_PACKET_SIZE" "int FDL_PACKET_SIZE"] by simp
  qed simp
qed

lemma load_loop_flow:
  assumes "\<forall>r \<in> set (rd_sched f). 1 \<le> r" and "n \<le> length (rd_sched f)" and "0 < n" and "n \<le> length (rx f)"
  shows "load_loop acc n f = Some (acc @ take n (rx f))"
  using assms
proof (induction acc n f rule: load_loop.induct)
  case (1 acc n f)
  obtain r rs where s: "rd_sched f = r # rs" using "1.prems"(2,3) by (cases "rd_sched f") auto
  have r: "1 \<le> r" using "1.prems"(1) s by simp
  define k where "k = min (nat r) n"
  let ?f = "f\<lparr>rd_sched := rs, rx := drop k (rx f)\<rparr>"
  have rd: "sys_read n f = Some (int k, take k (rx f), ?f)"
    using s r "1.prems"(4) by (simp add: sys_read_def Let_def k_def min.assoc [symmetric])
  have k: "0 < k" "k \<le> n" using r "1.prems"(3) by (auto simp: k_def)
  show ?case
  proof (cases "n - k > 0")
    case False
    then have "k = n" using k by simp
    then show ?thesis using rd k by (subst load_loop.simps) simp
  next
    case True
    have "load_loop (acc @ take k (rx f)) (n - k) ?f = Some ((acc @ take k (rx f)) @ take (n - k) (rx ?f))"
      using "1.IH" [OF rd refl refl] True k "1.prems" s by simp
    moreover have "take k (rx f) @ take (n - k) (drop k (rx f)) = take n (rx f)"
      using k by (metis le_add_diff_inverse take_add)
    ultimately show ?thesis using rd k True by (subst load_loop.simps) simp
  qed
qed

lemma fdl_frames_take: "m * FDL_PACKET_SIZE \<le> length d \<Longrightarrow> fdl_frames m (d @ e) = fdl_frames m d"
  by (induction m arbitrary: d) auto

text \<open>The bytes on the UART for the loader image.\<close>

definition fdl_stream :: "u32 \<Rightarrow> bytes \<Rightarrow> bytes" where
  "fdl_stream addr img =
     translate_packet (uart_frame BSL_CMD_START_DATA (start_payload addr (word_of_nat (length img)))) @
     fdl_frames (length img div FDL_PACKET_SIZE) img @
     translate_packet (uart_frame BSL_CMD_END_DATA []) @
     translate_packet (uart_frame BSL_CMD_EXEC_DATA (rev (to_le32 addr)))"

lemma download_fdl_frames:
  assumes p: "image_path (hd (download_image_info st)) = Some path" "fs path = Some f"
    and n: "unat (image_size (hd (download_image_info st))) = m * FDL_PACKET_SIZE" "0 < m"
       "m * FDL_PACKET_SIZE \<le> 2 ^ 30"
    and f: "\<forall>r \<in> set (rd_sched f). 1 \<le> r" "m * FDL_PACKET_SIZE \<le> length (rd_sched f)" "m * FDL_PACKET_SIZE \<le> length (rx f)"
    and sb: "length (send_buffer st) = 4000"
    and c: "flowing 8 (m + 3 + k) c" "rx c = concat acks @ rest" "length acks = m + 3" "\<forall>a \<in> set acks. is_ack a"
  shows "\<exists>st' c'. download_fdl fs junk st c = Some (DL_SUCCESS, st', c') \<and> rx c' = rest \<and> flowing 8 k c' \<and>
     tx c' = tx c @ fdl_stream (address (hd (download_image_info st))) (take (m * FDL_PACKET_SIZE) (rx f))"
proof -
  let ?i = "hd (download_image_info st)" and ?n = "m * FDL_PACKET_SIZE"
  have nz: "0 < ?n" using n(2) by (simp add: FDL_PACKET_SIZE_def)
  have sz: "image_size ?i = word_of_nat ?n" using arg_cong [OF n(1), of "word_of_nat :: nat \<Rightarrow> u32"] by (simp del: of_nat_mult)
  have si: "sint (image_size ?i) = int m * int FDL_PACKET_SIZE"
    using sint_small [of "image_size ?i"] n by simp
  have lt: "\<not> 0x7FFFFFFC \<le> image_size ?i" using n by (simp add: word_le_nat_alt)
  have lt2: "\<not> 0x80000000 \<le> image_size ?i" using lt by (simp add: word_le_nat_alt)
  have ld: "load_fdl2memory fs junk ?i = Some (Some (take ?n (rx f) @ take 4 junk))"
    using p lt lt2 n(1) load_loop_flow [OF f(1,2) nz f(3), of "[]"] by (simp add: load_fdl2memory_def)
  obtain a1 as where as: "acks = a1 # as" "length as = m + 2" using c(3) by (cases acks) auto
  obtain bs es where bs: "as = bs @ es" "length bs = m" "length es = 2"
    using as(2) that [of "take m as" "drop m as"] by simp
  obtain a2 a3 where es: "es = [a2, a3]" using bs(3) by (auto simp: numeral_2_eq_2 length_Suc_conv)
  have ak: "is_ack a1" "\<forall>a \<in> set bs. is_ack a" "is_ack a2" "is_ack a3" using c(4) as bs es by auto
  have c0: "flowing 8 (Suc (m + Suc (Suc k))) c" "rx c = a1 @ (concat bs @ (a2 @ (a3 @ rest)))"
    using c as bs es by (simp_all add: eval_nat_numeral)
  obtain sb1 c1 where 1: "send_start_message (image_size ?i) (address ?i) 0 (send_buffer st) c = Some (0, sb1, c1)"
     "length sb1 = 4000" "tx c1 = tx c @ translate_packet (uart_frame BSL_CMD_START_DATA (start_payload (address ?i) (image_size ?i)))"
     "rx c1 = concat bs @ (a2 @ (a3 @ rest))" "flowing 8 (m + Suc (Suc k)) c1"
    using fdl_start_round [OF c0 ak(1) sb] by blast
  have lb: "m * FDL_PACKET_SIZE \<le> length (take ?n (rx f) @ take 4 junk)" using f(3) by simp
  obtain sb2 c2 where 2: "fdl_loop (int m * int FDL_PACKET_SIZE) (take ?n (rx f) @ take 4 junk) sb1 c1 = Some (DL_SUCCESS, sb2, c2)"
     "length sb2 = 4000" "tx c2 = tx c1 @ fdl_frames m (take ?n (rx f) @ take 4 junk)" "rx c2 = a2 @ (a3 @ rest)"
     "flowing 8 (Suc (Suc k)) c2"
    using fdl_loop_frames [OF lb 1(2,5,4) bs(2) ak(2)] by blast
  obtain sb3 c3 where 3: "send_end_message 0 sb2 c2 = Some (0, sb3, c3)" "length sb3 = 4000"
     "tx c3 = tx c2 @ translate_packet (uart_frame BSL_CMD_END_DATA [])" "rx c3 = a3 @ rest" "flowing 8 (Suc k) c3"
    using fdl_end_round [OF 2(5,4) ak(3) 2(2)] by blast
  obtain sb4 c4 where 4: "send_exec_message (address ?i) 0 sb3 c3 = Some (0, sb4, c4)" "length sb4 = 4000"
     "tx c4 = tx c3 @ translate_packet (uart_frame BSL_CMD_EXEC_DATA (rev (to_le32 (address ?i))))" "rx c4 = rest" "flowing 8 k c4"
    using fdl_exec_round [OF 3(5,4) ak(4) 3(2)] by blast
  have "download_fdl fs junk st c = Some (DL_SUCCESS, st\<lparr>send_buffer := sb4\<rparr>, c4)"
    using ld 1(1) 2(1) 3(1) 4(1) si by (simp add: download_fdl_def DL_FAILURE_def DL_SUCCESS_def)
  moreover have "tx c4 = tx c @ fdl_stream (address ?i) (take ?n (rx f))"
  proof -
    have "length (take ?n (rx f)) = ?n" "?n div FDL_PACKET_SIZE = m"
      using f(3) by (simp_all add: FDL_PACKET_SIZE_def)
    moreover have "fdl_frames m (take ?n (rx f) @ take 4 junk) = fdl_frames m (take ?n (rx f))"
      using f(3) by (intro fdl_frames_take) simp
    ultimately show ?thesis
      using 1(3) 2(3) 3(3) 4(3) unfolding fdl_stream_def sz by (simp only: append_assoc)
  qed
  ultimately show ?thesis using 4(4,5) by blast
qed

lemma download_fdl_size:
  assumes "download_fdl fs junk st c = Some (r, st', c')" and "r \<noteq> DL_FAILURE"
  shows "FDL_PACKET_SIZE dvd unat (image_size (hd (download_image_info st)))"
proof -
  let ?n = "image_size (hd (download_image_info st))"
  obtain b where l: "load_fdl2memory fs junk (hd (download_image_info st)) = Some (Some b)"
    using assms by (auto simp: download_fdl_def Let_def bind_eq_Some_conv split: option.splits)
  obtain sb1 c1 rr sb2 c2 where "fdl_loop (sint ?n) b sb1 c1 = Some (rr, sb2, c2)" "rr \<noteq> DL_FAILURE"
    using assms unfolding download_fdl_def Let_def l
    by (clarsimp simp: bind_eq_Some_conv split: if_splits)
  then have "int FDL_PACKET_SIZE dvd sint ?n" using fdl_loop_success by blast
  moreover have "sint ?n = int (unat ?n)"
    using l by (intro sint_small)
      (auto simp: load_fdl2memory_def word_le_nat_alt split: option.splits if_splits)
  ultimately show ?thesis by (simp del: of_nat_unat)
qed

section \<open>All images\<close>

definition image_data :: "(string \<Rightarrow> chan option) \<Rightarrow> image_info \<Rightarrow> bytes" where
  "image_data fs e = take (unat (image_size e)) (rx (the (fs (the (image_path e)))))"

text \<open>The image file can be opened, holds the declared number of bytes (at most 1 GiB) and keeps
  delivering them.\<close>

definition servable :: "(string \<Rightarrow> chan option) \<Rightarrow> image_info \<Rightarrow> bool" where
  "servable fs e \<longleftrightarrow>
     (case Option.bind (image_path e) fs of
        None \<Rightarrow> False
      | Some f \<Rightarrow> 0 < unat (image_size e) \<and> unat (image_size e) \<le> 2 ^ 30 \<and> unat (image_size e) \<le> length (rx f) \<and>
                  file_ready (blocks_of (unat (image_size e))) f)"

definition exchanges :: "image_info \<Rightarrow> nat" where
  "exchanges e = blocks_of (unat (image_size e)) + 2"

definition acks6 :: "bytes list \<Rightarrow> bool" where
  "acks6 rs \<longleftrightarrow> (\<forall>r \<in> set rs. length r = 6 \<and> acked r)"

lemma acks6_append [simp]: "acks6 (xs @ ys) \<longleftrightarrow> acks6 xs \<and> acks6 ys"
  by (auto simp: acks6_def)

lemma acks6_Cons [simp]: "acks6 (x # xs) \<longleftrightarrow> length x = 6 \<and> acked x \<and> acks6 xs"
  by (auto simp: acks6_def)

lemma one_image:
  assumes e: "servable fs e" and st: "length (test_buffer st) = HS_PACKET_SIZE + 128"
    and c: "flowing 6 (exchanges e + k) c" "rx c = concat rs @ rest" "length rs = exchanges e" "acks6 rs"
  shows "\<exists>st' c'. download_image fs e st c = Some (DL_SUCCESS, st', c') \<and>
     tx c' = tx c @ image_frames (address e) (image_data fs e) \<and> rx c' = rest \<and> flowing 6 k c' \<and>
     download_image_info st' = download_image_info st \<and> length (test_buffer st') = HS_PACKET_SIZE + 128"
proof -
  let ?n = "unat (image_size e)"
  obtain path f where f: "image_path e = Some path" "fs path = Some f" "0 < ?n" "?n \<le> 2 ^ 30" "?n \<le> length (rx f)"
    "file_ready (blocks_of ?n) f"
    using e by (auto simp: servable_def split: option.splits) (auto simp: bind_eq_Some_conv)
  obtain r1 rs1 where 1: "rs = r1 # rs1" "length rs1 = blocks_of ?n + 1" using c(3) by (cases rs) (auto simp: exchanges_def)
  obtain ms r2 where 2: "rs1 = ms @ [r2]" "length ms = blocks_of ?n" using 1(2) by (cases rs1 rule: rev_cases) auto
  have r: "length r1 = 6" "length r2 = 6" "acked r1" "acked r2" "\<forall>x \<in> set ms. length x = 6"
    using c(4) unfolding 1 2 by (auto simp: acks6_def)
  have x: "rx c = r1 @ concat ms @ r2 @ rest" using c(2) 1 2 by simp
  show ?thesis
    using download_image_frames [where n = ?n and k = k and fs = fs and path = path, OF f(1,2) refl f(3-6) st c(1) [unfolded exchanges_def] x 2(2) r(5,1,2,3)] r(4) f(1,2)
    by (simp add: image_data_def)
qed

lemma images_loop_frames:
  assumes "length (test_buffer st) = HS_PACKET_SIZE + 128" "k + n \<le> length (download_image_info st)"
    and "\<forall>e \<in> set (take n (drop k (download_image_info st))). servable fs e"
    and "flowing 6 (sum_list (map exchanges (take n (drop k (download_image_info st)))) + j) c"
    and "rx c = concat rs @ rest" "acks6 rs"
    and "length rs = sum_list (map exchanges (take n (drop k (download_image_info st))))"
    and "n = 0 \<Longrightarrow> ret = Some DL_SUCCESS"
  shows "\<exists>st' c'. images_loop fs n k ret st c = Some (Some DL_SUCCESS, st', c') \<and>
     tx c' = tx c @ concat (map (\<lambda>e. image_frames (address e) (image_data fs e)) (take n (drop k (download_image_info st)))) \<and>
     rx c' = rest \<and> flowing 6 j c'"
  using assms
proof (induction n arbitrary: k ret st c rs)
  case 0
  then show ?case by simp
next
  case (Suc n)
  let ?t = "download_image_info st"
  have k: "k < length ?t" using Suc.prems(2) by simp
  then have t: "take (Suc n) (drop k ?t) = ?t ! k # take n (drop (Suc k) ?t)" by (simp add: Cons_nth_drop_Suc [symmetric])
  let ?m = "sum_list (map exchanges (take n (drop (Suc k) ?t)))"
  have l: "length rs = exchanges (?t ! k) + ?m" using Suc.prems(7) t by simp
  define as bs where "as = take (exchanges (?t ! k)) rs" and "bs = drop (exchanges (?t ! k)) rs"
  have ab: "rs = as @ bs" "length as = exchanges (?t ! k)" "length bs = ?m" using l by (simp_all add: as_def bs_def)
  have s: "servable fs (?t ! k)" "acks6 as" "acks6 bs" using Suc.prems(3,6) t ab(1) by simp_all
  have c0: "flowing 6 (exchanges (?t ! k) + (?m + j)) c" "rx c = concat as @ (concat bs @ rest)"
    using Suc.prems(4,5) t ab(1) by (simp_all add: add.assoc)
  obtain st1 c1 where 1: "download_image fs (?t ! k) st c = Some (DL_SUCCESS, st1, c1)"
    "tx c1 = tx c @ image_frames (address (?t ! k)) (image_data fs (?t ! k))" "rx c1 = concat bs @ rest" "flowing 6 (?m + j) c1"
    "download_image_info st1 = ?t" "length (test_buffer st1) = HS_PACKET_SIZE + 128"
    using one_image [OF s(1) Suc.prems(1) c0 ab(2) s(2)] by blast
  have "\<exists>st' c'. images_loop fs n (Suc k) (Some DL_SUCCESS) st1 c1 = Some (Some DL_SUCCESS, st', c') \<and>
     tx c' = tx c1 @ concat (map (\<lambda>e. image_frames (address e) (image_data fs e)) (take n (drop (Suc k) ?t))) \<and>
     rx c' = rest \<and> flowing 6 j c'"
    using Suc.IH [of st1 "Suc k" c1 bs "Some DL_SUCCESS"] 1 ab(3) s(3) Suc.prems(2,3) t by simp
  then show ?case using 1 k t by auto
qed

lemma exec_round:
  assumes "flowing 6 (Suc k) c" "rx c = reply @ rest" "length reply = 6"
  shows "\<exists>c'. send_exec_message addr 1 sb c = Some (if acked reply then 0 else -1, sb, c') \<and>
     tx c' = tx c @ spi_header 4 BSL_CMD_EXEC_DATA (rev (to_le32 addr)) @ rev (to_le32 addr) \<and>
     rx c' = rest \<and> flowing 6 k c'"
proof -
  let ?d = "rev (to_le32 addr)" and ?b = "replicate 8 0 @ rev (to_le32 addr) @ replicate 20 0 :: bytes"
  let ?p = "spi_header 4 BSL_CMD_EXEC_DATA ?d @ ?d @ replicate 20 0"
  have 1: "spi_packet 4 BSL_CMD_EXEC_DATA 8 4 ?b = Some ?p"
    using spi_packet_eq [of 4 ?b 4 BSL_CMD_EXEC_DATA] by simp
  have 2: "buf_read 0 12 ?p = Some (spi_header 4 BSL_CMD_EXEC_DATA ?d @ ?d)"
    by (simp add: buf_read_def)
  show ?thesis
    using spi_round [OF 2 _ _ assms, of ?p sb] 1 by (simp add: send_exec_message_def start_raw BSL_UART_PACKET_def)
qed

text \<open>The images that \<open>download_images\<close> sends: all but the loader.\<close>

definition spi_images :: "boot_state \<Rightarrow> image_info list" where
  "spi_images st = take (modem_images_count st - 1) (drop 1 (download_image_info st))"

lemma download_images_frames:
  assumes "length (test_buffer st) = HS_PACKET_SIZE + 128" "1 < modem_images_count st"
    "modem_images_count st \<le> length (download_image_info st)"
    and "\<forall>e \<in> set (spi_images st). servable fs e"
    and "flowing 6 (sum_list (map exchanges (spi_images st)) + 1) c"
    and "rx c = concat rs @ rest" "acks6 rs" "length rs = sum_list (map exchanges (spi_images st)) + 1"
  shows "\<exists>st' c'. download_images fs st c = Some (DL_SUCCESS, st', c') \<and>
     tx c' = tx c @ concat (map (\<lambda>e. image_frames (address e) (image_data fs e)) (spi_images st)) @
       spi_header 4 BSL_CMD_EXEC_DATA (rev (to_le32 0x80400000)) @ rev (to_le32 0x80400000) \<and>
     rx c' = rest"
proof -
  let ?m = "sum_list (map exchanges (spi_images st))" and ?n = "modem_images_count st - 1"
  obtain ms r where r: "rs = ms @ [r]" "length ms = ?m" using assms(8) by (cases rs rule: rev_cases) auto
  have a: "acks6 ms" "length r = 6" "acked r" using assms(7) r by (auto simp: acks6_def)
  have x: "rx c = concat ms @ (r @ rest)" using assms(6) r by simp
  have t: "take ?n (drop 1 (download_image_info st)) = spi_images st" by (simp add: spi_images_def)
  obtain st1 c1 where 1: "images_loop fs ?n 1 None st c = Some (Some DL_SUCCESS, st1, c1)"
    "tx c1 = tx c @ concat (map (\<lambda>e. image_frames (address e) (image_data fs e)) (spi_images st))"
    "rx c1 = r @ rest" "flowing 6 1 c1"
    using images_loop_frames [of st 1 ?n fs 1 c ms "r @ rest" None, unfolded t, OF assms(1) _ assms(4,5) x a(1) r(2)] assms(2,3)
    by auto
  obtain c2 where 2: "send_exec_message 0x80400000 1 (send_buffer st1) c1 = Some (if acked r then 0 else -1, send_buffer st1, c2)"
    "tx c2 = tx c1 @ spi_header 4 BSL_CMD_EXEC_DATA (rev (to_le32 0x80400000)) @ rev (to_le32 0x80400000)" "rx c2 = rest"
    using exec_round [OF _ 1(3) a(2), of 0 "0x80400000" "send_buffer st1"] 1(4) by auto
  show ?thesis using 1 2 a(3) by (simp add: download_images_def)
qed

section \<open>Properties of the downloads\<close>

text \<open>C3: Over SPI the modem receives, for every image of the table but the loader, in order: the
  START message with the address and the length rounded up to 32 KiB, the image's bytes padded with
  0xFF in blocks of 32 KiB, each behind a header with its checksums, and END; then EXEC for address
  0x80400000. The call returns 0. This holds for every split of the image files and of the replies
  over the reads.\<close>

theorem download_images_stream:
  assumes "length (test_buffer st) = HS_PACKET_SIZE + 128" and "1 < modem_images_count st"
    and "modem_images_count st \<le> length (download_image_info st)"
    and "\<forall>e \<in> set (spi_images st). servable fs e"
    and "flowing 6 (sum_list (map exchanges (spi_images st)) + 1) c"
    and "rx c = concat rs @ rest" and "acks6 rs" and "length rs = sum_list (map exchanges (spi_images st)) + 1"
  shows "\<exists>st' c'. download_images fs st c = Some (DL_SUCCESS, st', c') \<and>
     tx c' = tx c @ concat (map (\<lambda>e. image_frames (address e) (image_data fs e)) (spi_images st)) @
       spi_header 4 BSL_CMD_EXEC_DATA (rev (to_le32 0x80400000)) @ rev (to_le32 0x80400000) \<and>
     rx c' = rest"
  using assms by (rule download_images_frames)

definition demo_image_fs :: "string \<Rightarrow> chan option" where
  "demo_image_fs p = Some \<lparr>rx = [1, 2, 3, 4], tx = [], rd_sched = replicate 32769 1, wr_sched = []\<rparr>"

definition demo_boot :: boot_state where
  "demo_boot = boot_init\<lparr>download_image_info := [image_entry ''/fdl'' 0x3400 0x20000000, image_entry ''/m'' 3 0x80400000],
     modem_images_count := 2\<rparr>"

definition demo_link :: chan where
  "demo_link = \<lparr>rx = concat (replicate 4 [0, 0x80, 0, 0, 0, 0]) @ [], tx = [], rd_sched = replicate 24 2,
     wr_sched = replicate 4 40000\<rparr>"

lemma demo_boot_images: "spi_images demo_boot = [image_entry ''/m'' 3 0x80400000]"
  by (simp add: spi_images_def demo_boot_def)

lemma demo_exchanges: "sum_list (map exchanges (spi_images demo_boot)) = 3"
  by (simp add: demo_boot_images exchanges_def image_entry_def blocks_of_def HS_PACKET_SIZE_def)

theorem download_images_stream_witness:
  "\<exists>st' c'. download_images demo_image_fs demo_boot demo_link = Some (DL_SUCCESS, st', c') \<and>
     tx c' = tx demo_link @ concat (map (\<lambda>e. image_frames (address e) (image_data demo_image_fs e)) (spi_images demo_boot)) @
       spi_header 4 BSL_CMD_EXEC_DATA (rev (to_le32 0x80400000)) @ rev (to_le32 0x80400000) \<and>
     rx c' = []"
proof (rule download_images_stream [where rs = "replicate 4 [0, 0x80, 0, 0, 0, 0]"])
  show "\<forall>e \<in> set (spi_images demo_boot). servable demo_image_fs e"
    by (simp add: demo_boot_images servable_def image_entry_def demo_image_fs_def file_ready_def
        blocks_of_def HS_PACKET_SIZE_def)
  show "flowing 6 (sum_list (map exchanges (spi_images demo_boot)) + 1) demo_link"
    unfolding demo_exchanges by (simp add: flowing_def demo_link_def)
  show "acks6 (replicate 4 [0, 0x80, 0, 0, 0, 0])"
    by (simp add: acks6_def acked_def le16_def)
  show "length (replicate 4 [0, 0x80, 0, 0, 0, 0 :: u8]) = sum_list (map exchanges (spi_images demo_boot)) + 1"
    unfolding demo_exchanges by simp
qed (simp_all add: demo_boot_def boot_init_def demo_link_def)

text \<open>Finding. Whatever the modem answers to the data blocks, refusals included, \<open>download_image\<close>
  sends all of them and its result depends on the answers to START and END only: the test of the
  result of \<open>send_data_message\<close> is dead code behind \<open>continue\<close>.\<close>

theorem data_refusals_ignored:
  assumes "image_path info = Some path" and "fs path = Some f" and "n = unat (image_size info)"
    and "0 < n" and "n \<le> 2 ^ 30" and "n \<le> length (rx f)"
    and "file_ready (blocks_of n) f" and "length (test_buffer st) = HS_PACKET_SIZE + 128"
    and "flowing 6 (blocks_of n + 2 + k) c" and "rx c = r1 @ concat replies @ r2 @ rest"
    and "length replies = blocks_of n" and "\<forall>x \<in> set replies. length x = 6" and "length r1 = 6" and "length r2 = 6"
    and "acked r1"
  shows "\<exists>st' c'. download_image fs info st c = Some (if acked r2 then DL_SUCCESS else DL_FAILURE, st', c') \<and>
     tx c' = tx c @ image_frames (address info) (take n (rx f)) \<and> rx c' = rest"
  using download_image_frames [where fs = fs and path = path, OF assms] by blast

theorem data_refusals_ignored_witness:
  "\<exists>st' c'. download_image demo_image_fs (image_entry ''/m'' 3 0x80400000) demo_boot
       (demo_link\<lparr>rx := [0, 0x80, 0, 0, 0, 0] @ concat [[0, 0x81, 0, 0, 0, 0]] @ [0, 0x80, 0, 0, 0, 0] @ []\<rparr>) =
         Some (if acked [0, 0x80, 0, 0, 0, 0] then DL_SUCCESS else DL_FAILURE, st', c') \<and>
     tx c' = tx (demo_link\<lparr>rx := [0, 0x80, 0, 0, 0, 0] @ concat [[0, 0x81, 0, 0, 0, 0]] @ [0, 0x80, 0, 0, 0, 0] @ []\<rparr>) @
       image_frames (address (image_entry ''/m'' 3 0x80400000))
         (take 3 (rx \<lparr>rx = [1, 2, 3, 4], tx = [], rd_sched = replicate 32769 1, wr_sched = []\<rparr>)) \<and> rx c' = []"
  by (rule data_refusals_ignored [where path = "''/m''" and k = 1 and replies = "[[0, 0x81, 0, 0, 0, 0]]" and ?r1.0 = "[0, 0x80, 0, 0, 0, 0]"])
     (simp_all add: image_entry_def demo_image_fs_def demo_boot_def boot_init_def demo_link_def file_ready_def
        blocks_of_def HS_PACKET_SIZE_def flowing_def acked_def le16_def)

text \<open>C5: Over the UART, a loader image of a multiple of 256 bytes goes out complete and in order
  between START, END and EXEC when the modem acknowledges every message, and the call returns 0.\<close>

theorem download_fdl_stream:
  assumes "image_path (hd (download_image_info st)) = Some path" and "fs path = Some f"
    and "unat (image_size (hd (download_image_info st))) = m * FDL_PACKET_SIZE" and "0 < m"
    and "m * FDL_PACKET_SIZE \<le> 2 ^ 30"
    and "\<forall>r \<in> set (rd_sched f). 1 \<le> r" and "m * FDL_PACKET_SIZE \<le> length (rd_sched f)" and "m * FDL_PACKET_SIZE \<le> length (rx f)"
    and "length (send_buffer st) = 4000"
    and "flowing 8 (m + 3 + k) c" and "rx c = concat acks @ rest" and "length acks = m + 3" and "\<forall>a \<in> set acks. is_ack a"
  shows "\<exists>st' c'. download_fdl fs junk st c = Some (DL_SUCCESS, st', c') \<and> rx c' = rest \<and>
     tx c' = tx c @ fdl_stream (address (hd (download_image_info st))) (take (m * FDL_PACKET_SIZE) (rx f))"
  using download_fdl_frames [where fs = fs and path = path, OF assms, of junk] by blast

definition demo_fdl_file :: chan where
  "demo_fdl_file = \<lparr>rx = replicate 300 7, tx = [], rd_sched = replicate 256 1, wr_sched = []\<rparr>"

definition demo_fdl_boot :: boot_state where
  "demo_fdl_boot = boot_init\<lparr>download_image_info := [image_entry ''/fdl'' 256 0x20000000]\<rparr>"

definition demo_uart :: chan where
  "demo_uart = \<lparr>rx = concat (replicate 4 (ack_frame 1 2)) @ [], tx = [], rd_sched = replicate 40 3,
     wr_sched = replicate 5 40000\<rparr>"

lemma demo_ack: "is_ack (ack_frame 1 2)"
  unfolding is_ack_def by (intro exI [of _ 1] exI [of _ 2]) simp

theorem download_fdl_stream_witness:
  "\<exists>st' c'. download_fdl (\<lambda>_. Some demo_fdl_file) [] demo_fdl_boot demo_uart = Some (DL_SUCCESS, st', c') \<and> rx c' = [] \<and>
     tx c' = tx demo_uart @ fdl_stream (address (hd (download_image_info demo_fdl_boot))) (take (1 * FDL_PACKET_SIZE) (rx demo_fdl_file))"
proof (rule download_fdl_stream [where path = "''/fdl''" and k = 1 and acks = "replicate 4 (ack_frame 1 2)"])
  show "\<forall>a \<in> set (replicate 4 (ack_frame 1 2)). is_ack a" by (simp add: demo_ack)
qed (simp_all add: demo_fdl_boot_def image_entry_def boot_init_def demo_fdl_file_def demo_uart_def FDL_PACKET_SIZE_def flowing_def)

text \<open>Finding. \<open>download_fdl\<close> can only succeed when the loader's size is a multiple of 256:
  \<open>while(size)\<close> steps over 0 otherwise and goes on reading past the buffer.\<close>

theorem download_fdl_needs_multiple:
  assumes "download_fdl fs junk st c = Some (r, st', c')" and "r \<noteq> DL_FAILURE"
  shows "FDL_PACKET_SIZE dvd unat (image_size (hd (download_image_info st)))"
  using assms by (rule download_fdl_size)

lemma demo_fdl_run: "\<exists>st' c'. download_fdl (\<lambda>_. Some demo_fdl_file) [] demo_fdl_boot demo_uart = Some (DL_SUCCESS, st', c')"
  using download_fdl_frames [where path = "''/fdl''" and k = 1 and acks = "replicate 4 (ack_frame 1 2)" and st = demo_fdl_boot
     and fs = "\<lambda>_. Some demo_fdl_file" and f = demo_fdl_file and m = 1 and c = demo_uart and rest = "[]" and junk = "[]"]
  by (simp add: demo_fdl_boot_def image_entry_def boot_init_def demo_fdl_file_def demo_uart_def FDL_PACKET_SIZE_def flowing_def demo_ack)
     blast

theorem download_fdl_needs_multiple_witness:
  "FDL_PACKET_SIZE dvd unat (image_size (hd (download_image_info demo_fdl_boot)))"
proof -
  obtain st' c' where "download_fdl (\<lambda>_. Some demo_fdl_file) [] demo_fdl_boot demo_uart = Some (DL_SUCCESS, st', c')"
    using demo_fdl_run by blast
  then show ?thesis by (rule download_fdl_needs_multiple) (simp add: DL_SUCCESS_def DL_FAILURE_def)
qed

end
