(* ===== verification/Mc_Manager.thy ===== *)
theory Mc_Manager
  imports Mc_Boot
begin

unbundle bit_operations_syntax

text \<open>
  \<open>apps/modem_control/main.c\<close>: the modem manager. It polls the modem's state file, follows the
  modem through \<open>MODEM_STA_E\<close>, reboots it when it has crashed or asks for it, signals the
  monitor process and tells its clients on the local socket.

  One round of the loop of \<open>main\<close> is a function of the manager's variables and of what the
  environment answers in that round (\<open>round_env\<close>). Messages to clients and signals are
  recorded in order in \<open>sent\<close> and \<open>kills\<close>.
\<close>

section \<open>State\<close>

datatype MODEM_STA_E =
    MODEM_STA_SHUTDOWN
  | MODEM_STA_BOOT
  | MODEM_STA_INIT
  | MODEM_STA_ALIVE
  | MODEM_STA_ASSERT
  | MODEM_STA_BOOTCOMP
  | MODEM_STA_MAX

datatype signal = SIGUSR1 | SIGUSR2

definition MAX_CLIENT_NUM :: nat where "MAX_CLIENT_NUM = 10"

record manager =
  modem_state :: MODEM_STA_E
  flash_less_flag :: nat
  client_fd :: "int list"
  sent :: "(int \<times> string) list"
  kills :: "(int \<times> signal) list"

text \<open>The environment of a round: the contents of the state file (\<open>None\<close> when opening it or
  reading it fails), the reset property, the entries of \<open>/proc\<close> with the first 1023 bytes of
  each command line file, the serial line, and the result of a write to each client.\<close>

record round_env =
  state_file :: "string option"
  modemreset :: string
  proc :: "string list option"
  cmdline :: "int \<Rightarrow> string option"
  assert_uart :: "chan option"
  client_write :: "int \<Rightarrow> string \<Rightarrow> int"

section \<open>Helpers\<close>

definition reset_modem_if_assert :: "round_env \<Rightarrow> bool" where
  "reset_modem_if_assert e \<longleftrightarrow> modemreset e = ''1''"

definition poweron_by_charger :: "string \<Rightarrow> bool" where
  "poweron_by_charger bootmode \<longleftrightarrow> take 6 bootmode = ''charge''"

text \<open>\<open>get_task_pid\<close>: the first process whose command line is the given name. A name that
  starts with a digit is read by \<open>atoi\<close>.\<close>

fun find_pid :: "string \<Rightarrow> (int \<Rightarrow> string option) \<Rightarrow> string list \<Rightarrow> int" where
  "find_pid name f [] = -1"
| "find_pid name f (d # ds) =
     (if d \<noteq> [] \<and> isdigit (hd d)
      then (let pid = int (dec_value 0 d)
            in case f pid of
                 None \<Rightarrow> find_pid name f ds
               | Some line \<Rightarrow> if name = cstr line then pid else find_pid name f ds)
      else find_pid name f ds)"

definition MONITOR_APP :: string where "MONITOR_APP = ''/system/bin/sprd_monitor''"

definition get_task_pid :: "string \<Rightarrow> round_env \<Rightarrow> int" where
  "get_task_pid name e = (case proc e of None \<Rightarrow> -1 | Some ds \<Rightarrow> find_pid name (cmdline e) ds)"

text \<open>\<open>get_modem_state\<close> reads up to 128 bytes into a zeroed buffer of that size; when it is
  filled there is no terminator and its use as a string leaves the buffer (\<open>None\<close>).\<close>

definition get_modem_state :: "round_env \<Rightarrow> (nat \<times> string) option" where
  "get_modem_state e =
     (case state_file e of
        None \<Rightarrow> Some (0, [])
      | Some s \<Rightarrow> if 128 \<le> length s then None else Some (length s, cstr s))"

text \<open>\<open>sscanf(message, "%d", ...)\<close>: without a number the variable stays indeterminate.\<close>

definition scan_d :: "string \<Rightarrow> int option" where
  "scan_d s =
     (let t = dropWhile isspace s;
          neg = (t \<noteq> [] \<and> hd t = CHR ''-'');
          t = (if t \<noteq> [] \<and> hd t \<in> {CHR ''-'', CHR ''+''} then tl t else t);
          v = int (dec_value 0 t)
      in if t = [] \<or> \<not> isdigit (hd t) then None
         else Some (sint (word_of_int (if neg then max (- v) (- (2 ^ 63)) else min v (2 ^ 63 - 1)) :: 32 word)))"

definition translate_modem_state_message :: "string \<Rightarrow> int option" where
  "translate_modem_state_message message = scan_d message"

text \<open>A client whose write does not go through is dropped.\<close>

fun broadcast_loop ::
  "(int \<Rightarrow> string \<Rightarrow> int) \<Rightarrow> string \<Rightarrow> int list \<Rightarrow> int list \<times> (int \<times> string) list" where
  "broadcast_loop w msg [] = ([], [])"
| "broadcast_loop w msg (fd # fds) =
     (let (fds', out) = broadcast_loop w msg fds
      in if fd > 0
         then (let ret = w fd msg
               in if ret > 0 then (fd # fds', (fd, take (nat ret) msg) # out)
                  else (-1 # fds', out))
         else (fd # fds', out))"

definition broadcast_modem_state :: "round_env \<Rightarrow> string \<Rightarrow> manager \<Rightarrow> manager" where
  "broadcast_modem_state e msg s =
     (let (fds, out) = broadcast_loop (client_write e) msg (client_fd s)
      in s\<lparr>client_fd := fds, sent := sent s @ out\<rparr>)"

text \<open>The loop of \<open>get_modem_assert_information\<close>: at most 100001 reads of what is left of
  \<open>size\<close> bytes.\<close>

function assert_loop :: "nat \<Rightarrow> bytes \<Rightarrow> nat \<Rightarrow> chan \<Rightarrow> (bytes \<times> chan) option" where
  "assert_loop timeout acc n c =
     (case sys_read n c of
        None \<Rightarrow> None
      | Some (ret, d, c') \<Rightarrow>
          (let acc = acc @ d; n = n - length d
           in if Suc timeout > 100000 then Some (acc, c')
              else if n > 0 then assert_loop (Suc timeout) acc n c'
              else Some (acc, c')))"
  by pat_completeness auto
termination
  by (relation "measure (\<lambda>(t, a, n, c). length (rd_sched c))") (auto dest: sys_read_sched)

declare assert_loop.simps [simp del]

definition get_modem_assert_information :: "nat \<Rightarrow> round_env \<Rightarrow> bytes option" where
  "get_modem_assert_information n e =
     (case assert_uart e of
        None \<Rightarrow> Some []
      | Some c \<Rightarrow>
          do { (w, c) \<leftarrow> sys_write [0x50] c;
               (info, c) \<leftarrow> assert_loop 0 [] n c;
               (w, c) \<leftarrow> sys_write [0x4F] c;
               Some info })"

text \<open>The assert text goes out up to its first zero byte (\<open>test_buffer\<close> is cleared before).\<close>

definition assert_text :: "bytes \<Rightarrow> string" where
  "assert_text d = map (\<lambda>b. char_of (unat b)) (takeWhile (\<lambda>b. b \<noteq> 0) d)"

section \<open>The state machine\<close>

definition kill :: "int \<Rightarrow> signal \<Rightarrow> manager \<Rightarrow> manager" where
  "kill pid sig s = s\<lparr>kills := kills s @ [(pid, sig)]\<rparr>"

text \<open>The first alive message, kept apart for modems with and without flash:
  0xff at the start, 0 with flash, 1 then 2 without.\<close>

definition update_flash :: "bool \<Rightarrow> manager \<Rightarrow> bool \<times> manager" where
  "update_flash alive s =
     (if flash_less_flag s = 0xff
      then (if alive then (True, s\<lparr>flash_less_flag := 0\<rparr>) else (False, s\<lparr>flash_less_flag := 1\<rparr>))
      else if flash_less_flag s = 1
      then (if alive then (True, s\<lparr>flash_less_flag := 2\<rparr>) else (False, s))
      else (False, s))"

definition on_init :: "round_env \<Rightarrow> bool \<Rightarrow> int \<Rightarrow> bool \<Rightarrow> manager \<Rightarrow> manager" where
  "on_init e alive reset first_alive s =
     (if reset = 0
      then (if alive
            then (let s = s\<lparr>modem_state := MODEM_STA_ALIVE\<rparr>; pid = get_task_pid MONITOR_APP e
                  in if pid > 0 \<and> \<not> first_alive then kill pid SIGUSR2 s else s)
            else s\<lparr>modem_state := MODEM_STA_BOOT\<rparr>)
      else s)"

definition on_assert :: "round_env \<Rightarrow> int \<Rightarrow> manager \<Rightarrow> manager" where
  "on_assert e reset s =
     (if reset = 1
      then (let pid = get_task_pid MONITOR_APP e; s = (if pid > 0 then kill pid SIGUSR1 s else s)
            in s\<lparr>modem_state := MODEM_STA_BOOT\<rparr>)
      else s)"

definition on_bootcomp :: "round_env \<Rightarrow> bool \<Rightarrow> int \<Rightarrow> bool \<Rightarrow> manager \<Rightarrow> manager" where
  "on_bootcomp e alive reset first_alive s =
     (if reset = 0 \<and> alive
      then (let s = broadcast_modem_state e ''Modem Alive'' (s\<lparr>modem_state := MODEM_STA_ALIVE\<rparr>);
                pid = get_task_pid MONITOR_APP e
            in if pid > 0 \<and> \<not> first_alive then kill pid SIGUSR2 s else s)
      else s)"

definition on_alive :: "round_env \<Rightarrow> bool \<Rightarrow> int \<Rightarrow> bool \<Rightarrow> manager \<Rightarrow> manager option" where
  "on_alive e alive reset first_alive s =
     do { s \<leftarrow> (if \<not> alive
                then do { info \<leftarrow> get_modem_assert_information 256 e;
                          Some (broadcast_modem_state e
                                  (if info \<noteq> [] then assert_text info
                                   else ''Modem Assert'' @ [CHR 0x0A])
                                  (s\<lparr>modem_state := MODEM_STA_ASSERT\<rparr>)) }
                else Some s);
          Some (if reset = 1 \<or> reset_modem_if_assert e
                then (let pid = get_task_pid MONITOR_APP e;
                          s = (if pid > 0 \<and> \<not> first_alive then kill pid SIGUSR1 s else s)
                      in s\<lparr>modem_state := MODEM_STA_BOOT\<rparr>)
                else s) }"

definition process_modem_state_message :: "round_env \<Rightarrow> string \<Rightarrow> manager \<Rightarrow> manager option" where
  "process_modem_state_message e message s =
     do { ret \<leftarrow> translate_modem_state_message message;
          (if ret < 0 then Some s
           else let alive = (ret AND 1 = 1);
                    reset = drop_bit 1 ret;
                    (first_alive, s) = update_flash alive s
                in case modem_state s of
                     MODEM_STA_INIT \<Rightarrow> Some (on_init e alive reset first_alive s)
                   | MODEM_STA_ASSERT \<Rightarrow> Some (on_assert e reset s)
                   | MODEM_STA_BOOTCOMP \<Rightarrow> Some (on_bootcomp e alive reset first_alive s)
                   | MODEM_STA_ALIVE \<Rightarrow> on_alive e alive reset first_alive s
                   | _ \<Rightarrow> Some s) }"

text \<open>A round of the loop of \<open>main\<close>. The result tells whether \<open>modem_boot\<close> was called; what that
  does is in \<open>Mc_Boot\<close>, here it returns.\<close>

definition main_round :: "round_env \<Rightarrow> manager \<Rightarrow> (bool \<times> manager) option" where
  "main_round e s =
     do { (ret, buf) \<leftarrow> get_modem_state e;
          s \<leftarrow> (if ret > 0 then process_modem_state_message e buf s else Some s);
          Some (if modem_state s = MODEM_STA_BOOT
                then (True, s\<lparr>modem_state := MODEM_STA_BOOTCOMP\<rparr>)
                else (False, s)) }"

text \<open>A connection that the listen thread accepts goes to the first free slot; without one the
  descriptor is forgotten.\<close>

fun fill_slot :: "int \<Rightarrow> int list \<Rightarrow> int list" where
  "fill_slot n [] = []"
| "fill_slot n (fd # fds) = (if fd = -1 then n # fds else fd # fill_slot n fds)"

definition accept_client :: "int \<Rightarrow> manager \<Rightarrow> manager" where
  "accept_client n s = (if n = -1 then s else s\<lparr>client_fd := fill_slot n (client_fd s)\<rparr>)"

text \<open>The state when the loop starts; \<open>None\<close> when the program exits before.\<close>

definition main_start :: "string \<Rightarrow> bool \<Rightarrow> manager option" where
  "main_start bootmode state_opened =
     (if poweron_by_charger bootmode \<or> \<not> state_opened then None
      else Some \<lparr>modem_state = MODEM_STA_INIT, flash_less_flag = 0xff,
                 client_fd = replicate MAX_CLIENT_NUM (-1), sent = [], kills = []\<rparr>)"

text \<open>The manager as a machine: rounds of the loop interleaved with connections that the listen
  thread accepts.\<close>

datatype mgr_event = Round round_env | Accept int

fun mgr_step :: "manager \<Rightarrow> mgr_event \<Rightarrow> manager option" where
  "mgr_step s (Round e) = map_option snd (main_round e s)"
| "mgr_step s (Accept n) = Some (accept_client n s)"

section \<open>What the operations change\<close>

lemma broadcast_loop_eq:
  "broadcast_loop w msg fds =
     (map (\<lambda>fd. if fd > 0 \<and> \<not> w fd msg > 0 then -1 else fd) fds,
      map (\<lambda>fd. (fd, take (nat (w fd msg)) msg)) (filter (\<lambda>fd. fd > 0 \<and> w fd msg > 0) fds))"
  by (induction fds) (auto simp: Let_def split: prod.splits)

lemma broadcast_fields [simp]:
  "modem_state (broadcast_modem_state e m s) = modem_state s"
  "flash_less_flag (broadcast_modem_state e m s) = flash_less_flag s"
  "kills (broadcast_modem_state e m s) = kills s"
  "length (client_fd (broadcast_modem_state e m s)) = length (client_fd s)"
  by (simp_all add: broadcast_modem_state_def broadcast_loop_eq Let_def)

lemma kill_fields [simp]:
  "modem_state (kill p g s) = modem_state s" "flash_less_flag (kill p g s) = flash_less_flag s"
  "client_fd (kill p g s) = client_fd s" "sent (kill p g s) = sent s"
  by (simp_all add: kill_def)

lemma update_flash_fields [simp]:
  "modem_state (snd (update_flash a s)) = modem_state s" "client_fd (snd (update_flash a s)) = client_fd s"
  "sent (snd (update_flash a s)) = sent s" "kills (snd (update_flash a s)) = kills s"
  by (simp_all add: update_flash_def)

lemmas handler_defs = on_init_def on_assert_def on_bootcomp_def on_alive_def Let_def

lemma on_init_fields [simp]:
  "flash_less_flag (on_init e a r f s) = flash_less_flag s" "client_fd (on_init e a r f s) = client_fd s"
  by (simp_all add: handler_defs)

lemma on_assert_fields [simp]:
  "flash_less_flag (on_assert e r s) = flash_less_flag s" "client_fd (on_assert e r s) = client_fd s"
  by (simp_all add: handler_defs)

lemma on_bootcomp_fields [simp]:
  "flash_less_flag (on_bootcomp e a r f s) = flash_less_flag s"
  "length (client_fd (on_bootcomp e a r f s)) = length (client_fd s)"
  by (simp_all add: handler_defs)

lemma on_alive_fields:
  assumes "on_alive e a r f s = Some s'"
  shows "flash_less_flag s' = flash_less_flag s \<and> length (client_fd s') = length (client_fd s)"
  using assms by (auto simp: handler_defs bind_eq_Some_conv split: if_splits)

lemma fill_slot_length [simp]: "length (fill_slot n fds) = length fds"
  by (induction fds) auto

text \<open>The value read from the state file in a round, if there is one and it is not negative.\<close>

definition polled :: "round_env \<Rightarrow> int option" where
  "polled e = (case get_modem_state e of
       Some (n, buf) \<Rightarrow>
         if n = 0 then None
         else (case translate_modem_state_message buf of Some v \<Rightarrow> if v < 0 then None else Some v | None \<Rightarrow> None)
     | None \<Rightarrow> None)"

text \<open>The handler of the current state, applied to a polled value.\<close>

definition react :: "round_env \<Rightarrow> int \<Rightarrow> manager \<Rightarrow> manager option" where
  "react e v s =
     (let alive = (v AND 1 = 1); reset = drop_bit 1 v; (first_alive, s) = update_flash alive s
      in case modem_state s of
           MODEM_STA_INIT \<Rightarrow> Some (on_init e alive reset first_alive s)
         | MODEM_STA_ASSERT \<Rightarrow> Some (on_assert e reset s)
         | MODEM_STA_BOOTCOMP \<Rightarrow> Some (on_bootcomp e alive reset first_alive s)
         | MODEM_STA_ALIVE \<Rightarrow> on_alive e alive reset first_alive s
         | _ \<Rightarrow> Some s)"

lemma main_round_cases:
  assumes "main_round e s = Some (b, s')"
  obtains t where "(case polled e of None \<Rightarrow> Some s | Some v \<Rightarrow> react e v s) = Some t"
    "b \<longleftrightarrow> modem_state t = MODEM_STA_BOOT" "s' = (if b then t\<lparr>modem_state := MODEM_STA_BOOTCOMP\<rparr> else t)"
proof -
  obtain n buf t where 1: "get_modem_state e = Some (n, buf)"
    "(if n > 0 then process_modem_state_message e buf s else Some s) = Some t"
    "(b, s') = (if modem_state t = MODEM_STA_BOOT then (True, t\<lparr>modem_state := MODEM_STA_BOOTCOMP\<rparr>) else (False, t))"
    using assms by (auto simp: main_round_def bind_eq_Some_conv)
  have "(case polled e of None \<Rightarrow> Some s | Some v \<Rightarrow> react e v s) = Some t"
    using 1(1,2)
    by (auto simp: polled_def react_def process_modem_state_message_def bind_eq_Some_conv Let_def split: if_splits)
  then show ?thesis using that 1(3) by (auto split: if_splits)
qed

lemma react_fields:
  assumes "react e v s = Some t"
  shows "flash_less_flag t = flash_less_flag (snd (update_flash (v AND 1 = 1) s))"
    and "length (client_fd t) = length (client_fd s)"
  using assms
  by (auto simp: react_def Let_def split: prod.splits MODEM_STA_E.splits dest!: on_alive_fields)
     (metis snd_conv update_flash_fields(2))+

definition boots :: "MODEM_STA_E \<Rightarrow> bool \<Rightarrow> int \<Rightarrow> bool \<Rightarrow> bool" where
  "boots q alive reset forced \<longleftrightarrow>
     q = MODEM_STA_INIT \<and> reset = 0 \<and> \<not> alive \<or> q = MODEM_STA_ASSERT \<and> reset = 1 \<or>
     q = MODEM_STA_ALIVE \<and> (reset = 1 \<or> forced)"

definition next_state :: "MODEM_STA_E \<Rightarrow> bool \<Rightarrow> int \<Rightarrow> bool \<Rightarrow> MODEM_STA_E" where
  "next_state q alive reset forced =
     (if boots q alive reset forced then MODEM_STA_BOOT
      else if q \<in> {MODEM_STA_INIT, MODEM_STA_BOOTCOMP} \<and> reset = 0 \<and> alive then MODEM_STA_ALIVE
      else if q = MODEM_STA_ALIVE \<and> \<not> alive then MODEM_STA_ASSERT
      else q)"

lemma on_init_state:
  "modem_state s = MODEM_STA_INIT \<Longrightarrow>
     modem_state (on_init e a r f s) = next_state MODEM_STA_INIT a r (reset_modem_if_assert e)"
  by (simp add: handler_defs next_state_def boots_def)

lemma on_assert_state:
  "modem_state s = MODEM_STA_ASSERT \<Longrightarrow>
     modem_state (on_assert e r s) = next_state MODEM_STA_ASSERT a r (reset_modem_if_assert e)"
  by (simp add: handler_defs next_state_def boots_def)

lemma on_bootcomp_state:
  "modem_state s = MODEM_STA_BOOTCOMP \<Longrightarrow>
     modem_state (on_bootcomp e a r f s) = next_state MODEM_STA_BOOTCOMP a r (reset_modem_if_assert e)"
  by (simp add: handler_defs next_state_def boots_def)

lemma on_alive_state:
  assumes "on_alive e a r f s = Some t" and "modem_state s = MODEM_STA_ALIVE"
  shows "modem_state t = next_state MODEM_STA_ALIVE a r (reset_modem_if_assert e)"
proof -
  define boot where "boot u = (let pid = get_task_pid MONITOR_APP e;
      s = (if pid > 0 \<and> \<not> f then kill pid SIGUSR1 u else u) in s\<lparr>modem_state := MODEM_STA_BOOT\<rparr>)" for u
  have b: "modem_state (boot u) = MODEM_STA_BOOT" for u by (simp add: boot_def Let_def)
  obtain u where 1: "(if \<not> a
        then do { info \<leftarrow> get_modem_assert_information 256 e;
                  Some (broadcast_modem_state e
                          (if info \<noteq> [] then assert_text info else ''Modem Assert'' @ [CHR 0x0A])
                          (s\<lparr>modem_state := MODEM_STA_ASSERT\<rparr>)) }
        else Some s) = Some u"
    and 2: "t = (if r = 1 \<or> reset_modem_if_assert e then boot u else u)"
    using assms(1) unfolding on_alive_def boot_def [symmetric]
    by (simp only: bind_eq_Some_conv option.inject) blast
  have u: "modem_state u = (if a then MODEM_STA_ALIVE else MODEM_STA_ASSERT)"
    using 1 assms(2) by (cases a) (auto simp: bind_eq_Some_conv)
  show ?thesis unfolding 2 by (simp add: b u next_state_def boots_def)
qed

lemma react_state:
  assumes "react e v s = Some t"
  shows "modem_state t = next_state (modem_state s) (v AND 1 = 1) (drop_bit 1 v) (reset_modem_if_assert e)"
proof -
  define a r where "a = (v AND 1 = 1)" and "r = drop_bit 1 v"
  obtain f s1 where u: "update_flash a s = (f, s1)" by (cases "update_flash a s")
  then have q: "modem_state s1 = modem_state s" by (metis snd_conv update_flash_fields(1))
  have t: "(case modem_state s1 of
           MODEM_STA_INIT \<Rightarrow> Some (on_init e a r f s1)
         | MODEM_STA_ASSERT \<Rightarrow> Some (on_assert e r s1)
         | MODEM_STA_BOOTCOMP \<Rightarrow> Some (on_bootcomp e a r f s1)
         | MODEM_STA_ALIVE \<Rightarrow> on_alive e a r f s1
         | _ \<Rightarrow> Some s1) = Some t"
    using assms u unfolding react_def Let_def a_def [symmetric] r_def [symmetric] by simp
  have "modem_state t = next_state (modem_state s1) a r (reset_modem_if_assert e)"
  proof (cases "modem_state s1")
    case MODEM_STA_INIT
    then show ?thesis using t on_init_state [OF MODEM_STA_INIT, of e a r f] by simp
  next
    case MODEM_STA_ASSERT
    then show ?thesis using t on_assert_state [OF MODEM_STA_ASSERT, of e r a] by simp
  next
    case MODEM_STA_BOOTCOMP
    then show ?thesis using t on_bootcomp_state [OF MODEM_STA_BOOTCOMP, of e a r f] by simp
  next
    case MODEM_STA_ALIVE
    then show ?thesis using t on_alive_state [of e a r f s1 t] by simp
  qed (use t in \<open>auto simp: next_state_def boots_def\<close>)
  then show ?thesis by (simp add: q a_def r_def)
qed

section \<open>Invariants over runs\<close>

definition mgr_inv :: "manager \<Rightarrow> bool" where
  "mgr_inv s \<longleftrightarrow>
     modem_state s \<in> {MODEM_STA_INIT, MODEM_STA_ALIVE, MODEM_STA_ASSERT, MODEM_STA_BOOTCOMP} \<and>
     flash_less_flag s \<in> {0xff, 0, 1, 2} \<and> length (client_fd s) = MAX_CLIENT_NUM"

lemma update_flash_flag:
  "flash_less_flag s \<in> {0xff, 0, 1, 2} \<Longrightarrow> flash_less_flag (snd (update_flash a s)) \<in> {0xff, 0, 1, 2}"
  "flash_less_flag s \<in> {0, 2} \<Longrightarrow> update_flash a s = (False, s)"
  "fst (update_flash a s) \<Longrightarrow> flash_less_flag (snd (update_flash a s)) \<in> {0, 2}"
  by (auto simp: update_flash_def split: if_splits)

lemma next_state_closed:
  assumes "q \<in> {MODEM_STA_INIT, MODEM_STA_ALIVE, MODEM_STA_ASSERT, MODEM_STA_BOOTCOMP}"
  shows "next_state q a r f \<in> {MODEM_STA_BOOT, MODEM_STA_INIT, MODEM_STA_ALIVE, MODEM_STA_ASSERT, MODEM_STA_BOOTCOMP}"
  using assms by (auto simp: next_state_def)

lemma accept_client_fields [simp]:
  "modem_state (accept_client n s) = modem_state s" "flash_less_flag (accept_client n s) = flash_less_flag s"
  "length (client_fd (accept_client n s)) = length (client_fd s)"
  by (simp_all add: accept_client_def)

lemma main_round_inv:
  assumes "main_round e s = Some (b, s')" and "mgr_inv s"
  shows "mgr_inv s'"
proof -
  obtain t where t: "(case polled e of None \<Rightarrow> Some s | Some v \<Rightarrow> react e v s) = Some t"
    "b \<longleftrightarrow> modem_state t = MODEM_STA_BOOT" "s' = (if b then t\<lparr>modem_state := MODEM_STA_BOOTCOMP\<rparr> else t)"
    using main_round_cases [OF assms(1)] .
  have "modem_state t \<in> {MODEM_STA_BOOT, MODEM_STA_INIT, MODEM_STA_ALIVE, MODEM_STA_ASSERT, MODEM_STA_BOOTCOMP} \<and>
    flash_less_flag t \<in> {0xff, 0, 1, 2} \<and> length (client_fd t) = MAX_CLIENT_NUM"
  proof (cases "polled e")
    case None
    then show ?thesis using t(1) assms(2) by (auto simp: mgr_inv_def)
  next
    case (Some v)
    then have r: "react e v s = Some t" using t(1) by simp
    show ?thesis
      using react_fields [OF r] react_state [OF r] assms(2) unfolding mgr_inv_def
      by (metis next_state_closed update_flash_flag(1))
  qed
  then show ?thesis using t(2,3) by (auto simp: mgr_inv_def)
qed

interpretation mgr: invariant_machine mgr_step mgr_inv
proof unfold_locales
  fix s i s' assume "mgr_inv s" and "mgr_step s i = Some s'"
  then show "mgr_inv s'"
    by (cases i) (auto simp: mgr_inv_def [of "accept_client n s" for n s] mgr_inv_def [of s] intro: main_round_inv)
qed

lemma main_round_flash:
  assumes "main_round e s = Some (b, s')" 
  shows "flash_less_flag s' =
    (case polled e of None \<Rightarrow> flash_less_flag s | Some v \<Rightarrow> flash_less_flag (snd (update_flash (v AND 1 = 1) s)))"
proof -
  obtain t where t: "(case polled e of None \<Rightarrow> Some s | Some v \<Rightarrow> react e v s) = Some t"
    "s' = (if b then t\<lparr>modem_state := MODEM_STA_BOOTCOMP\<rparr> else t)"
    using main_round_cases [OF assms] by metis
  then show ?thesis by (auto split: option.splits dest: react_fields(1))
qed

text \<open>The round reports the first alive message of this modem.\<close>

fun first_alive_now :: "manager \<Rightarrow> mgr_event \<Rightarrow> bool" where
  "first_alive_now s (Round e) =
     (case polled e of None \<Rightarrow> False | Some v \<Rightarrow> fst (update_flash (v AND 1 = 1) s))"
| "first_alive_now s (Accept n) = False"

fun first_alives :: "manager \<Rightarrow> mgr_event list \<Rightarrow> nat" where
  "first_alives s [] = 0"
| "first_alives s (ev # evs) =
     (if first_alive_now s ev then 1 else 0) +
     (case mgr_step s ev of None \<Rightarrow> 0 | Some s' \<Rightarrow> first_alives s' evs)"

interpretation flash: invariant_machine mgr_step "\<lambda>s. flash_less_flag s \<in> {0, 2}"
proof unfold_locales
  fix s i s' assume f: "flash_less_flag s \<in> {0, 2}" and st: "mgr_step s i = Some s'"
  show "flash_less_flag s' \<in> {0, 2}"
  proof (cases i)
    case (Round e)
    then obtain b where "main_round e s = Some (b, s')" using st by auto
    then show ?thesis using main_round_flash [of e s b s'] f update_flash_flag(2) [OF f]
      by (simp split: option.splits)
  next
    case (Accept n)
    then show ?thesis using st f by auto
  qed
qed

lemma first_alives_latched: "flash_less_flag s \<in> {0, 2} \<Longrightarrow> first_alives s evs = 0"
proof (induction evs arbitrary: s)
  case (Cons ev evs)
  have "\<not> first_alive_now s ev"
    using update_flash_flag(2) [OF Cons.prems] by (cases ev) (auto split: option.splits)
  then show ?case using Cons.IH flash.inv_step [OF Cons.prems] by (auto split: option.splits)
qed simp

lemma first_alive_latches:
  assumes "first_alive_now s ev" and "mgr_step s ev = Some s'"
  shows "flash_less_flag s' \<in> {0, 2}"
proof -
  obtain e v where e: "ev = Round e" "polled e = Some v" "fst (update_flash (v AND 1 = 1) s)"
    using assms(1) by (cases ev) (auto split: option.splits)
  obtain b where "main_round e s = Some (b, s')" using assms(2) e(1) by auto
  then show ?thesis using main_round_flash [of e s b s'] e update_flash_flag(3) by simp
qed

lemma first_alives_le: "first_alives s evs \<le> 1"
proof (induction evs arbitrary: s)
  case (Cons ev evs)
  show ?case
  proof (cases "first_alive_now s ev")
    case True
    then show ?thesis
      using first_alive_latches [OF True] first_alives_latched by (auto split: option.splits)
  next
    case False
    then show ?thesis using Cons.IH by (auto split: option.splits)
  qed
qed simp

section \<open>Properties of the manager\<close>

text \<open>C2: In every run of the manager, whatever the state file, the properties, the processes, the
  serial line and the clients do, and however connections interleave with the rounds, the modem's
  state after a round is one of INIT, ALIVE, ASSERT and BOOTCOMP, the flash flag has one of its
  four values and the table keeps its ten slots.\<close>

theorem manager_invariant:
  assumes "main_start bootmode opened = Some s" and "run_steps mgr_step s evs = Some s'"
  shows "modem_state s' \<in> {MODEM_STA_INIT, MODEM_STA_ALIVE, MODEM_STA_ASSERT, MODEM_STA_BOOTCOMP} \<and>
    flash_less_flag s' \<in> {0xff, 0, 1, 2} \<and> length (client_fd s') = MAX_CLIENT_NUM"
proof -
  have "mgr_inv s" using assms(1) by (auto simp: main_start_def mgr_inv_def split: if_splits)
  then show ?thesis using mgr.inv_run [OF _ assms(2)] by (simp add: mgr_inv_def)
qed

definition quiet_env :: round_env where
  "quiet_env = \<lparr>state_file = Some ''1'', modemreset = [], proc = None, cmdline = (\<lambda>_. None),
     assert_uart = None, client_write = (\<lambda>_ m. int (length m))\<rparr>"

lemma quiet_polled: "polled quiet_env = Some 1"
  by (simp add: polled_def get_modem_state_def quiet_env_def cstr_def translate_modem_state_message_def
      scan_d_def isspace_def isdigit_def)

definition started :: manager where
  "started = \<lparr>modem_state = MODEM_STA_INIT, flash_less_flag = 0xff,
     client_fd = replicate MAX_CLIENT_NUM (-1), sent = [], kills = []\<rparr>"

lemma quiet_round:
  "main_round quiet_env started = Some (False, started\<lparr>modem_state := MODEM_STA_ALIVE, flash_less_flag := 0\<rparr>)"
  by (simp add: main_round_def get_modem_state_def quiet_env_def cstr_def translate_modem_state_message_def
      scan_d_def isspace_def isdigit_def process_modem_state_message_def update_flash_def on_init_def
      started_def get_task_pid_def Let_def)

theorem manager_invariant_witness:
  "modem_state (started\<lparr>modem_state := MODEM_STA_ALIVE, flash_less_flag := 0\<rparr>)
     \<in> {MODEM_STA_INIT, MODEM_STA_ALIVE, MODEM_STA_ASSERT, MODEM_STA_BOOTCOMP} \<and>
   flash_less_flag (started\<lparr>modem_state := MODEM_STA_ALIVE, flash_less_flag := 0\<rparr>) \<in> {0xff, 0, 1, 2} \<and>
   length (client_fd (started\<lparr>modem_state := MODEM_STA_ALIVE, flash_less_flag := 0\<rparr>)) = MAX_CLIENT_NUM"
  by (rule manager_invariant [where bootmode = "[]" and opened = True and s = started and evs = "[Round quiet_env]"])
     (simp_all add: main_start_def poweron_by_charger_def started_def [symmetric] quiet_round)

text \<open>C38: In every run the first alive message of the modem is recognised at most once, so the
  monitor misses at most one of the signals that tell it the modem is back.\<close>

theorem first_alive_at_most_once: "first_alives s evs \<le> 1"
  by (rule first_alives_le)

text \<open>C1: A round refines the modem automaton: for a polled value \<open>v\<close> with alive bit \<open>v AND 1\<close> and
  reset part \<open>v >> 1\<close> the manager calls \<open>modem_boot\<close> exactly when the automaton says so, and its
  next state is the automaton's, with BOOT replaced by BOOTCOMP. In particular an ALIVE modem is
  rebooted whenever the reset property is set, alive or not.\<close>

theorem round_refines_automaton:
  assumes "main_round e s = Some (b, s')" and "polled e = Some v" and "modem_state s \<noteq> MODEM_STA_BOOT"
  shows "b = boots (modem_state s) (v AND 1 = 1) (drop_bit 1 v) (modemreset e = ''1'') \<and>
    modem_state s' = (if b then MODEM_STA_BOOTCOMP
      else next_state (modem_state s) (v AND 1 = 1) (drop_bit 1 v) (modemreset e = ''1''))"
proof -
  obtain t where t: "react e v s = Some t" "b \<longleftrightarrow> modem_state t = MODEM_STA_BOOT"
    "s' = (if b then t\<lparr>modem_state := MODEM_STA_BOOTCOMP\<rparr> else t)"
    using main_round_cases [OF assms(1)] assms(2) by auto
  have q: "modem_state t = next_state (modem_state s) (v AND 1 = 1) (drop_bit 1 v) (modemreset e = ''1'')"
    using react_state [OF t(1)] by (simp add: reset_modem_if_assert_def)
  have "next_state q a r f = MODEM_STA_BOOT \<longleftrightarrow> boots q a r f" if "q \<noteq> MODEM_STA_BOOT" for q a r f
    using that by (auto simp: next_state_def)
  then show ?thesis using q t assms(3) by auto
qed

theorem round_refines_automaton_witness:
  "False = boots (modem_state started) (1 AND (1::int) = 1) (drop_bit 1 1) (modemreset quiet_env = ''1'') \<and>
    modem_state (started\<lparr>modem_state := MODEM_STA_ALIVE, flash_less_flag := 0\<rparr>) = (if False then MODEM_STA_BOOTCOMP
      else next_state (modem_state started) (1 AND (1::int) = 1) (drop_bit 1 1) (modemreset quiet_env = ''1''))"
  by (rule round_refines_automaton [OF quiet_round quiet_polled]) (simp add: started_def)

text \<open>C39: When an ALIVE modem stops answering and is not to be reset, the manager goes to ASSERT and
  sends the assert text (or \<open>Modem Assert\<close>) to every connected client in order; exactly the clients
  whose write fails are dropped.\<close>

theorem assert_is_broadcast:
  assumes "on_alive e False reset f s = Some s'" and "reset \<noteq> 1" and "modemreset e \<noteq> ''1''"
    and "get_modem_assert_information 256 e = Some info"
    and "m = (if info \<noteq> [] then assert_text info else ''Modem Assert'' @ [CHR 0x0A])"
  shows "modem_state s' = MODEM_STA_ASSERT \<and>
    sent s' = sent s @ map (\<lambda>fd. (fd, take (nat (client_write e fd m)) m))
                         (filter (\<lambda>fd. fd > 0 \<and> client_write e fd m > 0) (client_fd s)) \<and>
    client_fd s' = map (\<lambda>fd. if fd > 0 \<and> \<not> client_write e fd m > 0 then -1 else fd) (client_fd s)"
proof -
  have "s' = broadcast_modem_state e m (s\<lparr>modem_state := MODEM_STA_ASSERT\<rparr>)"
    using assms by (simp add: on_alive_def reset_modem_if_assert_def)
  then show ?thesis by (simp add: broadcast_modem_state_def broadcast_loop_eq)
qed

theorem assert_is_broadcast_witness:
  "\<exists>s'. on_alive quiet_env False 0 False (started\<lparr>client_fd := [5, -1]\<rparr>) = Some s' \<and> modem_state s' = MODEM_STA_ASSERT"
proof -
  let ?m = "''Modem Assert'' @ [CHR 0x0A]"
  have i: "get_modem_assert_information 256 quiet_env = Some []"
    by (simp add: get_modem_assert_information_def quiet_env_def)
  have r: "on_alive quiet_env False 0 False (started\<lparr>client_fd := [5, -1]\<rparr>) =
     Some (broadcast_modem_state quiet_env ?m (started\<lparr>client_fd := [5, -1], modem_state := MODEM_STA_ASSERT\<rparr>))"
    by (simp add: on_alive_def i reset_modem_if_assert_def) (simp add: quiet_env_def)
  show ?thesis
    using assert_is_broadcast [OF r _ _ i refl] r by (simp add: quiet_env_def)
qed

end
