(* ===== verification/Wcn_Manager.thy ===== *)
theory Wcn_Manager
  imports C_Text
begin

text \<open>
  \<open>apps/wcnd/wcnd.c\<close>, the daemon for the coprocessor CP2 of WiFi, Bluetooth and FM: its state, the table
  of clients and the notifications, the operations on the coprocessor (stop, download of the image, start, loop
  test), the reset process and the handlers of exceptions.

  \<open>WcndManager\<close> is the structure of the same name with the part of the outside world the daemon changes. The results
  of the system calls to come are the list \<open>calls\<close>, one for each call in program order: opens, seeks,
  reads, writes, \<open>select\<close>. Sleeps and log output are left out. \<open>None\<close> is a call that never returns or undefined
  behaviour of C. Each function returns whether it succeeded where the source returns 0 or -1. The counter
  \<open>notify_count\<close>, which nothing reads, is unbounded here.
\<close>

section \<open>State\<close>

text \<open>The result of a system call: a number, a failure with \<open>EINTR\<close>, or the bytes of a successful
  \<open>read\<close>. A negative number is a failure with another error.\<close>

datatype sysres = Ret int | Interrupted | Bytes string

definition WCND_MAX_CLIENT_NUM :: nat where "WCND_MAX_CLIENT_NUM = 10"
definition WCND_MAX_CMD_EXECUTER_NUM :: nat where "WCND_MAX_CMD_EXECUTER_NUM = 10"

datatype WcnCmdExecuter = wcn_cmdexecuter | wcn_eng_cmdexecuter

fun executer_name :: "WcnCmdExecuter \<Rightarrow> string" where
  "executer_name wcn_cmdexecuter = ''wcn''"
| "executer_name wcn_eng_cmdexecuter = ''eng''"

text \<open>The fields of \<open>WcndManager\<close> that change, then the environment: the system properties (an empty
  string for an unset one), what was written to clients and to device files, the closed descriptors, and the
  results of the system calls to come. A call without a result never returns.\<close>

record WcndManager =
  inited :: bool
  client_fds :: "int list"
  notify_count :: int
  cmdexecuter_list :: "WcnCmdExecuter option list"
  doing_reset :: bool
  is_cp2_error :: bool
  props :: "string \<Rightarrow> string"
  msgs :: "(int \<times> string) list"
  devs :: "(string \<times> string) list"
  closed :: "int list"
  calls :: "sysres list"

fun res_int :: "sysres \<Rightarrow> int" where
  "res_int (Ret r) = r"
| "res_int Interrupted = -1"
| "res_int (Bytes b) = int (length b)"

definition syscall :: "WcndManager \<Rightarrow> (sysres \<times> WcndManager) option" where
  "syscall s = (case calls s of [] \<Rightarrow> None | c # cs \<Rightarrow> Some (c, s\<lparr>calls := cs\<rparr>))"

text \<open>\<open>TEMP_FAILURE_RETRY\<close> and the loops that repeat a call while it is interrupted.\<close>

definition syscall_retry :: "WcndManager \<Rightarrow> (sysres \<times> WcndManager) option" where
  "syscall_retry s = syscall (s\<lparr>calls := dropWhile (\<lambda>c. c = Interrupted) (calls s)\<rparr>)"

definition property_get :: "string \<Rightarrow> string \<Rightarrow> WcndManager \<Rightarrow> string" where
  "property_get key dflt s = (if props s key = [] then dflt else props s key)"

definition property_set :: "string \<Rightarrow> string \<Rightarrow> WcndManager \<Rightarrow> WcndManager" where
  "property_set key v s = s\<lparr>props := (props s)(key := v)\<rparr>"

fun strstr :: "string \<Rightarrow> string \<Rightarrow> bool" where
  "strstr [] p \<longleftrightarrow> p = []"
| "strstr (c # s) p \<longleftrightarrow> take (length p) (c # s) = p \<or> strstr s p"

definition RDWR_FD_FAIL :: int where "RDWR_FD_FAIL = -2"

section \<open>Clients\<close>

text \<open>When the table is full the last entry is replaced; the socket in it is not closed.\<close>

fun store_from :: "int list \<Rightarrow> int \<Rightarrow> int list option" where
  "store_from [] fd = None"
| "store_from (c # cs) fd =
     (if c = -1 then Some (fd # cs) else if c = fd then Some (c # cs) else map_option ((#) c) (store_from cs fd))"

definition store_client_fd :: "int list \<Rightarrow> int \<Rightarrow> int list" where
  "store_client_fd fds fd =
     (case store_from fds fd of Some fds' \<Rightarrow> fds' | None \<Rightarrow> butlast fds @ [fd])"

definition write_fd :: "int \<Rightarrow> string \<Rightarrow> sysres \<times> WcndManager \<Rightarrow> int \<times> WcndManager" where
  "write_fd fd m r =
     (case r of (c, s) \<Rightarrow> (res_int c, s\<lparr>msgs := msgs s @ (if res_int c < 0 then [] else [(fd, take (nat (res_int c)) m)])\<rparr>))"

definition send_msg :: "WcndManager \<Rightarrow> int \<Rightarrow> string \<Rightarrow> (int \<times> WcndManager) option" where
  "send_msg s client_fd msg_str =
     do { r \<leftarrow> syscall_retry (s\<lparr>notify_count := notify_count s + 1\<rparr>);
          let (ret, s) = write_fd client_fd (msg_str @ [CHR 0x00]) r in
          Some (if ret < 0 then RDWR_FD_FAIL else ret, s) }"

text \<open>The loop over the table, with the entries before the current one.\<close>

fun notify_loop :: "int list \<Rightarrow> int list \<Rightarrow> string \<Rightarrow> WcndManager \<Rightarrow> WcndManager option" where
  "notify_loop seen [] info s = Some (s\<lparr>client_fds := seen\<rparr>)"
| "notify_loop seen (fd # fds) info s =
     (if fd \<ge> 0 then
        do { (ret, s) \<leftarrow> send_msg s fd info;
             (if ret = RDWR_FD_FAIL then notify_loop (seen @ [-1]) fds info (s\<lparr>closed := closed s @ [fd]\<rparr>)
              else notify_loop (seen @ [fd]) fds info s) }
      else notify_loop (seen @ [fd]) fds info s)"

definition send_notify_to_client :: "string \<Rightarrow> WcndManager \<Rightarrow> WcndManager option" where
  "send_notify_to_client info_str s = notify_loop [] (client_fds s) info_str s"

definition send_back_cmd_result :: "int \<Rightarrow> string option \<Rightarrow> bool \<Rightarrow> WcndManager \<Rightarrow> WcndManager option" where
  "send_back_cmd_result client_fd str isOK s =
     (if client_fd < 0 then Some s
      else do { r \<leftarrow> syscall s;
                let status = (if isOK then ''OK'' else ''FAIL'');
                    buffer = take 254 (case str of None \<Rightarrow> status | Some t \<Rightarrow> status @ '' '' @ t) in
                Some (snd (write_fd client_fd (buffer @ [CHR 0x00]) r)) })"

section \<open>The coprocessor\<close>

definition WCN_STOP_IFACE :: string where "WCN_STOP_IFACE = ''/proc/cpwcn/stop''"
definition WCN_START_IFACE :: string where "WCN_START_IFACE = ''/proc/cpwcn/start''"
definition WCN_DOWNLOAD_IFACE :: string where "WCN_DOWNLOAD_IFACE = ''/proc/cpwcn/modem''"
definition WCN_LOOP_IFACE :: string where "WCN_LOOP_IFACE = ''/dev/spipe_wcn0''"
definition WCN_ATCMD_IFACE :: string where "WCN_ATCMD_IFACE = ''/dev/spipe_wcn5''"
definition WCN_IMAGE_SIZE :: nat where "WCN_IMAGE_SIZE = 10 * 1024 * 1024"
definition LOOP_TEST_CHAR :: string where "LOOP_TEST_CHAR = ''hi''"
definition MAX_LOOP_TEST_COUNT :: nat where "MAX_LOOP_TEST_COUNT = 2"
definition RESET_FAIL_RETRY_COUNT :: nat where "RESET_FAIL_RETRY_COUNT = 3"

text \<open>A write to a device file, with its result.\<close>

definition dev_write :: "string \<Rightarrow> string \<Rightarrow> WcndManager \<Rightarrow> (int \<times> WcndManager) option" where
  "dev_write path d s =
     do { (c, s) \<leftarrow> syscall s;
          Some (res_int c, s\<lparr>devs := devs s @ (if res_int c < 0 then [] else [(path, take (nat (res_int c)) d)])\<rparr>) }"

definition write_one :: "string \<Rightarrow> WcndManager \<Rightarrow> (bool \<times> WcndManager) option" where
  "write_one path s =
     do { (fd, s) \<leftarrow> syscall s;
          (if res_int fd < 0 then Some (False, s)
           else do { (len, s) \<leftarrow> dev_write path ''1'' s; Some (len = 1, s) }) }"

definition stop_cp2 :: "WcndManager \<Rightarrow> (bool \<times> WcndManager) option" where
  "stop_cp2 s = write_one WCN_STOP_IFACE s"

definition start_cp2 :: "WcndManager \<Rightarrow> (bool \<times> WcndManager) option" where
  "start_cp2 s = write_one WCN_START_IFACE s"

lemma dev_write_calls: "dev_write path d s = Some (r, s') \<Longrightarrow> length (calls s') < length (calls s)"
  by (auto simp: dev_write_def syscall_def split: list.splits)

text \<open>The copy loop of \<open>write_image\<close>; a read that returns nothing is the end of the file.\<close>

function image_loop :: "nat \<Rightarrow> WcndManager \<Rightarrow> (bool \<times> WcndManager) option" where
  "image_loop sz s =
     (if 0 < sz then
        do { (c, s1) \<leftarrow> syscall s;
             (case c of
                Bytes b \<Rightarrow>
                  if b = [] then Some (True, s1)
                  else if length b > min sz 8192 then Some (False, s1)
                  else do { (wsize, s2) \<leftarrow> dev_write WCN_DOWNLOAD_IFACE b s1;
                            (if wsize \<noteq> int (length b) then Some (False, s2) else image_loop (sz - length b) s2) }
              | _ \<Rightarrow> Some (res_int c = 0, s1)) }
      else Some (True, s))"
  by auto
termination
  by (relation "measure fst") auto

declare image_loop.simps [simp del]

text \<open>\<open>write_image\<close> with both offsets 0.\<close>

definition wcn_write_image :: "nat \<Rightarrow> WcndManager \<Rightarrow> (bool \<times> WcndManager) option" where
  "wcn_write_image sz s =
     do { (a, s) \<leftarrow> syscall s;
          (if res_int a \<noteq> 0 then Some (False, s)
           else do { (b, s) \<leftarrow> syscall s;
                     (if res_int b \<noteq> 0 then Some (False, s) else image_loop sz s) }) }"

text \<open>The two opens; the path of the image, at most 92 and 8 characters, fits its array. Between them the source asks
  \<open>property_get\<close> for the path and gives up when it returns -1; the library function returns the length of the
  value, so that branch is not in the model.\<close>

definition download_image_to_cp2 :: "WcndManager \<Rightarrow> (bool \<times> WcndManager) option" where
  "download_image_to_cp2 s =
     do { (d, s) \<leftarrow> syscall s;
          (if res_int d < 0 then Some (False, s)
           else do { (i, s) \<leftarrow> syscall s;
                     (if res_int i < 0 then Some (False, s) else wcn_write_image WCN_IMAGE_SIZE s) }) }"

text \<open>The loop test. The answer is read into an array of 32 characters that was cleared before; an answer
  that fills it is not terminated. \<open>select\<close> is called with the one descriptor, so a positive result means that
  it is set and the test of \<open>FD_ISSET\<close> that follows in the source holds.\<close>

definition loop_answer :: "sysres \<Rightarrow> bool option" where
  "loop_answer c =
     (case c of
        Bytes b \<Rightarrow>
          if b = [] then Some False
          else if 32 \<le> length b \<and> CHR 0x00 \<notin> set (take 32 b) then None
          else Some (strstr (cstr (take 32 b)) LOOP_TEST_CHAR)
      | _ \<Rightarrow> Some False)"

definition is_cp2_alive_ok :: "WcndManager \<Rightarrow> (bool \<times> WcndManager) option" where
  "is_cp2_alive_ok s =
     do { (fd, s) \<leftarrow> syscall s;
          (if res_int fd < 0 then Some (False, s)
           else do { (len, s) \<leftarrow> dev_write WCN_LOOP_IFACE LOOP_TEST_CHAR s;
             (if len < 0 then Some (False, s)
              else do { (rc, s) \<leftarrow> syscall_retry s;
                (if res_int rc \<le> 0 then Some (False, s)
                 else do { (c, s) \<leftarrow> syscall_retry s; map_option (\<lambda>ok. (ok, s)) (loop_answer c) }) }) }) }"

fun polling_test :: "nat \<Rightarrow> WcndManager \<Rightarrow> (bool \<times> WcndManager) option" where
  "polling_test 0 s = Some (False, s)"
| "polling_test (Suc n) s =
     do { (ok, s) \<leftarrow> is_cp2_alive_ok s; (if ok then Some (True, s) else polling_test n s) }"

definition reset_cp2 :: "WcndManager \<Rightarrow> (bool \<times> WcndManager) option" where
  "reset_cp2 s =
     do { (ok, s) \<leftarrow> stop_cp2 s;
          (if \<not> ok then Some (False, s)
           else do { (ok, s) \<leftarrow> download_image_to_cp2 s;
             (if \<not> ok then Some (False, s)
              else do { (ok, s) \<leftarrow> start_cp2 s;
                (if \<not> ok then Some (False, s) else polling_test (MAX_LOOP_TEST_COUNT + 1) s) }) }) }"

section \<open>The reset process\<close>

definition WCND_RESET_PROP_KEY :: string where "WCND_RESET_PROP_KEY = ''persist.sys.sprd.wcnreset''"
definition WCND_SLOG_ENABLE_PROP_KEY :: string where "WCND_SLOG_ENABLE_PROP_KEY = ''persist.sys.sprd.wcnlog''"
definition WCND_SLOG_RESULT_PROP_KEY :: string where "WCND_SLOG_RESULT_PROP_KEY = ''persist.sys.sprd.wcnlog.result''"
definition WCND_MODEM_ENABLE_PROP_KEY :: string where "WCND_MODEM_ENABLE_PROP_KEY = ''ro.modem.wcn.enable''"
definition WCND_CP2_EXCEPTION_STRING :: string where "WCND_CP2_EXCEPTION_STRING = ''WCN-CP2-EXCEPTION''"
definition WCND_CP2_RESET_START_STRING :: string where "WCND_CP2_RESET_START_STRING = ''WCN-CP2-RESET-START''"
definition WCND_CP2_RESET_END_STRING :: string where "WCND_CP2_RESET_END_STRING = ''WCN-CP2-RESET-END''"
definition WCND_CP2_ALIVE_STRING :: string where "WCND_CP2_ALIVE_STRING = ''WCN-CP2-ALIVE''"

definition check_if_reset_enable :: "WcndManager \<Rightarrow> bool" where
  "check_if_reset_enable s \<longleftrightarrow> atoi (property_get WCND_RESET_PROP_KEY ''0'' s) \<noteq> 0"

definition check_if_wcnmodem_enable :: "WcndManager \<Rightarrow> bool" where
  "check_if_wcnmodem_enable s \<longleftrightarrow> atoi (property_get WCND_MODEM_ENABLE_PROP_KEY ''1'' s) \<noteq> 0"

text \<open>Another process sets the property that is polled: its values are results of calls.\<close>

fun wait_loop :: "nat \<Rightarrow> WcndManager \<Rightarrow> WcndManager option" where
  "wait_loop 0 s = Some s"
| "wait_loop (Suc maxnaps) s =
     do { (c, s) \<leftarrow> syscall s; (if c = Bytes ''1'' then Some s else wait_loop maxnaps s) }"

definition wait_for_dump_logs :: "WcndManager \<Rightarrow> WcndManager option" where
  "wait_for_dump_logs s =
     (if atoi (property_get WCND_SLOG_ENABLE_PROP_KEY ''0'' s) = 0 then Some s
      else wait_loop (300 * 1000 div 200) s)"

text \<open>The process is a sequence of phases, between which other threads run: the wait for the logs, before an
  attempt, at work on the coprocessor, after it with its outcome, and the two stores at the end.\<close>

datatype reset_pc = Waiting | Attempt nat | Working nat | Ending nat bool | Clearing | Clearing2 | Over

fun reset_step :: "reset_pc \<Rightarrow> WcndManager \<Rightarrow> (reset_pc \<times> WcndManager) option" where
  "reset_step Waiting s = map_option (Pair (Attempt 0)) (wait_for_dump_logs s)"
| "reset_step (Attempt n) s =
     (if n > RESET_FAIL_RETRY_COUNT then Some (Over, s\<lparr>doing_reset := False\<rparr>)
      else map_option (Pair (Working n)) (send_notify_to_client WCND_CP2_RESET_START_STRING s))"
| "reset_step (Working n) s = map_option (\<lambda>(ok, s). (Ending n ok, s)) (reset_cp2 s)"
| "reset_step (Ending n is_alive_ok) s =
     do { s \<leftarrow> send_notify_to_client WCND_CP2_RESET_END_STRING s;
          (if is_alive_ok then map_option (Pair Clearing) (send_notify_to_client WCND_CP2_ALIVE_STRING s)
           else Some (Attempt (n + 1), s)) }"
| "reset_step Clearing s = Some (Clearing2, s\<lparr>doing_reset := False\<rparr>)"
| "reset_step Clearing2 s = Some (Over, s\<lparr>is_cp2_error := False\<rparr>)"
| "reset_step Over s = Some (Over, s)"

fun pc_rank :: "reset_pc \<Rightarrow> nat" where
  "pc_rank Waiting = 3 * (RESET_FAIL_RETRY_COUNT + 1) + 6"
| "pc_rank (Attempt n) = (if n > RESET_FAIL_RETRY_COUNT then 1 else 3 * (RESET_FAIL_RETRY_COUNT + 1 - n) + 5)"
| "pc_rank (Working n) = 3 * (RESET_FAIL_RETRY_COUNT + 1 - n) + 4"
| "pc_rank (Ending n ok) = 3 * (RESET_FAIL_RETRY_COUNT + 1 - n) + 3"
| "pc_rank Clearing = 2"
| "pc_rank Clearing2 = 1"
| "pc_rank Over = 0"

lemma reset_step_rank: "reset_step pc s = Some (pc', s') \<Longrightarrow> pc \<noteq> Over \<Longrightarrow> pc_rank pc' < pc_rank pc"
  by (cases pc) (auto simp: bind_eq_Some_conv split: if_splits)

function run_reset :: "reset_pc \<Rightarrow> WcndManager \<Rightarrow> WcndManager option" where
  "run_reset pc s =
     (if pc = Over then Some s
      else do { (pc', s') \<leftarrow> reset_step pc s; run_reset pc' s' })"
  by auto
termination
  by (relation "measure (\<lambda>(pc, s). pc_rank pc)") (auto dest: reset_step_rank)

declare run_reset.simps [simp del]

definition do_cp2_reset_process :: "WcndManager \<Rightarrow> WcndManager option" where
  "do_cp2_reset_process s =
     (if \<not> check_if_reset_enable s then Some s
      else run_reset Waiting (s\<lparr>doing_reset := True\<rparr>))"

section \<open>Exceptions\<close>

definition pre_send_cp2_exception_notify :: "WcndManager \<Rightarrow> WcndManager" where
  "pre_send_cp2_exception_notify s = property_set WCND_SLOG_RESULT_PROP_KEY ''0'' s"

definition exception_text :: "string \<Rightarrow> string" where
  "exception_text rd = take 254 (WCND_CP2_EXCEPTION_STRING @ '' '' @ rd)"

text \<open>The data of an exception as the result of the read. The array of 200 characters that is read into has no
  terminator if the data fills it.\<close>

definition exception_data :: "sysres \<Rightarrow> string option" where
  "exception_data c =
     (case c of
        Bytes b \<Rightarrow> if 200 \<le> length b \<and> CHR 0x00 \<notin> set (take 200 b) then None else Some (cstr (take 200 b))
      | _ \<Rightarrow> Some [])"

text \<open>The common body of the handlers of the assert and the watchdog file.\<close>

definition exception_send :: "sysres \<Rightarrow> WcndManager \<Rightarrow> WcndManager option" where
  "exception_send c s =
     do { rd \<leftarrow> exception_data c; send_notify_to_client (exception_text rd) (pre_send_cp2_exception_notify s) }"

definition handle_exception :: "WcndManager \<Rightarrow> WcndManager option" where
  "handle_exception s =
     do { (c, s) \<leftarrow> syscall (s\<lparr>is_cp2_error := True\<rparr>);
          (if doing_reset s then Some s else exception_send c s) }"

definition handle_cp2_assert :: "WcndManager \<Rightarrow> WcndManager option" where
  "handle_cp2_assert s = handle_exception s"

definition handle_cp2_watchdog_exception :: "WcndManager \<Rightarrow> WcndManager option" where
  "handle_cp2_watchdog_exception s = handle_exception s"

definition handle_cp2_loop_check_fail :: "WcndManager \<Rightarrow> WcndManager option" where
  "handle_cp2_loop_check_fail s =
     (let s = s\<lparr>is_cp2_error := True\<rparr>
      in if doing_reset s then Some s
         else send_notify_to_client (exception_text ''CP2 LOOP CHECK FAIL'') (pre_send_cp2_exception_notify s))"

text \<open>One turn of the thread that watches the two files, for the files \<open>select\<close> found readable, and one of
  the thread that tests the loop.\<close>

definition cp2_listen_turn :: "bool \<Rightarrow> bool \<Rightarrow> WcndManager \<Rightarrow> WcndManager option" where
  "cp2_listen_turn assert_set watchdog_set s =
     do { s \<leftarrow> (if assert_set then handle_cp2_assert s else Some s);
          (if watchdog_set then handle_cp2_watchdog_exception s else Some s) }"

definition cp2_loop_check_turn :: "WcndManager \<Rightarrow> WcndManager option" where
  "cp2_loop_check_turn s =
     (if is_cp2_error s then Some s
      else do { (ok, s) \<leftarrow> is_cp2_alive_ok s;
                (if ok then Some s else handle_cp2_loop_check_fail s) })"

end
