(* ===== verification/Wcn_Command.thy ===== *)
theory Wcn_Command
  imports Wcn_Manager
begin

text \<open>
  \<open>apps/wcnd/wcnd.c\<close> and \<open>wcnd_eng_cmd_executer.c\<close>: the commands of clients. The tokenizer, the executers and their
  registration, the thread that accepts clients and reads their commands, and the start of the daemon.
  The two libraries for the engineering mode are parameters. The lemmas show that commands with quoted
  arguments arrive as they were sent.
\<close>

section \<open>Executers of commands\<close>

text \<open>The answer to an AT command is awaited in at most six reads.\<close>

fun atcmd_read :: "nat \<Rightarrow> WcndManager \<Rightarrow> (string \<times> WcndManager) option" where
  "atcmd_read 0 s = Some (''Fail: No data available'', s)"
| "atcmd_read (Suc n) s =
     do { (c, s) \<leftarrow> syscall_retry s;
          (case c of
             Bytes b \<Rightarrow> if b \<noteq> [] then Some (cstr (take 254 b), s) else atcmd_read n s
           | _ \<Rightarrow> atcmd_read n s) }"

text \<open>A command ends with a carriage return; it is added where there is room.\<close>

definition atcmd_buffer :: "string \<Rightarrow> string" where
  "atcmd_buffer atcmd_str =
     (if length atcmd_str < 254 \<and> last atcmd_str \<noteq> CHR 0x0D then atcmd_str @ [CHR 0x0D]
      else take (length atcmd_str) (take 254 atcmd_str @ [CHR 0x00]))"

definition atcmd_exchange :: "string \<Rightarrow> WcndManager \<Rightarrow> (string option \<times> WcndManager) option" where
  "atcmd_exchange buffer s =
     do { (fd, s) \<leftarrow> syscall s;
          (if res_int fd < 0 then Some (None, s)
           else do { (len, s) \<leftarrow> dev_write WCN_ATCMD_IFACE buffer s;
             (if len < 0 then Some (None, s)
              else do { (answer, s) \<leftarrow> atcmd_read 6 s; Some (Some answer, s) }) }) }"

definition wcn_process_atcmd :: "int \<Rightarrow> string \<Rightarrow> WcndManager \<Rightarrow> WcndManager option" where
  "wcn_process_atcmd client_fd atcmd_str s =
     (if atcmd_str = [] \<or> 255 < length atcmd_str then None
      else do { (answer, s) \<leftarrow> atcmd_exchange (atcmd_buffer atcmd_str) s;
                (case answer of
                   None \<Rightarrow> Some s
                 | Some a \<Rightarrow>
                     if client_fd \<le> 0 then Some s
                     else do { r \<leftarrow> syscall s; Some (snd (write_fd client_fd (a @ [CHR 0x00]) r)) }) })"

definition wcn_runcommand :: "int \<Rightarrow> string list \<Rightarrow> WcndManager \<Rightarrow> WcndManager option" where
  "wcn_runcommand client_fd argv s =
     (case argv of
        [] \<Rightarrow> send_back_cmd_result client_fd (Some ''Missing argument'') False s
      | cmd # _ \<Rightarrow>
          if cmd = ''reset'' then
            do { s \<leftarrow> send_back_cmd_result client_fd None True s; do_cp2_reset_process s }
          else if cmd = ''test'' then send_back_cmd_result client_fd None True s
          else if strstr cmd ''at+'' then wcn_process_atcmd client_fd cmd s
          else send_back_cmd_result client_fd (Some ''Not support cmd'') False s)"

text \<open>The commands of the libraries for the WiFi and Bluetooth tests are parameters.\<close>

type_synonym runcommand = "int \<Rightarrow> string list \<Rightarrow> WcndManager \<Rightarrow> WcndManager option"

definition eng_runcommand :: "runcommand \<Rightarrow> runcommand \<Rightarrow> runcommand" where
  "eng_runcommand iwnpi_runcommand bt_runcommand client_fd argv s =
     (let missing = send_back_cmd_result client_fd (Some ''Missing argument'') False s in
      case argv of
        [] \<Rightarrow> missing
      | m # args \<Rightarrow>
          if m = ''iwnpi'' then if args = [] then missing else iwnpi_runcommand client_fd args s
          else if m = ''bt'' then if args = [] then missing else bt_runcommand client_fd args s
          else send_back_cmd_result client_fd (Some ''Not support cmd'') False s)"

fun register_in :: "WcnCmdExecuter option list \<Rightarrow> WcnCmdExecuter \<Rightarrow> WcnCmdExecuter option list option" where
  "register_in [] x = None"
| "register_in (None # es) x = Some (Some x # es)"
| "register_in (Some e # es) x = (if e = x then Some (Some e # es) else map_option ((#) (Some e)) (register_in es x))"

definition wcnd_register_cmdexecuter :: "WcnCmdExecuter \<Rightarrow> WcndManager \<Rightarrow> int \<times> WcndManager" where
  "wcnd_register_cmdexecuter x s =
     (if \<not> inited s then (-1, s)
      else case register_in (cmdexecuter_list s) x of
        None \<Rightarrow> (-1, s)
      | Some es \<Rightarrow> (0, s\<lparr>cmdexecuter_list := es\<rparr>))"

section \<open>Commands\<close>

definition WCND_CMD_ARGS_MAX :: nat where "WCND_CMD_ARGS_MAX = 16"

text \<open>The variables of the tokenizer. \<open>tmp\<close> holds what is between the array \<open>tmp\<close> and \<open>q\<close>, at most 254
  characters. The flag for a sequence number is never set and left out.\<close>

record tokens =
  argv :: "string list"
  tmp :: string
  esc :: bool
  quote :: bool

definition tok_put :: "char \<Rightarrow> tokens \<Rightarrow> string + tokens" where
  "tok_put c t = (if 254 \<le> length (tmp t) then Inl ''Command too long'' else Inr (t\<lparr>tmp := tmp t @ [c]\<rparr>))"

definition tok_arg :: "tokens \<Rightarrow> string + tokens" where
  "tok_arg t =
     (if WCND_CMD_ARGS_MAX \<le> length (argv t) then Inl ''Command too long''
      else Inr (t\<lparr>argv := argv t @ [tmp t], tmp := []\<rparr>))"

definition tok_char :: "char \<Rightarrow> tokens \<Rightarrow> string + tokens" where
  "tok_char c t =
     (if c = CHR 0x5C then
        if esc t then map_sum id (\<lambda>t. t\<lparr>esc := False\<rparr>) (tok_put c t) else Inr (t\<lparr>esc := True\<rparr>)
      else if esc t then
        if c = CHR 0x22 then map_sum id (\<lambda>t. t\<lparr>esc := False\<rparr>) (tok_put c t)
        else Inl ''Unsupported escape sequence''
      else if c = CHR 0x22 then Inr (t\<lparr>quote := \<not> quote t\<rparr>)
      else if 254 \<le> length (tmp t) then Inl ''Command too long''
      else if \<not> quote t \<and> c = CHR '' '' then tok_arg t
      else tok_put c t)"

fun tok_loop :: "string \<Rightarrow> tokens \<Rightarrow> string + tokens" where
  "tok_loop [] t = Inr t"
| "tok_loop (c # p) t = (case tok_char c t of Inl e \<Rightarrow> Inl e | Inr t \<Rightarrow> tok_loop p t)"

definition tokenize :: "string \<Rightarrow> string + string list" where
  "tokenize data =
     (case tok_loop data \<lparr>argv = [], tmp = [], esc = False, quote = False\<rparr> of
        Inl e \<Rightarrow> Inl e
      | Inr t \<Rightarrow>
          (case tok_arg t of
             Inl e \<Rightarrow> Inl e
           | Inr u \<Rightarrow> if quote t then Inl ''Unclosed quotes error'' else Inr (argv u)))"

fun find_executer :: "string \<Rightarrow> WcnCmdExecuter option list \<Rightarrow> WcnCmdExecuter option" where
  "find_executer name [] = None"
| "find_executer name (None # es) = find_executer name es"
| "find_executer name (Some e # es) = (if name = executer_name e then Some e else find_executer name es)"

definition run_args :: "runcommand \<Rightarrow> runcommand \<Rightarrow> int \<Rightarrow> string list \<Rightarrow> WcndManager \<Rightarrow> WcndManager option" where
  "run_args iwnpi bt client_fd args s =
     (case find_executer (hd args) (cmdexecuter_list s) of
        None \<Rightarrow> send_back_cmd_result client_fd (Some ''Command not recognized'') False s
      | Some wcn_cmdexecuter \<Rightarrow> wcn_runcommand client_fd (tl args) s
      | Some wcn_eng_cmdexecuter \<Rightarrow> eng_runcommand iwnpi bt client_fd (tl args) s)"

definition dispatch_command2 :: "runcommand \<Rightarrow> runcommand \<Rightarrow> int \<Rightarrow> string \<Rightarrow> WcndManager \<Rightarrow> WcndManager option" where
  "dispatch_command2 iwnpi bt client_fd data s =
     (case tokenize data of
        Inl e \<Rightarrow> send_back_cmd_result client_fd (Some e) False s
      | Inr args \<Rightarrow> run_args iwnpi bt client_fd args s)"

text \<open>The loop over the data with the command that has been collected; every command ends with a null
  character.\<close>

fun dispatch_loop :: "runcommand \<Rightarrow> runcommand \<Rightarrow> int \<Rightarrow> string \<Rightarrow> string \<Rightarrow> WcndManager \<Rightarrow> WcndManager option" where
  "dispatch_loop iwnpi bt fd cmd [] s = (if cmd \<noteq> [] then dispatch_command2 iwnpi bt fd cmd s else Some s)"
| "dispatch_loop iwnpi bt fd cmd (c # data) s =
     (if c = CHR 0x00 then
        do { s \<leftarrow> (if cmd \<noteq> [] then dispatch_command2 iwnpi bt fd cmd s else Some s);
             dispatch_loop iwnpi bt fd [] data s }
      else dispatch_loop iwnpi bt fd (cmd @ [c]) data s)"

definition dispatch_command :: "runcommand \<Rightarrow> runcommand \<Rightarrow> int \<Rightarrow> string \<Rightarrow> WcndManager \<Rightarrow> WcndManager option" where
  "dispatch_command iwnpi bt client_fd data s =
     (if 255 \<le> length data then Some s
      else dispatch_loop iwnpi bt client_fd [] (dropWhile (\<lambda>c. c = CHR '' '') data) s)"

section \<open>The thread for the clients\<close>

definition process_active_client_fd ::
  "runcommand \<Rightarrow> runcommand \<Rightarrow> int \<Rightarrow> WcndManager \<Rightarrow> (int \<times> WcndManager) option" where
  "process_active_client_fd iwnpi bt fd s =
     do { (c, s) \<leftarrow> syscall_retry s;
          (case c of
             Bytes b \<Rightarrow>
               if b = [] then Some (RDWR_FD_FAIL, s)
               else map_option (Pair 0) (dispatch_command iwnpi bt fd (take 254 b @ [CHR 0x00]) s)
           | _ \<Rightarrow> Some (RDWR_FD_FAIL, s)) }"

fun zap :: "int \<Rightarrow> int list \<Rightarrow> int list option" where
  "zap fd [] = None"
| "zap fd (c # cs) = (if c = fd then Some (-1 # cs) else map_option ((#) c) (zap fd cs))"

definition remove_client :: "int \<Rightarrow> WcndManager \<Rightarrow> WcndManager" where
  "remove_client fd s =
     (case zap fd (client_fds s) of
        None \<Rightarrow> s
      | Some fds \<Rightarrow> s\<lparr>client_fds := fds, closed := closed s @ [fd]\<rparr>)"

fun pending_loop :: "runcommand \<Rightarrow> runcommand \<Rightarrow> int list \<Rightarrow> WcndManager \<Rightarrow> WcndManager option" where
  "pending_loop iwnpi bt [] s = Some s"
| "pending_loop iwnpi bt (fd # fds) s =
     (if fd = -1 then pending_loop iwnpi bt fds s
      else do { (r, s) \<leftarrow> process_active_client_fd iwnpi bt fd s;
                pending_loop iwnpi bt fds (if r = RDWR_FD_FAIL then remove_client fd s else s) })"

text \<open>One turn of the thread: \<open>accepted\<close> is the new connection, if there is one, \<open>ready\<close> tells the
  descriptors that \<open>select\<close> found readable.\<close>

definition client_listen_turn ::
  "runcommand \<Rightarrow> runcommand \<Rightarrow> int option \<Rightarrow> (int \<Rightarrow> bool) \<Rightarrow> WcndManager \<Rightarrow> WcndManager option" where
  "client_listen_turn iwnpi bt accepted ready s =
     (let s = (case accepted of None \<Rightarrow> s | Some c \<Rightarrow> s\<lparr>client_fds := store_client_fd (client_fds s) c\<rparr>);
          pending_fds = fold (\<lambda>fd fds. if fd \<noteq> -1 \<and> ready fd then store_client_fd fds fd else fds)
                          (client_fds s) (replicate WCND_MAX_CLIENT_NUM (-1))
      in pending_loop iwnpi bt pending_fds s)"

section \<open>Start\<close>

text \<open>\<open>init\<close> with the result of \<open>socket_local_server\<close>; the environment is that of \<open>e\<close>.\<close>

definition wcnd_init :: "int \<Rightarrow> WcndManager \<Rightarrow> int \<times> WcndManager" where
  "wcnd_init listen_fd e =
     (let s = e\<lparr>inited := False, client_fds := replicate WCND_MAX_CLIENT_NUM (-1), notify_count := 0,
                cmdexecuter_list := replicate WCND_MAX_CMD_EXECUTER_NUM None, doing_reset := False, is_cp2_error := False\<rparr>
      in if listen_fd < 0 then (-1, s)
         else (let s = (if props s WCND_RESET_PROP_KEY = [] then property_set WCND_RESET_PROP_KEY ''1'' s else s)
               in (0, s\<lparr>inited := True\<rparr>)))"

definition check_disable_cp2_log :: "WcndManager \<Rightarrow> WcndManager option" where
  "check_disable_cp2_log s =
     (if strstr (property_get ''ro.build.type'' ''userdebug'' s) ''userdebug'' then Some s
      else wcn_process_atcmd (-1) (''AT+ARMLOG=0'' @ [CHR 0x0D]) s)"

definition start_engineer_service :: "WcndManager \<Rightarrow> WcndManager" where
  "start_engineer_service s =
     (if property_get ''persist.sys.engpc.disable'' ''0'' s = ''1'' then s
      else property_set ''ctl.start'' ''engpcclientwcn''
             (property_set ''ctl.start'' ''engmodemclientwcn'' (property_set ''ctl.start'' ''engservicewcn'' s)))"

text \<open>The threads that run after the start, for the results of \<open>pthread_create\<close>. Without the first or the second
  the daemon ends; the coprocessor is watched if it is enabled.\<close>

datatype wcnd_thread = Client_thread | Listen_thread | Loop_thread

definition start_threads :: "(nat \<Rightarrow> bool) \<Rightarrow> WcndManager \<Rightarrow> wcnd_thread list option" where
  "start_threads created s =
     (if \<not> created 0 then None
      else if \<not> check_if_wcnmodem_enable s then Some [Client_thread]
      else if \<not> created 1 then None
      else Some (Client_thread # Listen_thread # (if created 2 then [Loop_thread] else [])))"

text \<open>\<open>main\<close> after the addresses; \<open>Some None\<close> is an exit.\<close>

definition wcnd_main :: "int \<Rightarrow> (nat \<Rightarrow> bool) \<Rightarrow> WcndManager \<Rightarrow> (wcnd_thread list \<times> WcndManager) option option" where
  "wcnd_main listen_fd created e =
     (case wcnd_init listen_fd e of
        (r, s) \<Rightarrow>
          if r < 0 then Some None
          else (case start_threads created s of
                  None \<Rightarrow> Some None
                | Some ts \<Rightarrow>
                    let s = start_engineer_service s;
                        s = snd (wcnd_register_cmdexecuter wcn_cmdexecuter s);
                        s = snd (wcnd_register_cmdexecuter wcn_eng_cmdexecuter s)
                    in map_option (\<lambda>s. Some (ts, s)) (check_disable_cp2_log s)))"

section \<open>Quoted arguments\<close>

definition escape :: "char \<Rightarrow> string" where
  "escape c = (if c = CHR 0x5C \<or> c = CHR 0x22 then [CHR 0x5C, c] else [c])"

definition quote_arg :: "string \<Rightarrow> string" where
  "quote_arg a = CHR 0x22 # concat (map escape a) @ [CHR 0x22]"

fun join :: "string list \<Rightarrow> string" where
  "join [] = []"
| "join [a] = quote_arg a"
| "join (a # as) = quote_arg a @ CHR '' '' # join as"

lemma tok_loop_append:
  "tok_loop (p @ q) t = (case tok_loop p t of Inl e \<Rightarrow> Inl e | Inr t \<Rightarrow> tok_loop q t)"
  by (induction p arbitrary: t) (auto split: sum.split)

lemma tok_loop_escape:
  "\<not> esc t \<Longrightarrow> quote t \<Longrightarrow> length (tmp t) < 254 \<Longrightarrow> tok_loop (escape c) t = Inr (t\<lparr>tmp := tmp t @ [c]\<rparr>)"
  by (cases t) (auto simp: escape_def tok_char_def tok_put_def)

lemma tok_loop_escapes:
  "\<not> esc t \<Longrightarrow> quote t \<Longrightarrow> length (tmp t) + length a \<le> 254 \<Longrightarrow>
   tok_loop (concat (map escape a)) t = Inr (t\<lparr>tmp := tmp t @ a\<rparr>)"
proof (induction a arbitrary: t)
  case (Cons c a)
  then show ?case by (simp add: tok_loop_append tok_loop_escape)
qed simp

lemma tok_loop_quote_arg:
  assumes "\<not> esc t" "\<not> quote t" "tmp t = []" "length a \<le> 254"
  shows "tok_loop (quote_arg a) t = Inr (t\<lparr>tmp := a\<rparr>)"
proof -
  have "tok_loop (concat (map escape a)) (t\<lparr>quote := True\<rparr>) = Inr (t\<lparr>quote := True, tmp := a\<rparr>)"
    using tok_loop_escapes [of "t\<lparr>quote := True\<rparr>" a] assms by simp
  then show ?thesis using assms by (cases t) (simp add: quote_arg_def tok_loop_append tok_char_def)
qed

lemma tok_loop_join:
  assumes "args \<noteq> []" "\<not> esc t" "\<not> quote t" "tmp t = []"
    "list_all (\<lambda>a. length a < 254) (butlast args)" "length (last args) \<le> 254"
    "length (argv t) + length args \<le> WCND_CMD_ARGS_MAX"
  shows "tok_loop (join args) t = Inr (t\<lparr>argv := argv t @ butlast args, tmp := last args\<rparr>)"
  using assms
proof (induction args arbitrary: t rule: join.induct)
  case (2 a)
  then show ?case by (simp add: tok_loop_quote_arg)
next
  case (3 a b as)
  have a: "length a < 254" using 3(6) by simp
  have "tok_char (CHR '' '') (t\<lparr>tmp := a\<rparr>) = Inr (t\<lparr>argv := argv t @ [a], tmp := []\<rparr>)"
    using 3(3,4,8) a by (simp add: tok_char_def tok_arg_def)
  moreover have "tok_loop (join (b # as)) (t\<lparr>argv := argv t @ [a], tmp := []\<rparr>) =
      Inr (t\<lparr>argv := argv t @ [a], tmp := []\<rparr>\<lparr>argv := argv t @ [a] @ butlast (b # as), tmp := last (b # as)\<rparr>)"
    using 3(1) [of "t\<lparr>argv := argv t @ [a], tmp := []\<rparr>"] 3(3,4,6,7,8) by simp
  ultimately show ?case using 3(3-5) a by (simp add: tok_loop_append tok_loop_quote_arg)
qed simp

lemma tokenize_join:
  assumes "args \<noteq> []" "list_all (\<lambda>a. length a < 254) (butlast args)" "length (last args) \<le> 254"
    "length args \<le> WCND_CMD_ARGS_MAX"
  shows "tokenize (join args) = Inr args"
proof -
  have "length (butlast args) < WCND_CMD_ARGS_MAX" using assms(1,4) by (cases args) auto
  then show ?thesis
    using tok_loop_join [OF assms(1), of "\<lparr>argv = [], tmp = [], esc = False, quote = False\<rparr>"] assms
    by (simp add: tokenize_def tok_arg_def)
qed

section \<open>Several commands in one read\<close>

text \<open>Commands as they come in one read: each ends with a null character.\<close>

definition wire :: "string list \<Rightarrow> string" where
  "wire cmds = concat (map (\<lambda>c. c @ [CHR 0x00]) cmds)"

fun run_commands :: "runcommand \<Rightarrow> runcommand \<Rightarrow> int \<Rightarrow> string list \<Rightarrow> WcndManager \<Rightarrow> WcndManager option" where
  "run_commands iwnpi bt fd [] s = Some s"
| "run_commands iwnpi bt fd (c # cs) s =
     do { s \<leftarrow> dispatch_command2 iwnpi bt fd c s; run_commands iwnpi bt fd cs s }"

lemma dispatch_loop_word:
  "CHR 0x00 \<notin> set c \<Longrightarrow> dispatch_loop iwnpi bt fd cmd (c @ data) s = dispatch_loop iwnpi bt fd (cmd @ c) data s"
  by (induction c arbitrary: cmd) auto

lemma dispatch_loop_wire:
  "list_all (\<lambda>c. CHR 0x00 \<notin> set c) cmds \<Longrightarrow>
   dispatch_loop iwnpi bt fd [] (wire cmds) s = run_commands iwnpi bt fd (filter (\<lambda>c. c \<noteq> []) cmds) s"
proof (induction cmds arbitrary: s)
  case (Cons c cmds)
  then show ?case
    by (cases "dispatch_command2 iwnpi bt fd c s") (auto simp: wire_def dispatch_loop_word)
qed (simp add: wire_def)

fun run_all :: "runcommand \<Rightarrow> runcommand \<Rightarrow> int \<Rightarrow> string list list \<Rightarrow> WcndManager \<Rightarrow> WcndManager option" where
  "run_all iwnpi bt fd [] s = Some s"
| "run_all iwnpi bt fd (args # rest) s = do { s \<leftarrow> run_args iwnpi bt fd args s; run_all iwnpi bt fd rest s }"

definition good_args :: "string list \<Rightarrow> bool" where
  "good_args args \<longleftrightarrow> args \<noteq> [] \<and> length args \<le> WCND_CMD_ARGS_MAX \<and> list_all (\<lambda>a. length a < 254 \<and> CHR 0x00 \<notin> set a) args"

lemma tokenize_good: "good_args args \<Longrightarrow> tokenize (join args) = Inr args"
  using last_in_set [of args] by (intro tokenize_join) (auto simp: good_args_def list_all_iff less_imp_le dest: in_set_butlastD)

lemma join_nonempty: "args \<noteq> [] \<Longrightarrow> join args \<noteq> [] \<and> hd (join args) = CHR 0x22"
  by (cases args rule: join.cases) (auto simp: quote_arg_def)

lemma join_no_null: "list_all (\<lambda>a. length a < 254 \<and> CHR 0x00 \<notin> set a) args \<Longrightarrow> CHR 0x00 \<notin> set (join args)"
  by (induction args rule: join.induct) (auto simp: quote_arg_def escape_def)

lemma run_commands_join:
  "list_all good_args argss \<Longrightarrow> run_commands iwnpi bt fd (map join argss) s = run_all iwnpi bt fd argss s"
proof (induction argss arbitrary: s)
  case (Cons args argss)
  then show ?case by (cases "run_args iwnpi bt fd args s") (auto simp: dispatch_command2_def tokenize_good)
qed simp

section \<open>Properties of commands\<close>

text \<open>C16: Commands whose arguments are quoted, each command with its null character, arrive as they were sent:
  one read with at most 253 characters executes all of them in order, each with exactly its arguments.
  A read of 254 characters, which the buffer allows, is dropped without an answer.\<close>

theorem commands_delivered:
  assumes "list_all good_args argss" "argss \<noteq> []"
  shows "(length (wire (map join argss)) \<le> 253 \<longrightarrow>
      process_active_client_fd iwnpi bt fd (s\<lparr>calls := Bytes (wire (map join argss)) # cs\<rparr>) =
        map_option (Pair 0) (run_all iwnpi bt fd argss (s\<lparr>calls := cs\<rparr>))) \<and>
    (length (wire (map join argss)) = 254 \<longrightarrow>
      process_active_client_fd iwnpi bt fd (s\<lparr>calls := Bytes (wire (map join argss)) # cs\<rparr>) = Some (0, s\<lparr>calls := cs\<rparr>))"
proof -
  let ?w = "wire (map join argss)"
  obtain args rest where e: "argss = args # rest" "args \<noteq> []"
    using assms by (cases argss) (auto simp: good_args_def)
  have h: "?w \<noteq> []" "hd ?w = CHR 0x22" using join_nonempty [OF e(2)] e(1) by (auto simp: wire_def hd_append)
  then have d: "dropWhile (\<lambda>c. c = CHR '' '') (?w @ [CHR 0x00]) = ?w @ [CHR 0x00]" by (cases ?w) auto
  have f: "filter (\<lambda>c. c \<noteq> []) (map join argss @ [[]]) = map join argss"
    using assms(1) join_nonempty by (auto simp: filter_id_conv list_all_iff good_args_def)
  have n: "list_all (\<lambda>c. CHR 0x00 \<notin> set c) (map join argss @ [[]])"
    using assms(1) join_no_null by (auto simp: list_all_iff good_args_def)
  have w: "?w @ [CHR 0x00] = wire (map join argss @ [[]])" by (simp add: wire_def)
  have "dispatch_loop iwnpi bt fd [] (?w @ [CHR 0x00]) t = run_all iwnpi bt fd argss t" for t
    unfolding w dispatch_loop_wire [OF n] f run_commands_join [OF assms(1)] ..
  then show ?thesis
    using h d by (simp add: process_active_client_fd_def syscall_retry_def syscall_def dispatch_command_def)
qed

text \<open>A client that sends two commands in one read, the second with a blank in its argument.\<close>

definition demo_wcnd :: WcndManager where
  "demo_wcnd = \<lparr>inited = True, client_fds = [7, 8, -1], notify_count = 0,
     cmdexecuter_list = [Some wcn_cmdexecuter, Some wcn_eng_cmdexecuter], doing_reset = False, is_cp2_error = False,
     props = (\<lambda>k. if k = WCND_RESET_PROP_KEY then ''1'' else []), msgs = [], devs = [], closed = [], calls = []\<rparr>"

theorem commands_delivered_witness:
  "process_active_client_fd (\<lambda>fd args s. Some s) (\<lambda>fd args s. Some s) 7
     (demo_wcnd\<lparr>calls := Bytes (wire [join [''wcn'', ''test''], join [''wcn'', ''re set'']]) # [Ret 3, Ret 21]\<rparr>) =
   map_option (Pair 0) (run_all (\<lambda>fd args s. Some s) (\<lambda>fd args s. Some s) 7 [[''wcn'', ''test''], [''wcn'', ''re set'']]
     (demo_wcnd\<lparr>calls := [Ret 3, Ret 21]\<rparr>))"
proof -
  have "list_all good_args [[''wcn'', ''test''], [''wcn'', ''re set'']]" by (simp add: good_args_def WCND_CMD_ARGS_MAX_def)
  moreover have "length (wire (map join [[''wcn'', ''test''], [''wcn'', ''re set'']])) \<le> 253"
    by (simp add: wire_def quote_arg_def escape_def)
  ultimately show ?thesis
    using commands_delivered [where argss = "[[''wcn'', ''test''], [''wcn'', ''re set'']]" and iwnpi = "\<lambda>fd args s. Some s" and
        bt = "\<lambda>fd args s. Some s" and fd = 7 and s = demo_wcnd and cs = "[Ret 3, Ret 21]"]
    by simp
qed

end
