(* ===== verification/Wcn_Reset.thy ===== *)
theory Wcn_Reset
  imports Wcn_Command "HOL-Library.Sublist"
begin

text \<open>
  The reset of the coprocessor in \<open>apps/wcnd/wcnd.c\<close>: what each operation leaves alone (\<open>keeps\<close>, one rule
  for each construct and operation), what a notification does to each client, what the clients are told in a reset,
  and what a successful reset has written to the device files.
\<close>

section \<open>What the operations on the coprocessor leave alone\<close>

text \<open>Only the device files and the results to come change, and of these some are used up.\<close>

definition only_io :: "WcndManager \<Rightarrow> WcndManager \<Rightarrow> bool" where
  "only_io s s' \<longleftrightarrow> s\<lparr>devs := [], calls := []\<rparr> = s'\<lparr>devs := [], calls := []\<rparr> \<and> suffix (calls s') (calls s)"

lemma only_io_refl [simp]: "only_io s s"
  by (simp add: only_io_def)

lemma only_io_trans [trans]: "only_io s s1 \<Longrightarrow> only_io s1 s2 \<Longrightarrow> only_io s s2"
  unfolding only_io_def by (metis suffix_order.trans)

lemma only_io_fields:
  assumes "only_io s s'"
  shows "client_fds s' = client_fds s" "msgs s' = msgs s" "doing_reset s' = doing_reset s" "is_cp2_error s' = is_cp2_error s"
    "props s' = props s" "closed s' = closed s" "cmdexecuter_list s' = cmdexecuter_list s" "inited s' = inited s"
  using assms by (cases s; cases s'; simp add: only_io_def)+

lemma only_io_calls: "only_io s s' \<Longrightarrow> \<exists>pre. calls s = pre @ calls s'"
  by (simp add: only_io_def suffix_def)

lemma only_io_update [simp]: "suffix c (calls s) \<Longrightarrow> only_io s (s\<lparr>calls := c\<rparr>)" "only_io s (s\<lparr>devs := d\<rparr>)"
  by (simp_all add: only_io_def)

text \<open>A computation that started from \<open>s\<close> keeps the rest of it; one rule for each construct and each
  operation.\<close>

definition keeps :: "WcndManager \<Rightarrow> ('a \<times> WcndManager) option \<Rightarrow> bool" where
  "keeps s m \<longleftrightarrow> (\<forall>r s'. m = Some (r, s') \<longrightarrow> only_io s s')"

named_theorems keeps_rules

lemma keepsD: "keeps s m \<Longrightarrow> m = Some (r, s') \<Longrightarrow> only_io s s'"
  by (simp add: keeps_def)

lemma keeps_None [keeps_rules]: "keeps s None"
  by (simp add: keeps_def)

lemma keeps_Some [keeps_rules]: "only_io s s' \<Longrightarrow> keeps s (Some (r, s'))"
  by (simp add: keeps_def)

lemma keeps_bind [keeps_rules]:
  "keeps s m \<Longrightarrow> (\<And>x s1. only_io s s1 \<Longrightarrow> keeps s (f x s1)) \<Longrightarrow> keeps s (m \<bind> (\<lambda>(x, s1). f x s1))"
  by (auto simp: keeps_def bind_eq_Some_conv)

lemma keeps_if [keeps_rules]: "(b \<Longrightarrow> keeps s m) \<Longrightarrow> (\<not> b \<Longrightarrow> keeps s m') \<Longrightarrow> keeps s (if b then m else m')"
  by simp

lemma keeps_sysres [keeps_rules]:
  "(\<And>r. keeps s (f r)) \<Longrightarrow> keeps s g \<Longrightarrow> (\<And>b. keeps s (h b)) \<Longrightarrow>
   keeps s (case c of Ret r \<Rightarrow> f r | Interrupted \<Rightarrow> g | Bytes b \<Rightarrow> h b)"
  by (simp split: sysres.split)

lemma keeps_map [keeps_rules]: "only_io s s1 \<Longrightarrow> keeps s (map_option (\<lambda>x. (x, s1)) m)"
  by (auto simp: keeps_def)

lemma keeps_from: "(\<And>s. keeps s (m s)) \<Longrightarrow> only_io s s1 \<Longrightarrow> keeps s (m s1)"
  unfolding keeps_def using only_io_trans by blast

lemma syscall_keeps: "keeps s (syscall s)"
  by (auto simp: keeps_def syscall_def suffix_ConsI split: list.splits)

lemma syscall_retry_keeps: "keeps s (syscall_retry s)"
  unfolding syscall_retry_def by (rule keeps_from [OF syscall_keeps only_io_update(1) [OF suffix_dropWhile]])

lemmas syscall_from [keeps_rules] = keeps_from [OF syscall_keeps]
lemmas syscall_retry_from [keeps_rules] = keeps_from [OF syscall_retry_keeps]

lemma dev_write_keeps: "keeps s (dev_write p d s)"
  unfolding dev_write_def by (intro keeps_rules only_io_refl only_io_trans [OF _ only_io_update(2)])

lemmas dev_write_from [keeps_rules] = keeps_from [OF dev_write_keeps]

lemma write_one_keeps: "keeps s (write_one p s)"
  unfolding write_one_def by (intro keeps_rules only_io_refl) assumption+

lemmas write_one_from [keeps_rules] = keeps_from [OF write_one_keeps]

lemma image_loop_keeps: "keeps s (image_loop sz s)"
proof (induction sz arbitrary: s rule: less_induct)
  case (less sz)
  show ?case
    by (subst image_loop.simps, intro keeps_rules only_io_refl keeps_from [OF less]) (assumption | simp)+
qed

lemmas image_loop_from [keeps_rules] = keeps_from [OF image_loop_keeps]

lemma wcn_write_image_keeps: "keeps s (wcn_write_image sz s)"
  unfolding wcn_write_image_def by (intro keeps_rules only_io_refl) assumption+

lemmas wcn_write_image_from [keeps_rules] = keeps_from [OF wcn_write_image_keeps]

lemma download_keeps: "keeps s (download_image_to_cp2 s)"
  unfolding download_image_to_cp2_def by (intro keeps_rules only_io_refl) assumption+

lemmas download_from [keeps_rules] = keeps_from [OF download_keeps]

lemma is_cp2_alive_ok_keeps: "keeps s (is_cp2_alive_ok s)"
  unfolding is_cp2_alive_ok_def by (intro keeps_rules only_io_refl) assumption+

lemmas is_cp2_alive_ok_from [keeps_rules] = keeps_from [OF is_cp2_alive_ok_keeps]

lemma polling_test_keeps: "keeps s (polling_test n s)"
proof (induction n arbitrary: s)
  case (Suc n)
  then show ?case unfolding polling_test.simps by (intro keeps_rules only_io_refl keeps_from [OF Suc]) assumption+
qed (simp add: keeps_rules)

lemmas polling_test_from [keeps_rules] = keeps_from [OF polling_test_keeps]

lemma reset_cp2_keeps: "keeps s (reset_cp2 s)"
  unfolding reset_cp2_def stop_cp2_def start_cp2_def by (intro keeps_rules only_io_refl) assumption+

lemma wait_loop_io: "wait_loop n s = Some s' \<Longrightarrow> only_io s s'"
proof (induction n arbitrary: s)
  case (Suc n)
  then obtain c s1 where c: "syscall s = Some (c, s1)" "s' = s1 \<or> wait_loop n s1 = Some s'"
    by (auto simp: bind_eq_Some_conv split: if_splits)
  then show ?case using Suc.IH keepsD [OF syscall_keeps c(1)] only_io_trans by blast
qed simp

lemma wait_for_dump_logs_io: "wait_for_dump_logs s = Some s' \<Longrightarrow> only_io s s'"
  by (auto simp: wait_for_dump_logs_def simp del: wait_loop.simps dest: wait_loop_io split: if_splits)

section \<open>Notifications\<close>

definition msgs_to :: "int \<Rightarrow> WcndManager \<Rightarrow> string list" where
  "msgs_to x s = map snd (filter (\<lambda>m. fst m = x) (msgs s))"

text \<open>The table holds a socket at most once; -1 is a free entry.\<close>

definition clients_ok :: "WcndManager \<Rightarrow> bool" where
  "clients_ok s \<longleftrightarrow> distinct (filter (\<lambda>fd. 0 \<le> fd) (client_fds s))"

text \<open>What a client gets is the start of the message with its null character, all of it as a rule.\<close>

definition sent_as :: "string \<Rightarrow> string \<Rightarrow> bool" where
  "sent_as m e \<longleftrightarrow> (\<exists>n. m = take n (e @ [CHR 0x00]))"

definition same_flags :: "WcndManager \<Rightarrow> WcndManager \<Rightarrow> bool" where
  "same_flags s s' \<longleftrightarrow> doing_reset s' = doing_reset s \<and> is_cp2_error s' = is_cp2_error s \<and> props s' = props s \<and>
     cmdexecuter_list s' = cmdexecuter_list s"

lemma same_flags_trans [trans]: "same_flags s s1 \<Longrightarrow> same_flags s1 s2 \<Longrightarrow> same_flags s s2"
  by (simp add: same_flags_def)

lemma only_io_flags: "only_io s s' \<Longrightarrow> same_flags s s'"
  by (simp add: same_flags_def only_io_fields)

lemma send_msg_effect:
  assumes "send_msg s fd m = Some (r, s')"
  shows "same_flags s s'" "client_fds s' = client_fds s" "x \<noteq> fd \<Longrightarrow> msgs_to x s' = msgs_to x s"
    "r \<noteq> RDWR_FD_FAIL \<Longrightarrow> \<exists>a. msgs_to fd s' = msgs_to fd s @ [a] \<and> sent_as a m"
proof -
  obtain c s1 where c: "syscall_retry (s\<lparr>notify_count := notify_count s + 1\<rparr>) = Some (c, s1)"
    "r = (if res_int c < 0 then RDWR_FD_FAIL else res_int c)"
    "s' = s1\<lparr>msgs := msgs s1 @ (if res_int c < 0 then [] else [(fd, take (nat (res_int c)) (m @ [CHR 0x00]))])\<rparr>"
    using assms by (auto simp: send_msg_def write_fd_def bind_eq_Some_conv)
  note f = only_io_fields [OF keepsD [OF syscall_retry_keeps c(1)]]
  show "same_flags s s'" "client_fds s' = client_fds s" "x \<noteq> fd \<Longrightarrow> msgs_to x s' = msgs_to x s"
    using f c(3) by (simp_all add: same_flags_def msgs_to_def)
  show "r \<noteq> RDWR_FD_FAIL \<Longrightarrow> \<exists>a. msgs_to fd s' = msgs_to fd s @ [a] \<and> sent_as a m"
    using f c(2,3) by (auto simp: msgs_to_def sent_as_def split: if_splits)
qed

text \<open>The effect of a notification on the entries \<open>fds\<close>, which become \<open>fds'\<close>: a socket that stays gets the
  message once, one that fails is removed, and no other socket gets anything.\<close>

definition notified :: "int list \<Rightarrow> int list \<Rightarrow> string \<Rightarrow> WcndManager \<Rightarrow> WcndManager \<Rightarrow> bool" where
  "notified fds fds' info s s' \<longleftrightarrow> same_flags s s' \<and> list_all2 (\<lambda>a b. b = a \<or> b = -1) fds fds' \<and>
     (\<forall>x. 0 \<le> x \<longrightarrow> x \<notin> set fds \<longrightarrow> msgs_to x s' = msgs_to x s) \<and>
     (\<forall>x. 0 \<le> x \<longrightarrow> x \<in> set fds' \<longrightarrow> (\<exists>a. msgs_to x s' = msgs_to x s @ [a] \<and> sent_as a info))"

lemma entries_kept: "list_all2 (\<lambda>a b. b = a \<or> b = -1) fds fds' \<Longrightarrow> x \<in> set fds' \<Longrightarrow> 0 \<le> x \<Longrightarrow> x \<in> set (fds :: int list)"
  by (induction rule: list_all2_induct) auto

lemma notified_skip: "fd < 0 \<Longrightarrow> notified fds fds' info s s' \<Longrightarrow> notified (fd # fds) (fd # fds') info s s'"
  by (auto simp: notified_def)

lemma notified_Cons:
  assumes m: "send_msg s fd info = Some (r, s1)" and n: "notified fds fds' info (s1\<lparr>closed := cl\<rparr>) s'" and "fd \<notin> set fds"
    and e: "e = (if r = RDWR_FD_FAIL then -1 else fd)"
  shows "notified (fd # fds) (e # fds') info s s'"
proof -
  note eff = send_msg_effect [OF m]
  have m1: "msgs_to x (s1\<lparr>closed := cl\<rparr>) = msgs_to x s1" for x by (simp add: msgs_to_def)
  have "fd \<notin> set fds'" if "0 \<le> fd" using n entries_kept [of fds fds' fd] that assms(3) by (auto simp: notified_def)
  note kept = this
  have same: "same_flags s s'" using n eff(1) by (simp add: notified_def same_flags_def)
  have other: "msgs_to x s' = msgs_to x s1" if "0 \<le> x" "x \<notin> set fds" for x using n that by (simp add: notified_def m1)
  have new: "\<exists>a. msgs_to x s' = msgs_to x s1 @ [a] \<and> sent_as a info" if "0 \<le> x" "x \<in> set fds'" for x
    using n that by (simp add: notified_def m1)
  have "\<exists>a. msgs_to x s' = msgs_to x s @ [a] \<and> sent_as a info" if "0 \<le> x" "x \<in> set (e # fds')" for x
  proof (cases "x = fd")
    case True
    then have "x \<notin> set fds'" "r \<noteq> RDWR_FD_FAIL" using that kept e by (auto split: if_splits)
    then show ?thesis using eff(4) other [of fd] that(1) True assms(3) by simp
  next
    case False
    then have "x \<in> set fds'" using that e by (auto split: if_splits)
    then show ?thesis using new [OF that(1)] eff(3) [OF False] by simp
  qed
  moreover have "msgs_to x s' = msgs_to x s" if "0 \<le> x" "x \<notin> set (fd # fds)" for x
    using other [of x] eff(3) [of x] that by simp
  moreover have "list_all2 (\<lambda>a b. b = a \<or> b = -1) (fd # fds) (e # fds')" using n e by (simp add: notified_def)
  ultimately show ?thesis using same unfolding notified_def by blast
qed

lemma notify_loop_effect:
  assumes "notify_loop seen fds info s = Some s'" "distinct (filter (\<lambda>fd. 0 \<le> fd) fds)"
  shows "\<exists>fds'. client_fds s' = seen @ fds' \<and> notified fds fds' info s s'"
  using assms
proof (induction fds arbitrary: seen s)
  case Nil
  then show ?case by (auto simp: notified_def same_flags_def msgs_to_def)
next
  case (Cons fd fds)
  show ?case
  proof (cases "0 \<le> fd")
    case False
    then have "notify_loop (seen @ [fd]) fds info s = Some s'" using Cons.prems by simp
    then show ?thesis using Cons.IH [of "seen @ [fd]" s] Cons.prems(2) notified_skip [of fd fds _ info s s'] False by fastforce
  next
    case True
    obtain r s1 where r: "send_msg s fd info = Some (r, s1)" using Cons.prems(1) True by (cases "send_msg s fd info") auto
    let ?e = "if r = RDWR_FD_FAIL then -1 else fd"
    let ?cl = "if r = RDWR_FD_FAIL then closed s1 @ [fd] else closed s1"
    have "notify_loop (seen @ [?e]) fds info (s1\<lparr>closed := ?cl\<rparr>) = Some s'" using Cons.prems(1) True r by (simp split: if_splits)
    then obtain fds' where f: "client_fds s' = (seen @ [?e]) @ fds'" "notified fds fds' info (s1\<lparr>closed := ?cl\<rparr>) s'"
      using Cons.IH [of "seen @ [?e]"] Cons.prems(2) True by fastforce
    have "fd \<notin> set fds" using Cons.prems(2) True by auto
    then have "notified (fd # fds) (?e # fds') info s s'" using notified_Cons [OF r f(2)] by simp
    then show ?thesis using f(1) by auto
  qed
qed

lemma kept_distinct:
  "list_all2 (\<lambda>a b. b = a \<or> b = -1) fds fds' \<Longrightarrow> distinct (filter (\<lambda>fd. 0 \<le> fd) fds) \<Longrightarrow> distinct (filter (\<lambda>fd. 0 \<le> fd) (fds' :: int list))"
  by (induction rule: list_all2_induct) (auto dest: entries_kept split: if_splits)

lemma send_notify_effect:
  assumes "send_notify_to_client info s = Some s'" "clients_ok s"
  shows "notified (client_fds s) (client_fds s') info s s'" "clients_ok s'"
proof -
  show n: "notified (client_fds s) (client_fds s') info s s'"
    using notify_loop_effect [of "[]" "client_fds s" info s s'] assms by (auto simp: send_notify_to_client_def clients_ok_def)
  show "clients_ok s'" using n kept_distinct [of "client_fds s" "client_fds s'"] assms(2) by (auto simp: clients_ok_def notified_def)
qed

section \<open>The protocol of a reset\<close>

text \<open>What a client that stays connected is told in a reset whose attempts fail \<open>j\<close> times: start and end each
  time, and alive after the attempt that succeeds.\<close>

definition told :: "nat \<Rightarrow> bool \<Rightarrow> string list" where
  "told j ok = concat (replicate j [WCND_CP2_RESET_START_STRING, WCND_CP2_RESET_END_STRING]) @
     (if ok then [WCND_CP2_RESET_START_STRING, WCND_CP2_RESET_END_STRING, WCND_CP2_ALIVE_STRING] else [])"

definition told_to :: "int \<Rightarrow> string list \<Rightarrow> WcndManager \<Rightarrow> WcndManager \<Rightarrow> bool" where
  "told_to x infos s s' \<longleftrightarrow> (\<exists>news. msgs_to x s' = msgs_to x s @ news \<and> list_all2 sent_as news infos)"

lemma told_to_append: "told_to x a s s1 \<Longrightarrow> told_to x b s1 s2 \<Longrightarrow> told_to x (a @ b) s s2"
  unfolding told_to_def by (metis append_assoc list_all2_appendI)

lemma told_to_io: "only_io s s' \<Longrightarrow> told_to x [] s s'"
  by (simp add: told_to_def msgs_to_def only_io_fields)

text \<open>A step of a reset as a client sees it that is connected after it; a client connected after it was connected before.\<close>

definition client_step :: "string list \<Rightarrow> WcndManager \<Rightarrow> WcndManager \<Rightarrow> bool" where
  "client_step infos s s' \<longleftrightarrow> clients_ok s' \<and> props s' = props s \<and> cmdexecuter_list s' = cmdexecuter_list s \<and>
     (\<forall>x. 0 \<le> x \<longrightarrow> x \<in> set (client_fds s') \<longrightarrow> x \<in> set (client_fds s) \<and> told_to x infos s s')"

lemma client_step_trans: "client_step a s s1 \<Longrightarrow> client_step b s1 s2 \<Longrightarrow> client_step (a @ b) s s2"
  unfolding client_step_def using told_to_append by metis

lemma client_step_io: "clients_ok s \<Longrightarrow> only_io s s' \<Longrightarrow> client_step [] s s'"
  by (simp add: client_step_def told_to_io only_io_fields clients_ok_def)

lemma client_step_notify:
  assumes "clients_ok s" "send_notify_to_client info s = Some s'"
  shows "client_step [info] s s' \<and> same_flags s s'"
proof -
  note n = send_notify_effect [OF assms(2,1)]
  then show ?thesis using entries_kept [of "client_fds s" "client_fds s'"]
    unfolding client_step_def told_to_def notified_def same_flags_def by fastforce
qed

lemma attempt_effect:
  assumes "clients_ok s" "n \<le> RESET_FAIL_RETRY_COUNT" "run_reset (Attempt n) s = Some s'"
  shows "\<exists>ok s1. (if ok then client_step (told 0 True) s s' \<and> \<not> doing_reset s' \<and> \<not> is_cp2_error s'
            else client_step (told 1 False) s s1 \<and> same_flags s s1 \<and> run_reset (Attempt (n + 1)) s1 = Some s')"
proof -
  obtain s1 where s1: "send_notify_to_client WCND_CP2_RESET_START_STRING s = Some s1" "run_reset (Working n) s1 = Some s'"
    using assms(2,3) by (subst (asm) run_reset.simps) (auto simp: bind_eq_Some_conv)
  obtain ok s2 where s2: "reset_cp2 s1 = Some (ok, s2)" "run_reset (Ending n ok) s2 = Some s'"
    using s1(2) by (subst (asm) run_reset.simps) (auto simp: bind_eq_Some_conv)
  obtain s3 where s3: "send_notify_to_client WCND_CP2_RESET_END_STRING s2 = Some s3"
    "if ok then \<exists>s4. send_notify_to_client WCND_CP2_ALIVE_STRING s3 = Some s4 \<and> run_reset Clearing s4 = Some s'
     else run_reset (Attempt (n + 1)) s3 = Some s'"
    using s2(2) by (subst (asm) run_reset.simps) (auto simp: bind_eq_Some_conv split: if_splits)
  note c1 = client_step_notify [OF assms(1) s1(1)]
  have k1: "clients_ok s1" using c1 by (simp add: client_step_def)
  note io = keepsD [OF reset_cp2_keeps s2(1)]
  note c2 = client_step_io [OF k1 io]
  have k2: "clients_ok s2" using c2 by (simp add: client_step_def)
  note c3 = client_step_notify [OF k2 s3(1)]
  have c: "client_step (told 1 False) s s3" "same_flags s s3"
    using client_step_trans [OF client_step_trans [OF conjunct1 [OF c1] c2] conjunct1 [OF c3]] c1 c3 only_io_flags [OF io]
    by (auto simp: told_def same_flags_def)
  show ?thesis
  proof (cases ok)
    case False
    then show ?thesis using c s3(2) by auto
  next
    case True
    then obtain s4 where s4: "send_notify_to_client WCND_CP2_ALIVE_STRING s3 = Some s4" "run_reset Clearing s4 = Some s'"
      using s3(2) by auto
    have "clients_ok s3" using c(1) by (simp add: client_step_def)
    then have "client_step (told 0 True) s s4"
      using client_step_trans [OF c(1)] client_step_notify [OF _ s4(1)] by (fastforce simp: told_def)
    moreover have "s' = s4\<lparr>doing_reset := False, is_cp2_error := False\<rparr>" using s4(2) by (simp add: run_reset.simps)
    ultimately have "client_step (told 0 True) s s' \<and> \<not> doing_reset s' \<and> \<not> is_cp2_error s'"
      by (simp add: client_step_def told_to_def msgs_to_def clients_ok_def)
    then show ?thesis by auto
  qed
qed

lemma told_Suc: "told 1 False @ told j ok = told (Suc j) ok"
  by (simp add: told_def)

lemma attempts_effect:
  assumes "clients_ok s" "run_reset (Attempt (4 - k)) s = Some s'" "k \<le> 4"
  shows "\<exists>j\<le>k. client_step (told j (j < k)) s s' \<and> \<not> doing_reset s' \<and> is_cp2_error s' = (is_cp2_error s \<and> j = k)"
  using assms
proof (induction k arbitrary: s)
  case 0
  then have "s' = s\<lparr>doing_reset := False\<rparr>" by (simp add: run_reset.simps RESET_FAIL_RETRY_COUNT_def)
  then show ?case using 0(1) by (auto simp: client_step_def told_def told_to_def msgs_to_def clients_ok_def)
next
  case (Suc k)
  have n: "4 - Suc k \<le> RESET_FAIL_RETRY_COUNT" "4 - Suc k + 1 = 4 - k" using Suc.prems(3) by (simp_all add: RESET_FAIL_RETRY_COUNT_def)
  obtain ok s1 where a: "if ok then client_step (told 0 True) s s' \<and> \<not> doing_reset s' \<and> \<not> is_cp2_error s'
      else client_step (told 1 False) s s1 \<and> same_flags s s1 \<and> run_reset (Attempt (4 - k)) s1 = Some s'"
    using attempt_effect [OF Suc.prems(1) n(1) Suc.prems(2)] unfolding n(2) by blast
  show ?case
  proof (cases ok)
    case True
    then show ?thesis using a by (intro exI [of _ 0]) simp
  next
    case False
    then have s1: "client_step (told 1 False) s s1" "same_flags s s1" "run_reset (Attempt (4 - k)) s1 = Some s'" using a by simp_all
    then have "clients_ok s1" by (simp add: client_step_def)
    then obtain j where j: "j \<le> k" "client_step (told j (j < k)) s1 s'" "\<not> doing_reset s'" "is_cp2_error s' = (is_cp2_error s1 \<and> j = k)"
      using Suc.IH [OF _ s1(3)] Suc.prems(3) by auto
    have "client_step (told (Suc j) (Suc j < Suc k)) s s'" using client_step_trans [OF s1(1) j(2)] unfolding told_Suc by simp
    then show ?thesis using j(1,3,4) s1(2) by (intro exI [of _ "Suc j"]) (simp add: same_flags_def)
  qed
qed

text \<open>C12: A reset that is enabled and returns tells every client that is still connected at its end the same
  story, in this order and nothing else: start and end for each of the \<open>j\<close> attempts that failed, then,
  if an attempt succeeded, start, end and alive. At most four attempts are made; without a success there were four.
  Clients are only removed. The flag of a running reset is cleared in any case, the error flag only after a success.\<close>

theorem reset_protocol:
  assumes "do_cp2_reset_process s = Some s'" "check_if_reset_enable s" "clients_ok s"
  shows "\<exists>j\<le>4. client_step (told j (j < 4)) s s' \<and> \<not> doing_reset s' \<and> is_cp2_error s' = (is_cp2_error s \<and> j = 4)"
proof -
  obtain s1 where s1: "wait_for_dump_logs (s\<lparr>doing_reset := True\<rparr>) = Some s1" "run_reset (Attempt 0) s1 = Some s'"
    using assms(1,2) by (auto simp: do_cp2_reset_process_def run_reset.simps [of Waiting] bind_eq_Some_conv)
  have k: "clients_ok (s\<lparr>doing_reset := True\<rparr>)" using assms(3) by (simp add: clients_ok_def)
  note io = wait_for_dump_logs_io [OF s1(1)]
  have c: "client_step [] s s1"
    using client_step_io [OF k io] by (simp add: client_step_def told_to_def msgs_to_def)
  then have "clients_ok s1" by (simp add: client_step_def)
  then obtain j where j: "j \<le> 4" "client_step (told j (j < 4)) s1 s'" "\<not> doing_reset s'" "is_cp2_error s' = (is_cp2_error s1 \<and> j = 4)"
    using attempts_effect [of s1 4 s'] s1(2) by auto
  have "is_cp2_error s1 = is_cp2_error s" using only_io_fields(4) [OF io] by simp
  then show ?thesis using client_step_trans [OF c j(2)] j by auto
qed

text \<open>A reset during which the second client disconnects; the image has two bytes.\<close>

definition demo_reset :: WcndManager where
  "demo_reset = demo_wcnd\<lparr>is_cp2_error := True,
     calls := [Ret 20, Ret (-1), Ret 3, Ret 1, Ret 4, Ret 5, Ret 0, Ret 0, Bytes ''ab'', Ret 2, Bytes [],
       Ret 3, Ret 1, Ret 3, Ret 2, Ret 1, Bytes ''hi'', Ret 18, Ret 14]\<rparr>"

lemma clients_ok_demo: "clients_ok demo_reset"
  by (simp add: clients_ok_def demo_reset_def demo_wcnd_def)

lemma demo_enabled: "check_if_reset_enable demo_reset"
  by code_simp

lemma image_loop_block:
  "calls s = Bytes b # w # cs \<Longrightarrow> b \<noteq> [] \<Longrightarrow> length b \<le> 8192 \<Longrightarrow> length b \<le> sz \<Longrightarrow> res_int w = int (length b) \<Longrightarrow>
   image_loop sz s = image_loop (sz - length b) (s\<lparr>calls := cs, devs := devs s @ [(WCN_DOWNLOAD_IFACE, b)]\<rparr>)"
  by (subst image_loop.simps) (cases s, auto simp: syscall_def dev_write_def)

lemma image_loop_eof: "calls s = Bytes [] # cs \<Longrightarrow> image_loop sz s = Some (True, if sz = 0 then s else s\<lparr>calls := cs\<rparr>)"
  by (subst image_loop.simps) (simp add: syscall_def)

lemmas notify_eval = send_notify_to_client_def send_msg_def write_fd_def syscall_retry_def syscall_def RDWR_FD_FAIL_def

lemmas reset_eval = reset_cp2_def stop_cp2_def start_cp2_def write_one_def dev_write_def syscall_def syscall_retry_def
  download_image_to_cp2_def wcn_write_image_def image_loop_block image_loop_eof WCN_IMAGE_SIZE_def
  is_cp2_alive_ok_def loop_answer_def LOOP_TEST_CHAR_def MAX_LOOP_TEST_COUNT_def numeral_2_eq_2 cstr_def

lemmas reset_run_eval = run_reset.simps [of "Attempt 0"] run_reset.simps [of "Working 0"] run_reset.simps [of "Ending 0 True"]
  run_reset.simps [of Clearing] run_reset.simps [of Clearing2] run_reset.simps [of Over]

lemma demo_log: "atoi (property_get WCND_SLOG_ENABLE_PROP_KEY ''0'' (demo_reset\<lparr>doing_reset := True\<rparr>)) = 0"
  by code_simp

lemma demo_reset_run: "map_option (\<lambda>s. (client_fds s, msgs s)) (do_cp2_reset_process demo_reset) = Some ([7, -1, -1],
   [(7, WCND_CP2_RESET_START_STRING @ [CHR 0x00]), (7, WCND_CP2_RESET_END_STRING @ [CHR 0x00]), (7, WCND_CP2_ALIVE_STRING @ [CHR 0x00])])"
proof -
  have "do_cp2_reset_process demo_reset = run_reset (Attempt 0) (demo_reset\<lparr>doing_reset := True\<rparr>)"
    by (simp add: do_cp2_reset_process_def demo_enabled run_reset.simps [of Waiting] wait_for_dump_logs_def demo_log del: wait_loop.simps)
  then show ?thesis
    by (simp add: demo_reset_def demo_wcnd_def reset_run_eval notify_eval reset_eval WCND_CP2_RESET_START_STRING_def
        WCND_CP2_RESET_END_STRING_def WCND_CP2_ALIVE_STRING_def)
qed

theorem reset_protocol_witness:
  "\<exists>s'. do_cp2_reset_process demo_reset = Some s' \<and> 7 \<in> set (client_fds s') \<and>
     (\<exists>j\<le>4. client_step (told j (j < 4)) demo_reset s' \<and> \<not> doing_reset s' \<and> is_cp2_error s' = (is_cp2_error demo_reset \<and> j = 4))"
proof -
  obtain s' where s': "do_cp2_reset_process demo_reset = Some s'" "client_fds s' = [7, -1, -1]"
    using demo_reset_run by auto
  then show ?thesis using reset_protocol [OF s'(1) demo_enabled clients_ok_demo] by auto
qed

section \<open>The image\<close>

text \<open>The reads and writes of the copy loop: a block and the result of its write.\<close>

definition copied :: "(string \<times> sysres) list \<Rightarrow> sysres list" where
  "copied bws = concat (map (\<lambda>(b, w). [Bytes b, w]) bws)"

definition blocks_ok :: "(string \<times> sysres) list \<Rightarrow> bool" where
  "blocks_ok bws \<longleftrightarrow> list_all (\<lambda>(b, w). 0 < length b \<and> length b \<le> 8192 \<and> res_int w = int (length b)) bws"

definition block_bytes :: "(string \<times> sysres) list \<Rightarrow> string" where
  "block_bytes bws = concat (map fst bws)"

lemma dev_write_full:
  "dev_write p b s = Some (int (length b), s2) \<Longrightarrow>
   \<exists>w. calls s = w # calls s2 \<and> res_int w = int (length b) \<and> devs s2 = devs s @ [(p, b)]"
  by (auto simp: dev_write_def bind_eq_Some_conv syscall_def split: list.splits)

lemma image_loop_copies:
  assumes "image_loop sz s = Some (True, s')"
  shows "\<exists>bws end. calls s = copied bws @ end @ calls s' \<and> blocks_ok bws \<and> devs s' = devs s @ map (\<lambda>(b, w). (WCN_DOWNLOAD_IFACE, b)) bws \<and>
    (end = [] \<and> length (block_bytes bws) = sz \<or> (\<exists>e. end = [e] \<and> res_int e = 0) \<and> length (block_bytes bws) < sz)"
  using assms
proof (induction sz arbitrary: s rule: less_induct)
  case (less sz)
  show ?case
  proof (cases "0 < sz")
    case False
    then show ?thesis using less.prems
      by (intro exI [of _ "[]"]) (simp add: image_loop.simps copied_def blocks_ok_def block_bytes_def)
  next
    case True
    then obtain c s1 where c: "syscall s = Some (c, s1)" using less.prems by (subst (asm) image_loop.simps) (auto simp: bind_eq_Some_conv)
    have c1: "calls s = c # calls s1" "devs s1 = devs s" using c by (auto simp: syscall_def split: list.splits)
    consider (eof) "res_int c = 0" "s' = s1" |
      (block) b s2 where "c = Bytes b" "b \<noteq> []" "length b \<le> min sz 8192" "dev_write WCN_DOWNLOAD_IFACE b s1 = Some (int (length b), s2)"
        "image_loop (sz - length b) s2 = Some (True, s')"
      using less.prems c True by (subst (asm) (2) image_loop.simps) (auto simp: bind_eq_Some_conv simp flip: not_less split: sysres.splits if_splits)
    then show ?thesis
    proof cases
      case eof
      then show ?thesis using c1 True
        by (intro exI [of _ "[]"] exI [of _ "[c]"]) (simp add: copied_def blocks_ok_def block_bytes_def)
    next
      case block
      obtain w where w: "calls s1 = w # calls s2" "res_int w = int (length b)" "devs s2 = devs s1 @ [(WCN_DOWNLOAD_IFACE, b)]"
        using dev_write_full [OF block(4)] by blast
      have "sz - length b < sz" using True block(2) by simp
      then obtain bws "end" where r: "calls s2 = copied bws @ end @ calls s'" "blocks_ok bws"
        "devs s' = devs s2 @ map (\<lambda>(b, w). (WCN_DOWNLOAD_IFACE, b)) bws"
        "end = [] \<and> length (block_bytes bws) = sz - length b \<or> (\<exists>e. end = [e] \<and> res_int e = 0) \<and> length (block_bytes bws) < sz - length b"
        using less.IH [OF _ block(5)] by blast
      have "calls s = copied ((b, w) # bws) @ end @ calls s'" using c1(1) w(1) r(1) block(1) by (simp add: copied_def)
      moreover have "blocks_ok ((b, w) # bws)" using r(2) block(2,3) w(2) by (simp add: blocks_ok_def)
      moreover have "devs s' = devs s @ map (\<lambda>(b, w). (WCN_DOWNLOAD_IFACE, b)) ((b, w) # bws)" using r(3) w(3) c1(2) by simp
      moreover have "end = [] \<and> length (block_bytes ((b, w) # bws)) = sz \<or>
          (\<exists>e. end = [e] \<and> res_int e = 0) \<and> length (block_bytes ((b, w) # bws)) < sz"
        using r(4) block(3) by (auto simp: block_bytes_def)
      ultimately show ?thesis by blast
    qed
  qed
qed

lemma write_one_ok: "write_one p s = Some (True, s') \<Longrightarrow> (\<exists>pre. calls s = pre @ calls s') \<and> devs s' = devs s @ [(p, ''1'')]"
  by (auto simp: write_one_def dev_write_def bind_eq_Some_conv syscall_def split: list.splits if_splits)

lemma download_copies:
  assumes "download_image_to_cp2 s = Some (True, s')"
  shows "\<exists>pre bws end. calls s = pre @ copied bws @ end @ calls s' \<and> blocks_ok bws \<and>
    devs s' = devs s @ map (\<lambda>(b, w). (WCN_DOWNLOAD_IFACE, b)) bws \<and>
    (end = [] \<and> length (block_bytes bws) = WCN_IMAGE_SIZE \<or> (\<exists>e. end = [e] \<and> res_int e = 0) \<and> length (block_bytes bws) < WCN_IMAGE_SIZE)"
proof -
  obtain s1 where s1: "image_loop WCN_IMAGE_SIZE s1 = Some (True, s')" "\<exists>pre. calls s = pre @ calls s1" "devs s1 = devs s"
    using assms by (auto simp: download_image_to_cp2_def wcn_write_image_def bind_eq_Some_conv syscall_def split: list.splits if_splits)
  then show ?thesis using image_loop_copies [OF s1(1)] by fastforce
qed

text \<open>The writes to the loop device in the tests: each sends the test string or less.\<close>

lemma syscall_devs:
  "syscall s = Some (c, s1) \<Longrightarrow> devs s1 = devs s" "syscall_retry s = Some (c, s1) \<Longrightarrow> devs s1 = devs s"
  by (auto simp: syscall_def syscall_retry_def split: list.splits)

lemma dev_write_devs:
  "dev_write p d s = Some (r, s1) \<Longrightarrow> \<exists>t. devs s1 = devs s @ map (Pair p) t \<and> length t \<le> 1 \<and> (0 \<le> r \<longrightarrow> length t = 1)"
proof -
  assume "dev_write p d s = Some (r, s1)"
  then have "devs s1 = devs s @ map (Pair p) (if r < 0 then [] else [take (nat r) d])"
    by (auto simp: dev_write_def bind_eq_Some_conv dest: syscall_devs)
  then show ?thesis by (auto intro!: exI [of _ "if r < 0 then [] else [take (nat r) d]"])
qed

lemma is_cp2_alive_ok_devs:
  assumes "is_cp2_alive_ok s = Some (ok, s')"
  shows "\<exists>t. devs s' = devs s @ map (Pair WCN_LOOP_IFACE) t \<and> length t \<le> 1 \<and> (ok \<longrightarrow> length t = 1)"
proof -
  obtain fd s1 where s1: "syscall s = Some (fd, s1)" using assms by (auto simp: is_cp2_alive_ok_def bind_eq_Some_conv)
  show ?thesis
  proof (cases "res_int fd < 0")
    case True
    then show ?thesis using assms s1 syscall_devs(1) [OF s1] by (simp add: is_cp2_alive_ok_def)
  next
    case False
    obtain len s2 where s2: "dev_write WCN_LOOP_IFACE LOOP_TEST_CHAR s1 = Some (len, s2)"
      using assms s1 False by (auto simp: is_cp2_alive_ok_def bind_eq_Some_conv)
    have "devs s' = devs s2 \<and> (ok \<longrightarrow> 0 \<le> len)"
      using assms s1 False s2
      by (auto simp: is_cp2_alive_ok_def bind_eq_Some_conv dest!: syscall_devs(2) split: if_splits)
    then show ?thesis using dev_write_devs [OF s2] syscall_devs(1) [OF s1] by auto
  qed
qed

lemma polling_test_devs:
  "polling_test n s = Some (ok, s') \<Longrightarrow>
   \<exists>t. devs s' = devs s @ map (Pair WCN_LOOP_IFACE) t \<and> length t \<le> n \<and> (ok \<longrightarrow> 0 < length t)"
proof (induction n arbitrary: s)
  case (Suc n)
  then obtain o1 s1 where a: "is_cp2_alive_ok s = Some (o1, s1)" "if o1 then ok \<and> s' = s1 else polling_test n s1 = Some (ok, s')"
    by (auto simp: bind_eq_Some_conv split: if_splits)
  obtain t where t: "devs s1 = devs s @ map (Pair WCN_LOOP_IFACE) t" "length t \<le> 1" "o1 \<longrightarrow> length t = 1"
    using is_cp2_alive_ok_devs [OF a(1)] by blast
  show ?case
  proof (cases o1)
    case True
    then show ?thesis using t a(2) by auto
  next
    case False
    then obtain u where "devs s' = devs s1 @ map (Pair WCN_LOOP_IFACE) u" "length u \<le> n" "ok \<longrightarrow> 0 < length u"
      using Suc.IH [of s1] a(2) by auto
    then show ?thesis using t by (intro exI [of _ "t @ u"]) auto
  qed
qed simp

lemma calls_shrink: "keeps s m \<Longrightarrow> m = Some (r, s1) \<Longrightarrow> set (calls s1) \<subseteq> set (calls s)"
  by (drule keepsD, assumption, drule only_io_calls) auto

lemma syscall_retry_mem: "syscall_retry s = Some (c, s1) \<Longrightarrow> c \<in> set (calls s)"
  by (auto simp: syscall_retry_def syscall_def split: list.splits) (metis list.set_intros(1) set_dropWhileD)

lemma alive_answered:
  assumes "is_cp2_alive_ok s = Some (True, s')"
  shows "\<exists>c\<in>set (calls s). loop_answer c = Some True"
proof -
  obtain f s1 l s2 r s3 c s4 where s: "syscall s = Some (f, s1)" "dev_write WCN_LOOP_IFACE LOOP_TEST_CHAR s1 = Some (l, s2)"
    "syscall_retry s2 = Some (r, s3)" "syscall_retry s3 = Some (c, s4)" "loop_answer c = Some True"
    using assms by (auto simp: is_cp2_alive_ok_def bind_eq_Some_conv split: if_splits)
  show ?thesis
    using syscall_retry_mem [OF s(4)] s(5) calls_shrink [OF syscall_keeps s(1)] calls_shrink [OF dev_write_keeps s(2)]
      calls_shrink [OF syscall_retry_keeps s(3)] by blast
qed

lemma polling_answered: "polling_test n s = Some (True, s') \<Longrightarrow> \<exists>c\<in>set (calls s). loop_answer c = Some True"
proof (induction n arbitrary: s)
  case (Suc n)
  then obtain o1 s1 where a: "is_cp2_alive_ok s = Some (o1, s1)" "\<not> o1 \<Longrightarrow> polling_test n s1 = Some (True, s')"
    by (auto simp: bind_eq_Some_conv split: if_splits)
  show ?case using alive_answered [of s s1] Suc.IH [of s1] a calls_shrink [OF is_cp2_alive_ok_keeps a(1)] by (cases o1) auto
qed simp

text \<open>C17: A reset of the coprocessor that reports success has stopped it, copied the image, started it and tested it, in this
  order, and the coprocessor has answered a test. What went to the download device is what was read from the image, block by block, up to the end of the file or the
  size of 10 MiB, whichever came first.\<close>

theorem reset_cp2_complete:
  assumes "reset_cp2 s = Some (True, s')"
  shows "\<exists>pre bws end post tests. calls s = pre @ copied bws @ end @ post \<and> blocks_ok bws \<and>
    devs s' = devs s @ [(WCN_STOP_IFACE, ''1'')] @ map (\<lambda>(b, w). (WCN_DOWNLOAD_IFACE, b)) bws @ [(WCN_START_IFACE, ''1'')] @
      map (Pair WCN_LOOP_IFACE) tests \<and> 1 \<le> length tests \<and> length tests \<le> 3 \<and>
    (\<exists>c\<in>set post. loop_answer c = Some True) \<and>
    (end = [] \<and> length (block_bytes bws) = WCN_IMAGE_SIZE \<or> (\<exists>e. end = [e] \<and> res_int e = 0) \<and> length (block_bytes bws) < WCN_IMAGE_SIZE)"
proof -
  obtain s1 s2 s3 where s: "stop_cp2 s = Some (True, s1)" "download_image_to_cp2 s1 = Some (True, s2)" "start_cp2 s2 = Some (True, s3)"
    "polling_test 3 s3 = Some (True, s')"
    using assms by (auto simp: reset_cp2_def bind_eq_Some_conv MAX_LOOP_TEST_COUNT_def simp del: polling_test.simps split: if_splits)
  obtain p where p: "calls s = p @ calls s1" "devs s1 = devs s @ [(WCN_STOP_IFACE, ''1'')]"
    using write_one_ok [OF s(1) [unfolded stop_cp2_def]] by blast
  have d: "devs s3 = devs s2 @ [(WCN_START_IFACE, ''1'')]"
    using write_one_ok [OF s(3) [unfolded start_cp2_def]] by blast
  obtain pre bws "end" where b: "calls s1 = pre @ copied bws @ end @ calls s2" "blocks_ok bws"
    "devs s2 = devs s1 @ map (\<lambda>(b, w). (WCN_DOWNLOAD_IFACE, b)) bws"
    "end = [] \<and> length (block_bytes bws) = WCN_IMAGE_SIZE \<or> (\<exists>e. end = [e] \<and> res_int e = 0) \<and> length (block_bytes bws) < WCN_IMAGE_SIZE"
    using download_copies [OF s(2)] by blast
  obtain t where t: "devs s' = devs s3 @ map (Pair WCN_LOOP_IFACE) t" "length t \<le> 3" "0 < length t"
    using polling_test_devs [OF s(4)] by auto
  have "calls s = (p @ pre) @ copied bws @ end @ calls s2" using p(1) b(1) by simp
  moreover have "devs s' = devs s @ [(WCN_STOP_IFACE, ''1'')] @ map (\<lambda>(b, w). (WCN_DOWNLOAD_IFACE, b)) bws @ [(WCN_START_IFACE, ''1'')] @
      map (Pair WCN_LOOP_IFACE) t" using t(1) d b(3) p(2) by simp
  moreover have "\<exists>c\<in>set (calls s2). loop_answer c = Some True"
    using polling_answered [OF s(4)] calls_shrink [OF write_one_keeps s(3) [unfolded start_cp2_def]] by blast
  moreover have "1 \<le> length t" using t(3) by linarith
  ultimately show ?thesis using b(2,4) t(2) by blast
qed

lemma demo_reset_cp2: "map_option fst (reset_cp2 (demo_reset\<lparr>calls := drop 2 (calls demo_reset)\<rparr>)) = Some True"
  by (simp add: demo_reset_def demo_wcnd_def reset_eval)

theorem reset_cp2_complete_witness:
  "\<exists>s'. reset_cp2 (demo_reset\<lparr>calls := drop 2 (calls demo_reset)\<rparr>) = Some (True, s') \<and>
    (\<exists>tail. devs s' = (WCN_STOP_IFACE, ''1'') # tail)"
proof -
  obtain s' where s': "reset_cp2 (demo_reset\<lparr>calls := drop 2 (calls demo_reset)\<rparr>) = Some (True, s')"
    using demo_reset_cp2 by auto
  have "devs (demo_reset\<lparr>calls := drop 2 (calls demo_reset)\<rparr>) = []" by (simp add: demo_reset_def demo_wcnd_def)
  then show ?thesis using reset_cp2_complete [OF s'] s' by auto
qed

end
