(* ===== verification/Wcn_Threads.thy ===== *)
theory Wcn_Threads
  imports Wcn_Reset
begin

text \<open>
  The three threads of \<open>apps/wcnd/wcnd.c\<close> as a step relation. A step is a stretch of a thread between two accesses to
  the flags \<open>doing_reset\<close> and \<open>is_cp2_error\<close>, which the source reads and writes without a lock. The handler of the
  assert and the watchdog file is three such steps, a reset is the phases of \<open>reset_step\<close>.
\<close>

section \<open>Threads\<close>

text \<open>Where a thread that watches the coprocessor is: idle, about to test the loop, with an exception it has flagged,
  or past the check for a running reset.\<close>

datatype watch_pc = Idle | Testing | Seen sysres | Sending sysres

text \<open>The client thread, which also runs a reset, the thread for the two files, the thread for the loop, and what they share.\<close>

record threads =
  rpc :: reset_pc
  listener :: watch_pc
  checker :: watch_pc
  shared :: WcndManager

datatype event = Reset_begin | Reset_phase reset_pc | Raise | Check | Exception | Loop_look | Loop_test | Client | Environment

definition loop_fail :: sysres where
  "loop_fail = Bytes ''CP2 LOOP CHECK FAIL''"

inductive wcnd_step :: "threads \<Rightarrow> event \<Rightarrow> threads \<Rightarrow> bool" where
  step_begin: "rpc t = Over \<Longrightarrow> check_if_reset_enable (shared t) \<Longrightarrow>
    wcnd_step t Reset_begin (t\<lparr>rpc := Waiting, shared := (shared t)\<lparr>doing_reset := True\<rparr>\<rparr>)"
| step_phase: "rpc t \<noteq> Over \<Longrightarrow> reset_step (rpc t) (shared t) = Some (pc, s) \<Longrightarrow>
    wcnd_step t (Reset_phase (rpc t)) (t\<lparr>rpc := pc, shared := s\<rparr>)"
| step_raise: "listener t = Idle \<Longrightarrow> syscall ((shared t)\<lparr>is_cp2_error := True\<rparr>) = Some (c, s) \<Longrightarrow>
    wcnd_step t Raise (t\<lparr>listener := Seen c, shared := s\<rparr>)"
| step_check_listener: "listener t = Seen c \<Longrightarrow>
    wcnd_step t Check (t\<lparr>listener := (if doing_reset (shared t) then Idle else Sending c)\<rparr>)"
| step_send_listener: "listener t = Sending c \<Longrightarrow> exception_send c (shared t) = Some s \<Longrightarrow>
    wcnd_step t Exception (t\<lparr>listener := Idle, shared := s\<rparr>)"
| step_look: "checker t = Idle \<Longrightarrow> \<not> is_cp2_error (shared t) \<Longrightarrow> wcnd_step t Loop_look (t\<lparr>checker := Testing\<rparr>)"
| step_test: "checker t = Testing \<Longrightarrow> is_cp2_alive_ok (shared t) = Some (ok, s) \<Longrightarrow>
    wcnd_step t Loop_test (if ok then t\<lparr>checker := Idle, shared := s\<rparr> else t\<lparr>checker := Seen loop_fail, shared := s\<lparr>is_cp2_error := True\<rparr>\<rparr>)"
| step_check_checker: "checker t = Seen c \<Longrightarrow>
    wcnd_step t Check (t\<lparr>checker := (if doing_reset (shared t) then Idle else Sending c)\<rparr>)"
| step_send_checker: "checker t = Sending c \<Longrightarrow> exception_send c (shared t) = Some s \<Longrightarrow>
    wcnd_step t Exception (t\<lparr>checker := Idle, shared := s\<rparr>)"
| step_accept: "rpc t = Over \<Longrightarrow>
    wcnd_step t Client (t\<lparr>shared := (shared t)\<lparr>client_fds := store_client_fd (client_fds (shared t)) fd\<rparr>\<rparr>)"
| step_remove: "rpc t = Over \<Longrightarrow> wcnd_step t Client (t\<lparr>shared := remove_client fd (shared t)\<rparr>)"
| step_command: "rpc t = Over \<Longrightarrow> (args = [] \<or> hd args \<noteq> ''reset'') \<Longrightarrow> wcn_runcommand fd args (shared t) = Some s \<Longrightarrow>
    wcnd_step t Client (t\<lparr>shared := s\<rparr>)"
| step_environment: "wcnd_step t Environment (t\<lparr>shared := (shared t)\<lparr>props := p, calls := cs\<rparr>\<rparr>)"

inductive wcnd_trace :: "threads \<Rightarrow> event list \<Rightarrow> threads \<Rightarrow> bool" where
  trace_nil: "wcnd_trace t [] t"
| trace_step: "wcnd_step t e t1 \<Longrightarrow> wcnd_trace t1 es t2 \<Longrightarrow> wcnd_trace t (e # es) t2"

inductive_cases wcnd_stepE: "wcnd_step t e t'"

text \<open>The handlers of the watching threads are the steps one after the other.\<close>

lemma handle_exception_steps:
  assumes "handle_exception (shared t) = Some s" "listener t = Idle"
  shows "\<exists>es. wcnd_trace t es (t\<lparr>shared := s\<rparr>) \<and> (es = [Raise, Check] \<or> es = [Raise, Check, Exception])"
proof -
  obtain c s1 where c: "syscall ((shared t)\<lparr>is_cp2_error := True\<rparr>) = Some (c, s1)"
    "if doing_reset s1 then s = s1 else exception_send c s1 = Some s"
    using assms(1) by (auto simp: handle_exception_def bind_eq_Some_conv split: if_splits)
  let ?t1 = "t\<lparr>listener := Seen c, shared := s1\<rparr>"
  have r: "wcnd_step t Raise ?t1" using step_raise [OF assms(2) c(1)] .
  have k: "wcnd_step ?t1 Check (?t1\<lparr>listener := (if doing_reset s1 then Idle else Sending c)\<rparr>)"
    using step_check_listener [of ?t1 c] by simp
  show ?thesis
  proof (cases "doing_reset s1")
    case True
    then have "wcnd_step ?t1 Check (t\<lparr>shared := s\<rparr>)" using k c(2) assms(2) by (cases t) simp
    then have "wcnd_trace t [Raise, Check] (t\<lparr>shared := s\<rparr>)" by (rule trace_step [OF r trace_step [OF _ trace_nil]])
    then show ?thesis by blast
  next
    case False
    let ?t2 = "?t1\<lparr>listener := Sending c\<rparr>"
    have "wcnd_step ?t2 Exception (?t2\<lparr>listener := Idle, shared := s\<rparr>)" using step_send_listener [of ?t2 c s] c(2) False by simp
    then have "wcnd_step ?t2 Exception (t\<lparr>shared := s\<rparr>)" using assms(2) by (cases t) simp
    moreover have "wcnd_step ?t1 Check ?t2" using k False by simp
    ultimately have "wcnd_trace t [Raise, Check, Exception] (t\<lparr>shared := s\<rparr>)"
      by (rule trace_step [OF r trace_step [OF _ trace_step [OF _ trace_nil]], rotated])
    then show ?thesis by blast
  qed
qed

subsection \<open>The flags\<close>

definition reset_flag :: "threads \<Rightarrow> bool" where
  "reset_flag t \<longleftrightarrow> (doing_reset (shared t) \<longleftrightarrow> rpc t \<noteq> Over \<and> rpc t \<noteq> Clearing2)"

definition sending :: "threads \<Rightarrow> nat" where
  "sending t = length (filter (\<lambda>w. case w of Sending c \<Rightarrow> True | _ \<Rightarrow> False) [listener t, checker t])"

fun is_phase :: "event \<Rightarrow> bool" where
  "is_phase (Reset_phase pc) \<longleftrightarrow> True"
| "is_phase _ \<longleftrightarrow> False"


text \<open>What the notification leaves alone, without an assumption on the table.\<close>

lemma notify_loop_flags: "notify_loop seen fds info s = Some s' \<Longrightarrow> same_flags s s'"
proof (induction fds arbitrary: seen s)
  case Nil
  then show ?case by (auto simp: same_flags_def)
next
  case (Cons fd fds)
  show ?case
  proof (cases "0 \<le> fd")
    case True
    then obtain r s1 where m: "send_msg s fd info = Some (r, s1)" using Cons.prems by (cases "send_msg s fd info") auto
    have "notify_loop (seen @ [if r = RDWR_FD_FAIL then -1 else fd]) fds info
        (s1\<lparr>closed := (if r = RDWR_FD_FAIL then closed s1 @ [fd] else closed s1)\<rparr>) = Some s'"
      using Cons.prems True m by (simp split: if_splits)
    then have "same_flags (s1\<lparr>closed := (if r = RDWR_FD_FAIL then closed s1 @ [fd] else closed s1)\<rparr>) s'" by (rule Cons.IH)
    then show ?thesis using send_msg_effect(1) [OF m] by (simp add: same_flags_def)
  qed (use Cons in auto)
qed

lemma send_notify_flags: "send_notify_to_client info s = Some s' \<Longrightarrow> same_flags s s'"
  by (simp add: send_notify_to_client_def notify_loop_flags)

lemma exception_send_flags: "exception_send c s = Some s' \<Longrightarrow> doing_reset s' = doing_reset s \<and> is_cp2_error s' = is_cp2_error s"
  by (auto simp: exception_send_def pre_send_cp2_exception_notify_def property_set_def bind_eq_Some_conv same_flags_def dest!: send_notify_flags)

lemma only_io_shared: "keeps s m \<Longrightarrow> m = Some (r, s') \<Longrightarrow> doing_reset s' = doing_reset s \<and> is_cp2_error s' = is_cp2_error s"
  by (drule keepsD, assumption) (simp add: only_io_fields)

lemma reset_step_same:
  assumes "reset_step pc s = Some (pc', s')" "pc \<noteq> Clearing" "pc \<noteq> Clearing2" "\<And>n. pc = Attempt n \<Longrightarrow> n \<le> RESET_FAIL_RETRY_COUNT"
  shows "same_flags s s' \<and> pc' \<noteq> Clearing2 \<and> (pc' = Over \<longrightarrow> pc = Over)"
proof (cases pc)
  case Waiting
  then show ?thesis using assms(1) by (auto simp: dest!: wait_for_dump_logs_io only_io_flags)
next
  case (Attempt n)
  then show ?thesis using assms(1) assms(4) [of n] by (auto dest!: send_notify_flags)
next
  case (Working n)
  then show ?thesis using assms(1) by (auto dest!: keepsD [OF reset_cp2_keeps] only_io_flags)
next
  case (Ending n ok)
  then show ?thesis using assms(1) by (auto simp: bind_eq_Some_conv split: if_splits dest!: send_notify_flags intro: same_flags_trans)
next
  case Over
  then show ?thesis using assms(1) by (auto simp: same_flags_def)
qed (use assms in auto)

lemma reset_step_flag:
  assumes "reset_step pc s = Some (pc', s')" "pc \<noteq> Over" "doing_reset s \<longleftrightarrow> pc \<noteq> Clearing2"
  shows "doing_reset s' \<longleftrightarrow> pc' \<noteq> Over \<and> pc' \<noteq> Clearing2"
proof (cases "pc = Clearing \<or> pc = Clearing2 \<or> (\<exists>n. pc = Attempt n \<and> RESET_FAIL_RETRY_COUNT < n)")
  case True
  then show ?thesis using assms by auto
next
  case False
  then have "same_flags s s' \<and> pc' \<noteq> Clearing2 \<and> (pc' = Over \<longrightarrow> pc = Over)" using assms(1) by (intro reset_step_same) (auto simp: not_less)
  then show ?thesis using assms(2,3) False by (auto simp: same_flags_def)
qed

lemma reset_step_error:
  assumes "reset_step pc s = Some (pc', s')" "pc \<noteq> Clearing2"
  shows "is_cp2_error s' = is_cp2_error s"
proof (cases "pc = Clearing \<or> (\<exists>n. pc = Attempt n \<and> RESET_FAIL_RETRY_COUNT < n)")
  case True
  then show ?thesis using assms by auto
next
  case False
  then have "same_flags s s' \<and> pc' \<noteq> Clearing2 \<and> (pc' = Over \<longrightarrow> pc = Over)" using assms by (intro reset_step_same) (auto simp: not_less)
  then show ?thesis by (auto simp: same_flags_def)
qed

lemma atcmd_read_keeps: "keeps s (atcmd_read n s)"
proof (induction n arbitrary: s)
  case (Suc n)
  then show ?case unfolding atcmd_read.simps by (intro keeps_rules only_io_refl keeps_from [OF Suc]) assumption+
qed (simp add: keeps_rules)

lemmas atcmd_read_from = keeps_from [OF atcmd_read_keeps]

lemma atcmd_exchange_keeps: "keeps s (atcmd_exchange b s)"
  unfolding atcmd_exchange_def by (intro keeps_rules atcmd_read_from only_io_refl) assumption+

lemma send_back_flags: "send_back_cmd_result fd str ok s = Some s' \<Longrightarrow> doing_reset s' = doing_reset s \<and> is_cp2_error s' = is_cp2_error s"
  by (auto simp: send_back_cmd_result_def write_fd_def Let_def bind_eq_Some_conv split: if_splits dest!: only_io_shared [OF syscall_keeps])

lemma atcmd_flags: "wcn_process_atcmd fd str s = Some s' \<Longrightarrow> doing_reset s' = doing_reset s \<and> is_cp2_error s' = is_cp2_error s"
  by (auto simp: wcn_process_atcmd_def write_fd_def bind_eq_Some_conv split: if_splits option.splits
      dest!: only_io_shared [OF syscall_keeps] only_io_shared [OF atcmd_exchange_keeps])

lemma wcn_runcommand_flags:
  assumes "wcn_runcommand fd args s = Some s'" "args = [] \<or> hd args \<noteq> ''reset''"
  shows "doing_reset s' = doing_reset s \<and> is_cp2_error s' = is_cp2_error s"
  using assms by (auto simp: wcn_runcommand_def split: list.splits if_splits dest!: send_back_flags atcmd_flags)

lemma step_reset_flag:
  assumes "wcnd_step t e t'" "reset_flag t"
  shows "reset_flag t'"
  using assms
proof cases
  case (step_phase pc s)
  then show ?thesis using reset_step_flag [of "rpc t" "shared t" pc s] assms(2) by (auto simp: reset_flag_def)
next
  case (step_raise c s)
  then show ?thesis using only_io_shared [OF syscall_keeps step_raise(4)] assms(2) by (auto simp: reset_flag_def)
next
  case (step_send_listener c s)
  then show ?thesis using exception_send_flags [OF step_send_listener(4)] assms(2) by (auto simp: reset_flag_def)
next
  case (step_test ok s)
  then show ?thesis using only_io_shared [OF is_cp2_alive_ok_keeps step_test(4)] assms(2) by (auto simp: reset_flag_def)
next
  case (step_send_checker c s)
  then show ?thesis using exception_send_flags [OF step_send_checker(4)] assms(2) by (auto simp: reset_flag_def)
next
  case (step_remove fd)
  then show ?thesis using assms(2) by (auto simp: reset_flag_def remove_client_def split: option.splits)
next
  case (step_command args fd s)
  then show ?thesis using wcn_runcommand_flags [OF step_command(5,4)] assms(2) by (auto simp: reset_flag_def)
qed (auto simp: reset_flag_def)

lemma step_error:
  assumes "wcnd_step t e t'" "e \<noteq> Reset_phase Clearing2" "is_cp2_error (shared t)"
  shows "is_cp2_error (shared t') \<and> e \<noteq> Loop_look"
  using assms
proof cases
  case (step_phase pc s)
  then show ?thesis using reset_step_error [of "rpc t" "shared t" pc s] assms(2,3) by auto
next
  case (step_raise c s)
  then show ?thesis using only_io_shared [OF syscall_keeps step_raise(4)] by auto
next
  case (step_send_listener c s)
  then show ?thesis using exception_send_flags [OF step_send_listener(4)] assms(3) by auto
next
  case (step_test ok s)
  then show ?thesis using only_io_shared [OF is_cp2_alive_ok_keeps step_test(4)] assms(3) by auto
next
  case (step_send_checker c s)
  then show ?thesis using exception_send_flags [OF step_send_checker(4)] assms(3) by auto
next
  case (step_remove fd)
  then show ?thesis using assms(3) by (auto simp: remove_client_def split: option.splits)
next
  case (step_command args fd s)
  then show ?thesis using wcn_runcommand_flags [OF step_command(5,4)] assms(3) by auto
qed (use assms(3) in auto)

text \<open>While a reset runs, a watching thread can finish a message but not get past the check.\<close>

lemma step_sending:
  assumes "wcnd_step t e t'" "doing_reset (shared t)"
  shows "sending t' + (if e = Exception then 1 else 0) \<le> sending t"
  using assms by cases (auto simp: sending_def split: watch_pc.splits)

lemma step_phases:
  assumes "wcnd_step t e t'" "e \<noteq> Reset_begin"
  shows "pc_rank (rpc t') + (if is_phase e then 1 else 0) \<le> pc_rank (rpc t)"
  using assms
proof cases
  case (step_phase pc s)
  then show ?thesis using reset_step_rank [of "rpc t" "shared t" pc s] by auto
qed auto

text \<open>The last phase of a reset with the flag: its end.\<close>

definition ends_reset :: "event \<Rightarrow> bool" where
  "ends_reset e \<longleftrightarrow> e = Reset_phase Clearing \<or> (\<exists>n. e = Reset_phase (Attempt n) \<and> RESET_FAIL_RETRY_COUNT < n)"

lemma step_keeps_reset:
  assumes "wcnd_step t e t'" "reset_flag t" "doing_reset (shared t)" "\<not> ends_reset e"
  shows "doing_reset (shared t')"
proof -
  have r: "rpc t \<noteq> Over" "rpc t \<noteq> Clearing2" using assms(2,3) by (auto simp: reset_flag_def)
  have "rpc t' \<noteq> Over \<and> rpc t' \<noteq> Clearing2" using assms(1)
  proof cases
    case (step_phase pc s)
    then show ?thesis using assms(4) r reset_step_same [of "rpc t" "shared t" pc s] by (auto simp: ends_reset_def not_less)
  qed (use r in auto)
  then show ?thesis using step_reset_flag [OF assms(1,2)] by (auto simp: reset_flag_def)
qed

lemma trace_reset_flag: "wcnd_trace t es t' \<Longrightarrow> reset_flag t \<Longrightarrow> reset_flag t'"
  by (induction rule: wcnd_trace.induct) (auto dest: step_reset_flag)

lemma trace_error:
  "wcnd_trace t es t' \<Longrightarrow> is_cp2_error (shared t) \<Longrightarrow> Reset_phase Clearing2 \<notin> set es \<Longrightarrow>
   is_cp2_error (shared t') \<and> Loop_look \<notin> set es"
proof (induction rule: wcnd_trace.induct)
  case (trace_step t e t1 es t2)
  then show ?case using step_error [OF trace_step(1)] by auto
qed simp

lemma trace_sending:
  "wcnd_trace t es t' \<Longrightarrow> reset_flag t \<Longrightarrow> doing_reset (shared t) \<Longrightarrow> \<not> list_ex ends_reset es \<Longrightarrow>
   length (filter (\<lambda>e. e = Exception) es) + sending t' \<le> sending t"
proof (induction rule: wcnd_trace.induct)
  case (trace_step t e t1 es t2)
  then show ?case
    using step_sending [OF trace_step(1)] step_reset_flag [OF trace_step(1)] step_keeps_reset [OF trace_step(1)] by (auto split: if_splits)
qed simp

lemma trace_phases:
  "wcnd_trace t es t' \<Longrightarrow> Reset_begin \<notin> set es \<Longrightarrow> length (filter is_phase es) + pc_rank (rpc t') \<le> pc_rank (rpc t)"
proof (induction rule: wcnd_trace.induct)
  case (trace_step t e t1 es t2)
  then show ?case using step_phases [OF trace_step(1)] by (auto split: if_splits)
qed simp

lemma pc_rank_le: "pc_rank pc \<le> 18"
  by (cases pc) (auto simp: RESET_FAIL_RETRY_COUNT_def)

text \<open>C11: In every interleaving of the client thread, which runs the resets, with the two threads that watch the
  coprocessor and with changes of the environment: the flag for a running reset says whether one runs; the error flag, once
  set, stays until a reset has succeeded, and until then the loop is not tested; during a reset each of the two watching
  threads sends at most the one message it had already decided to send; and a reset is over after at most 18 phases.\<close>

theorem threads_ok:
  assumes "wcnd_trace t es t'" "reset_flag t"
  shows "reset_flag t' \<and>
    (is_cp2_error (shared t) \<and> Reset_phase Clearing2 \<notin> set es \<longrightarrow> is_cp2_error (shared t') \<and> Loop_look \<notin> set es) \<and>
    (doing_reset (shared t) \<and> \<not> list_ex ends_reset es \<longrightarrow> length (filter (\<lambda>e. e = Exception) es) \<le> sending t \<and> sending t \<le> 2) \<and>
    (Reset_begin \<notin> set es \<longrightarrow> length (filter is_phase es) \<le> 18)"
proof (intro conjI impI)
  show "reset_flag t'" by (rule trace_reset_flag [OF assms])
  show "is_cp2_error (shared t')" "Loop_look \<notin> set es" if "is_cp2_error (shared t) \<and> Reset_phase Clearing2 \<notin> set es"
    using trace_error [OF assms(1)] that by auto
  show "length (filter (\<lambda>e. e = Exception) es) \<le> sending t" if "doing_reset (shared t) \<and> \<not> list_ex ends_reset es"
    using trace_sending [OF assms] that by auto
  show "sending t \<le> 2" by (auto simp: sending_def split: watch_pc.splits)
  show "length (filter is_phase es) \<le> 18" if "Reset_begin \<notin> set es"
    using trace_phases [OF assms(1) that] pc_rank_le [of "rpc t"] by linarith
qed

text \<open>A reset began after the thread for the two files had looked at the flag; its message goes out in the reset.\<close>

definition demo_race :: threads where
  "demo_race = \<lparr>rpc = Waiting, listener = Sending (Bytes ''assert''), checker = Idle,
     shared = demo_wcnd\<lparr>doing_reset := True, is_cp2_error := True, calls := [Ret 25, Ret 25]\<rparr>\<rparr>"

lemma demo_race_send: "exception_send (Bytes ''assert'') (shared demo_race) \<noteq> None"
  by (simp add: demo_race_def demo_wcnd_def exception_send_def exception_data_def pre_send_cp2_exception_notify_def property_set_def notify_eval)

theorem threads_ok_witness:
  "\<exists>t'. wcnd_trace demo_race [Exception] t' \<and> reset_flag demo_race \<and> doing_reset (shared demo_race) \<and> is_cp2_error (shared t') \<and>
     sending demo_race = 1 \<and> reset_flag t'"
proof -
  obtain s where s: "exception_send (Bytes ''assert'') (shared demo_race) = Some s" using demo_race_send by auto
  have "listener demo_race = Sending (Bytes ''assert'')" by (simp add: demo_race_def)
  note tr = trace_step [OF step_send_listener [OF this s] trace_nil]
  have f: "reset_flag demo_race" "doing_reset (shared demo_race)" "is_cp2_error (shared demo_race)" "sending demo_race = 1"
    by (simp_all add: reset_flag_def demo_race_def sending_def)
  show ?thesis
    using threads_ok [OF tr f(1)] tr f by (intro exI [of _ "demo_race\<lparr>listener := Idle, shared := s\<rparr>"]) simp
qed

text \<open>An exception that comes while a reset runs is not reported, and the end of a reset that succeeds forgets it.\<close>

lemma exception_in_reset_lost:
  assumes "doing_reset s" "handle_cp2_assert s = Some s1" "run_reset Clearing s1 = Some s2"
  shows "msgs s2 = msgs s \<and> \<not> is_cp2_error s2"
proof -
  obtain c where c: "syscall (s\<lparr>is_cp2_error := True\<rparr>) = Some (c, s1)"
    using assms(1,2) only_io_shared [OF syscall_keeps, of "s\<lparr>is_cp2_error := True\<rparr>"]
    by (auto simp: handle_cp2_assert_def handle_exception_def bind_eq_Some_conv split: if_splits)
  then show ?thesis using assms(3) only_io_fields(2) [OF keepsD [OF syscall_keeps c]] by (auto simp: run_reset.simps)
qed

end
