(* ===== verification/Wcn_Clients.thy ===== *)
theory Wcn_Clients
  imports Wcn_Threads
begin

text \<open>
  The table of clients of \<open>apps/wcnd/wcnd.c\<close>: every operation of the client thread and every notification only takes entries out,
  a new client takes a free one.
\<close>

section \<open>The table of clients\<close>

text \<open>Entries are only taken out.\<close>

definition entries_le :: "int list \<Rightarrow> int list \<Rightarrow> bool" where
  "entries_le fds fds' \<longleftrightarrow> list_all2 (\<lambda>a b. b = a \<or> b = -1) fds fds'"

definition table_kept :: "WcndManager \<Rightarrow> WcndManager option \<Rightarrow> bool" where
  "table_kept s m \<longleftrightarrow> (\<forall>s'. m = Some s' \<longrightarrow> entries_le (client_fds s) (client_fds s'))"

lemma entries_le_refl [simp]: "entries_le fds fds"
  by (simp add: entries_le_def list_all2_refl)

lemma entries_le_trans [trans]: "entries_le a b \<Longrightarrow> entries_le b c \<Longrightarrow> entries_le a c"
  unfolding entries_le_def by (rule list_all2_trans [where ?P1.0 = "\<lambda>a b. b = a \<or> b = -1" and ?P2.0 = "\<lambda>a b. b = a \<or> b = -1"]) auto

lemma table_same: "client_fds s' = client_fds s \<Longrightarrow> table_kept s (Some s')"
  by (simp add: table_kept_def)

lemma keeps_table: "keeps s m \<Longrightarrow> m = Some (r, s1) \<Longrightarrow> client_fds s1 = client_fds s"
  by (drule keepsD, assumption) (simp add: only_io_fields)

lemma notify_loop_entries:
  "notify_loop seen fds info s = Some s' \<Longrightarrow> \<exists>fds'. client_fds s' = seen @ fds' \<and> entries_le fds fds'"
proof (induction fds arbitrary: seen s)
  case (Cons fd fds)
  have "\<exists>e s1. notify_loop (seen @ [e]) fds info s1 = Some s' \<and> (e = fd \<or> e = -1)"
  proof (cases "0 \<le> fd")
    case True
    then show ?thesis using Cons.prems by (cases "send_msg s fd info") (fastforce split: if_splits)+
  qed (use Cons.prems in auto)
  then obtain e s1 where e: "notify_loop (seen @ [e]) fds info s1 = Some s'" "e = fd \<or> e = -1" by blast
  show ?case using Cons.IH [OF e(1)] e(2) by (auto simp: entries_le_def)
qed (auto simp: entries_le_def)

lemma send_notify_entries: "send_notify_to_client info s = Some s' \<Longrightarrow> entries_le (client_fds s) (client_fds s')"
  using notify_loop_entries [of "[]" "client_fds s" info s s'] by (auto simp: send_notify_to_client_def)

lemma reset_step_entries:
  assumes "reset_step pc s = Some (pc', s')"
  shows "entries_le (client_fds s) (client_fds s')"
proof (cases pc)
  case (Working n)
  then show ?thesis using assms by (auto dest!: keeps_table [OF reset_cp2_keeps])
next
  case Waiting
  then show ?thesis using assms by (auto dest!: wait_for_dump_logs_io simp: only_io_fields)
next
  case (Ending n ok)
  then show ?thesis using assms
    by (auto simp: bind_eq_Some_conv split: if_splits dest!: send_notify_entries intro: entries_le_trans)
qed (use assms in \<open>auto split: if_splits dest!: send_notify_entries\<close>)

lemma run_reset_entries: "run_reset pc s = Some s' \<Longrightarrow> entries_le (client_fds s) (client_fds s')"
proof (induction pc s arbitrary: s' rule: run_reset.induct)
  case (1 pc s)
  show ?case
  proof (cases "pc = Over")
    case True
    then show ?thesis using "1.prems" by (simp add: run_reset.simps)
  next
    case False
    then obtain pc1 s1 where s1: "reset_step pc s = Some (pc1, s1)" "run_reset pc1 s1 = Some s'"
      using "1.prems" by (subst (asm) run_reset.simps) (auto simp: bind_eq_Some_conv)
    then show ?thesis using "1.IH" [OF False s1(1) refl s1(2)] reset_step_entries [OF s1(1)] entries_le_trans by blast
  qed
qed

lemma do_reset_entries: "do_cp2_reset_process s = Some s' \<Longrightarrow> entries_le (client_fds s) (client_fds s')"
  by (auto simp: do_cp2_reset_process_def split: if_splits dest: run_reset_entries)

lemma send_back_table: "send_back_cmd_result fd str ok s = Some s' \<Longrightarrow> client_fds s' = client_fds s"
  by (auto simp: send_back_cmd_result_def write_fd_def Let_def bind_eq_Some_conv split: if_splits dest!: keeps_table [OF syscall_keeps])

lemma atcmd_table: "wcn_process_atcmd fd str s = Some s' \<Longrightarrow> client_fds s' = client_fds s"
  by (auto simp: wcn_process_atcmd_def write_fd_def bind_eq_Some_conv split: if_splits option.splits
      dest!: keeps_table [OF syscall_keeps] keeps_table [OF atcmd_exchange_keeps])

lemma wcn_runcommand_entries: "wcn_runcommand fd args s = Some s' \<Longrightarrow> entries_le (client_fds s) (client_fds s')"
  by (auto simp: wcn_runcommand_def bind_eq_Some_conv split: list.splits if_splits
      dest!: send_back_table atcmd_table do_reset_entries)

text \<open>A library for the engineering mode that does not touch the table.\<close>

definition leaves_table :: "runcommand \<Rightarrow> bool" where
  "leaves_table run \<longleftrightarrow> (\<forall>fd args s. table_kept s (run fd args s))"

lemma table_keptD: "leaves_table run \<Longrightarrow> run fd args s = Some s' \<Longrightarrow> entries_le (client_fds s) (client_fds s')"
  by (simp add: leaves_table_def table_kept_def)

lemma wcn_leaves_table: "leaves_table wcn_runcommand"
  by (simp add: leaves_table_def table_kept_def wcn_runcommand_entries)

lemma eng_leaves_table: "leaves_table iwnpi \<Longrightarrow> leaves_table bt \<Longrightarrow> leaves_table (eng_runcommand iwnpi bt)"
  unfolding leaves_table_def table_kept_def eng_runcommand_def Let_def
  by (auto split: list.splits if_splits dest!: send_back_table)

lemma dispatch2_entries:
  assumes "leaves_table iwnpi" "leaves_table bt" "dispatch_command2 iwnpi bt fd d s = Some s'"
  shows "entries_le (client_fds s) (client_fds s')"
  using assms(3) table_keptD [OF wcn_leaves_table] table_keptD [OF eng_leaves_table [OF assms(1,2)]]
  by (auto simp: dispatch_command2_def run_args_def split: sum.splits option.splits WcnCmdExecuter.splits dest!: send_back_table)

lemma dispatch_loop_entries:
  assumes "leaves_table iwnpi" "leaves_table bt"
  shows "dispatch_loop iwnpi bt fd cmd d s = Some s' \<Longrightarrow> entries_le (client_fds s) (client_fds s')"
proof (induction d arbitrary: cmd s)
  case Nil
  then show ?case using dispatch2_entries [OF assms] by (auto split: if_splits)
next
  case (Cons c d)
  show ?case
  proof (cases "c = CHR 0x00")
    case True
    then obtain s1 where s1: "cmd \<noteq> [] \<longrightarrow> dispatch_command2 iwnpi bt fd cmd s = Some s1" "cmd = [] \<longrightarrow> s1 = s"
      "dispatch_loop iwnpi bt fd [] d s1 = Some s'"
      using Cons.prems by (auto simp: bind_eq_Some_conv split: if_splits)
    have "entries_le (client_fds s) (client_fds s1)" using s1(1,2) dispatch2_entries [OF assms] by (cases "cmd = []") auto
    then show ?thesis using Cons.IH [OF s1(3)] entries_le_trans by blast
  qed (use Cons in auto)
qed

lemma process_active_entries:
  assumes "leaves_table iwnpi" "leaves_table bt" "process_active_client_fd iwnpi bt fd s = Some (r, s')"
  shows "entries_le (client_fds s) (client_fds s')"
proof -
  obtain c s1 where c: "syscall_retry s = Some (c, s1)" using assms(3) by (auto simp: process_active_client_fd_def bind_eq_Some_conv)
  have "s' = s1 \<or> (\<exists>d. dispatch_loop iwnpi bt fd [] d s1 = Some s')"
    using assms(3) c by (auto simp: process_active_client_fd_def dispatch_command_def split: sysres.splits if_splits)
  then show ?thesis using keeps_table [OF syscall_retry_keeps c] dispatch_loop_entries [OF assms(1,2)] by fastforce
qed

lemma zap_entries: "zap fd fds = Some fds' \<Longrightarrow> entries_le fds fds'"
  by (induction fds arbitrary: fds') (auto simp: entries_le_def list_all2_refl split: if_splits)

lemma remove_client_entries: "entries_le (client_fds s) (client_fds (remove_client fd s))"
  by (auto simp: remove_client_def zap_entries split: option.splits)

lemma pending_loop_entries:
  assumes "leaves_table iwnpi" "leaves_table bt"
  shows "pending_loop iwnpi bt fds s = Some s' \<Longrightarrow> entries_le (client_fds s) (client_fds s')"
proof (induction fds arbitrary: s)
  case (Cons fd fds)
  show ?case
  proof (cases "fd = -1")
    case False
    then obtain r s1 where s1: "process_active_client_fd iwnpi bt fd s = Some (r, s1)"
      "pending_loop iwnpi bt fds (if r = RDWR_FD_FAIL then remove_client fd s1 else s1) = Some s'"
      using Cons.prems by (auto simp: bind_eq_Some_conv)
    have "entries_le (client_fds s1) (client_fds (if r = RDWR_FD_FAIL then remove_client fd s1 else s1))"
      using remove_client_entries by auto
    then show ?thesis using process_active_entries [OF assms s1(1)] Cons.IH [OF s1(2)] entries_le_trans by blast
  qed (use Cons in auto)
qed simp

text \<open>A new client takes a free entry; in a full table it takes the last one.\<close>

lemma store_from_spec:
  "store_from fds fd = Some fds' \<Longrightarrow> fd \<notin> set fds \<Longrightarrow> \<exists>i<length fds. fds ! i = -1 \<and> fds' = fds[i := fd]"
proof (induction fds arbitrary: fds')
  case (Cons c cs)
  show ?case
  proof (cases "c = -1")
    case True
    then show ?thesis using Cons.prems by (intro exI [of _ 0]) simp
  next
    case False
    then obtain fds1 where f: "store_from cs fd = Some fds1" "fds' = c # fds1" using Cons.prems by auto
    then show ?thesis using Cons.IH [OF f(1)] Cons.prems(2) by (auto intro: exI [of _ "Suc i" for i])
  qed
qed simp

lemma store_from_full: "store_from fds fd = None \<longleftrightarrow> -1 \<notin> set fds \<and> fd \<notin> set fds"
  by (induction fds) auto

lemma store_client_fd_spec:
  assumes "fd \<notin> set fds" "fds \<noteq> []"
  shows "\<exists>i<length fds. store_client_fd fds fd = fds[i := fd] \<and> (if -1 \<in> set fds then fds ! i = -1 else i = length fds - 1)"
proof (cases "store_from fds fd")
  case None
  then have "store_client_fd fds fd = fds[length fds - 1 := fd]"
    using assms(2) by (cases fds rule: rev_cases) (auto simp: store_client_fd_def)
  then show ?thesis using None assms(2) store_from_full [of fds fd] by auto
next
  case (Some fds')
  then show ?thesis using store_from_spec [OF Some assms(1)] store_from_full [of fds fd] assms(1) by (auto simp: store_client_fd_def)
qed

lemma distinct_filter_update:
  assumes "distinct (filter P xs)" "v \<notin> set xs"
  shows "distinct (filter P (xs[i := v]))"
  using assms
proof (induction xs arbitrary: i)
  case (Cons x xs)
  then show ?case using set_update_subset_insert [of xs "i - 1" v] by (cases i) (auto split: if_splits)
qed simp

lemma entries_le_length: "entries_le a b \<Longrightarrow> length b = length a"
  by (simp add: entries_le_def list_all2_lengthD)

lemma entries_le_distinct: "entries_le a b \<Longrightarrow> distinct (filter (\<lambda>fd. 0 \<le> fd) a) \<Longrightarrow> distinct (filter (\<lambda>fd. 0 \<le> fd) b)"
  by (simp add: entries_le_def kept_distinct)

text \<open>C28: A turn of the client thread keeps the table of clients: it has ten entries, no socket twice, and apart from the
  socket that was accepted it has lost entries only. A new client gets a free entry while there is one. When there
  is none it takes the last entry, and the socket in it is forgotten without being closed.\<close>

theorem client_turn_table:
  assumes "client_listen_turn iwnpi bt accepted ready s = Some s'" "leaves_table iwnpi" "leaves_table bt"
    "clients_ok s" "length (client_fds s) = WCND_MAX_CLIENT_NUM" "\<And>c. accepted = Some c \<Longrightarrow> c \<notin> set (client_fds s)"
  shows "clients_ok s' \<and> length (client_fds s') = WCND_MAX_CLIENT_NUM \<and>
    (\<exists>fds. entries_le fds (client_fds s') \<and>
      (case accepted of
         None \<Rightarrow> fds = client_fds s
       | Some c \<Rightarrow> \<exists>i<WCND_MAX_CLIENT_NUM. fds = (client_fds s)[i := c] \<and>
           (if -1 \<in> set (client_fds s) then client_fds s ! i = -1 else i = WCND_MAX_CLIENT_NUM - 1)))"
proof -
  define fds where "fds = (case accepted of None \<Rightarrow> client_fds s | Some c \<Rightarrow> store_client_fd (client_fds s) c)"
  have "\<exists>s1 p. pending_loop iwnpi bt p s1 = Some s' \<and> client_fds s1 = fds"
    using assms(1) unfolding client_listen_turn_def Let_def fds_def by (auto split: option.splits)
  then have e: "entries_le fds (client_fds s')" using pending_loop_entries [OF assms(2,3)] by blast
  have ne: "client_fds s \<noteq> []" using assms(5) by (auto simp: WCND_MAX_CLIENT_NUM_def)
  have i: "\<exists>i<WCND_MAX_CLIENT_NUM. fds = (client_fds s)[i := c] \<and>
      (if -1 \<in> set (client_fds s) then client_fds s ! i = -1 else i = WCND_MAX_CLIENT_NUM - 1)" if "accepted = Some c" for c
    using store_client_fd_spec [OF assms(6) [OF that] ne] that unfolding assms(5) fds_def by simp
  have "length fds = WCND_MAX_CLIENT_NUM \<and> distinct (filter (\<lambda>fd. 0 \<le> fd) fds)"
  proof (cases accepted)
    case None
    then show ?thesis using assms(4,5) by (simp add: fds_def clients_ok_def)
  next
    case (Some c)
    then show ?thesis using i [OF Some] assms(4,5,6) distinct_filter_update [of "\<lambda>fd. 0 \<le> fd" "client_fds s" c]
      by (auto simp: clients_ok_def)
  qed
  then have "clients_ok s' \<and> length (client_fds s') = WCND_MAX_CLIENT_NUM"
    using entries_le_length [OF e] entries_le_distinct [OF e] by (simp add: clients_ok_def)
  moreover have "case accepted of None \<Rightarrow> fds = client_fds s
       | Some c \<Rightarrow> \<exists>i<WCND_MAX_CLIENT_NUM. fds = (client_fds s)[i := c] \<and>
           (if -1 \<in> set (client_fds s) then client_fds s ! i = -1 else i = WCND_MAX_CLIENT_NUM - 1)"
  proof (cases accepted)
    case None
    then show ?thesis by (simp add: fds_def)
  next
    case (Some c)
    show ?thesis using i [OF Some] unfolding Some option.case .
  qed
  ultimately show ?thesis using e by blast
qed

text \<open>The eleventh client pushes out the tenth.\<close>

definition demo_full :: WcndManager where
  "demo_full = demo_wcnd\<lparr>client_fds := map int [20..<30]\<rparr>"

lemma demo_full_turn:
  "client_listen_turn (\<lambda>fd args s. Some s) (\<lambda>fd args s. Some s) (Some 40) (\<lambda>fd. False) demo_full =
   Some (demo_full\<lparr>client_fds := map int [20..<29] @ [40]\<rparr>)"
  by (simp add: client_listen_turn_def demo_full_def demo_wcnd_def store_client_fd_def upt_conv_Cons WCND_MAX_CLIENT_NUM_def
      numeral_eq_Suc)

theorem client_turn_table_witness:
  "clients_ok (demo_full\<lparr>client_fds := map int [20..<29] @ [40]\<rparr>) \<and> clients_ok demo_full \<and> 29 \<in> set (client_fds demo_full) \<and>
   29 \<notin> set (map int [20..<29] @ [40])"
proof -
  have l: "leaves_table (\<lambda>fd args s. Some s)" by (simp add: leaves_table_def table_kept_def)
  have c: "clients_ok demo_full" "length (client_fds demo_full) = WCND_MAX_CLIENT_NUM" "40 \<notin> set (client_fds demo_full)"
    "29 \<in> set (client_fds demo_full)"
    by (simp_all add: demo_full_def demo_wcnd_def clients_ok_def WCND_MAX_CLIENT_NUM_def distinct_map)
  show ?thesis using client_turn_table [OF demo_full_turn l l c(1,2)] c by auto
qed

text \<open>After the start both executers can be found by their names, the table of clients is empty, and a reset is
  enabled unless a property says otherwise.\<close>

definition same_setup :: "WcndManager \<Rightarrow> WcndManager \<Rightarrow> bool" where
  "same_setup s s' \<longleftrightarrow> cmdexecuter_list s' = cmdexecuter_list s \<and> client_fds s' = client_fds s \<and> inited s' = inited s \<and>
     doing_reset s' = doing_reset s \<and> is_cp2_error s' = is_cp2_error s"

lemma keeps_setup: "keeps s m \<Longrightarrow> m = Some (r, s') \<Longrightarrow> same_setup s s'"
  by (drule keepsD, assumption) (simp add: only_io_fields same_setup_def)

lemma atcmd_setup: "wcn_process_atcmd fd str s = Some s' \<Longrightarrow> same_setup s s'"
  by (auto simp: wcn_process_atcmd_def write_fd_def bind_eq_Some_conv same_setup_def split: if_splits option.splits
      dest!: keeps_setup [OF syscall_keeps] keeps_setup [OF atcmd_exchange_keeps])

lemma check_log_setup: "check_disable_cp2_log s = Some s' \<Longrightarrow> same_setup s s'"
  unfolding check_disable_cp2_log_def using atcmd_setup by (auto simp: same_setup_def split: if_splits)

lemma engineer_setup: "same_setup s (start_engineer_service s)"
  by (simp add: same_setup_def start_engineer_service_def property_set_def)

lemma register_both:
  assumes "inited s" "cmdexecuter_list s = replicate WCND_MAX_CMD_EXECUTER_NUM None"
  shows "snd (wcnd_register_cmdexecuter wcn_eng_cmdexecuter (snd (wcnd_register_cmdexecuter wcn_cmdexecuter s))) =
    s\<lparr>cmdexecuter_list := Some wcn_cmdexecuter # Some wcn_eng_cmdexecuter # replicate 8 None\<rparr>"
proof -
  have "replicate WCND_MAX_CMD_EXECUTER_NUM (None :: WcnCmdExecuter option) = None # None # replicate 8 None"
    by (simp add: WCND_MAX_CMD_EXECUTER_NUM_def numeral_eq_Suc)
  then show ?thesis using assms by (simp add: wcnd_register_cmdexecuter_def)
qed

lemma main_ready:
  assumes "wcnd_main listen_fd created e = Some (Some (ts, s))"
  shows "inited s \<and> client_fds s = replicate WCND_MAX_CLIENT_NUM (-1) \<and> clients_ok s \<and> \<not> doing_reset s \<and> \<not> is_cp2_error s \<and>
    find_executer ''wcn'' (cmdexecuter_list s) = Some wcn_cmdexecuter \<and> find_executer ''eng'' (cmdexecuter_list s) = Some wcn_eng_cmdexecuter"
proof -
  obtain r s0 where i: "wcnd_init listen_fd e = (r, s0)" by (cases "wcnd_init listen_fd e")
  have r: "\<not> r < 0" using assms i by (auto simp: wcnd_main_def)
  then have s0: "inited s0" "client_fds s0 = replicate WCND_MAX_CLIENT_NUM (-1)" "\<not> doing_reset s0" "\<not> is_cp2_error s0"
    "cmdexecuter_list s0 = replicate WCND_MAX_CMD_EXECUTER_NUM None"
    using i by (auto simp: wcnd_init_def Let_def property_set_def split: if_splits)
  define s1 where "s1 = start_engineer_service s0"
  have e1: "same_setup s0 s1" using engineer_setup by (simp add: s1_def)
  have "check_disable_cp2_log (s1\<lparr>cmdexecuter_list := Some wcn_cmdexecuter # Some wcn_eng_cmdexecuter # replicate 8 None\<rparr>) = Some s"
    using assms i r register_both [of s1] e1 s0 by (auto simp: wcnd_main_def s1_def same_setup_def Let_def split: option.splits)
  from check_log_setup [OF this] show ?thesis using e1 s0 by (simp add: same_setup_def clients_ok_def WCND_MAX_CLIENT_NUM_def)
qed

end
