(* ===== verification/Wcn_Mac.thy ===== *)
theory Wcn_Mac
  imports C_Text
begin

text \<open>
  \<open>apps/wcnd/wcnd.c\<close>, the addresses of WiFi and Bluetooth that the daemon writes at its start: printing and reading,
  the files, the choice between the factory address, the configured one and a random one.
\<close>

unbundle bit_operations_syntax

section \<open>Text of an address\<close>

definition MAC_LEN :: nat where "MAC_LEN = 6"

definition hex_char :: "nat \<Rightarrow> char" where
  "hex_char n = (if n < 10 then char_of (48 + n) else char_of (87 + n))"

definition print_hex2 :: "u8 \<Rightarrow> string" where
  "print_hex2 b = [hex_char (unat b div 16), hex_char (unat b mod 16)]"

text \<open>\<open>sprintf\<close> with \<open>"%02x:%02x:%02x:%02x:%02x:%02x"\<close>.\<close>

fun print_mac :: "u8 list \<Rightarrow> string" where
  "print_mac [] = []"
| "print_mac [b] = print_hex2 b"
| "print_mac (b # bs) = print_hex2 b @ CHR '':'' # print_mac bs"

text \<open>A conversion \<open>%02x\<close> of \<open>fscanf\<close>: white space, then at most two characters, one of which may be a sign.\<close>

definition scan_hex2 :: "string \<Rightarrow> (u32 \<times> string) option" where
  "scan_hex2 s =
     (case dropWhile isspace s of
        [] \<Rightarrow> None
      | a # r \<Rightarrow>
          if a \<in> {CHR ''+'', CHR ''-''} then
            (case r of
               [] \<Rightarrow> None
             | b # r' \<Rightarrow> (case hex_digit b of
                           None \<Rightarrow> None
                         | Some d \<Rightarrow> Some (if a = CHR ''-'' then - word_of_nat d else word_of_nat d, r')))
          else
            (case hex_digit a of
               None \<Rightarrow> None
             | Some d \<Rightarrow>
                 (case r of
                    [] \<Rightarrow> Some (word_of_nat d, [])
                  | b # r' \<Rightarrow> (case hex_digit b of
                                Some e \<Rightarrow> Some (word_of_nat (16 * d + e), r')
                              | None \<Rightarrow> if a = CHR ''0'' \<and> b \<in> {CHR ''x'', CHR ''X''} then None
                                        else Some (word_of_nat d, r)))))"

text \<open>The values of the conversions that succeed; \<open>fscanf\<close> returns their number.\<close>

fun scan_mac :: "nat \<Rightarrow> string \<Rightarrow> u32 list" where
  "scan_mac 0 s = []"
| "scan_mac (Suc n) s =
     (case scan_hex2 s of
        None \<Rightarrow> []
      | Some (v, r) \<Rightarrow> v # (if n = 0 \<or> r = [] \<or> hd r \<noteq> CHR '':'' then [] else scan_mac n (tl r)))"

text \<open>Each conversion stores an \<open>unsigned int\<close> at a byte of \<open>mac_src\<close>.\<close>

fun store_words :: "nat \<Rightarrow> u32 list \<Rightarrow> u8 list \<Rightarrow> u8 list option" where
  "store_words i [] mem = Some mem"
| "store_words i (v # vs) mem = do { mem \<leftarrow> buf_write i (to_le32 v) mem; store_words (i + 1) vs mem }"

section \<open>Files\<close>

record mac_files =
  files :: "string \<Rightarrow> string option"
  can_read :: "string \<Rightarrow> bool"
  can_write :: "string \<Rightarrow> bool"

definition is_zero_ether_addr :: "u8 list \<Rightarrow> bool" where
  "is_zero_ether_addr mac \<longleftrightarrow> (mac ! 0 OR mac ! 1 OR mac ! 2 OR mac ! 3 OR mac ! 4 OR mac ! 5) = 0"

text \<open>The values of \<open>rand\<close> are a parameter.\<close>

definition get_random_mac :: "(nat \<Rightarrow> u32) \<Rightarrow> u8 list" where
  "get_random_mac rand =
     (let mac = map (\<lambda>i. ucast (rand i AND 0xFF)) [0..<MAC_LEN]
      in mac[0 := (mac ! 0 AND 0xFE) OR 0x02])"

text \<open>\<open>room\<close> is the number of bytes behind the array \<open>mac_src\<close> that may be overwritten without harm. If
  the file cannot be opened, \<open>mac\<close> keeps what it had.\<close>

definition read_mac_from_file :: "nat \<Rightarrow> string \<Rightarrow> u8 list \<Rightarrow> mac_files \<Rightarrow> u8 list option" where
  "read_mac_from_file room path mac fs =
     (case files fs path of
        None \<Rightarrow> Some mac
      | Some body \<Rightarrow>
          if \<not> can_read fs path then Some mac
          else do { mem \<leftarrow> store_words 0 (scan_mac 6 body) (replicate (MAC_LEN + room) 0);
                    Some (if length (scan_mac 6 body) = 6 then take MAC_LEN mem else replicate MAC_LEN 0) })"

definition put_file :: "string \<Rightarrow> string \<Rightarrow> mac_files \<Rightarrow> mac_files" where
  "put_file path body fs =
     (if can_write fs path then
        fs\<lparr>files := (files fs)(path \<mapsto> body), can_read := (can_read fs)(path := True), can_write := (can_write fs)(path := True)\<rparr>
      else fs)"

definition write_mac_to_file :: "string \<Rightarrow> u8 list \<Rightarrow> mac_files \<Rightarrow> mac_files" where
  "write_mac_to_file path mac fs = put_file path (print_mac mac) fs"

text \<open>\<open>fgets\<close> with an array of 100 characters.\<close>

definition first_line :: "string \<Rightarrow> string" where
  "first_line body = take 99 (takeWhile (\<lambda>c. c \<noteq> CHR 0x0A) body @ take 1 (dropWhile (\<lambda>c. c \<noteq> CHR 0x0A) body))"

definition force_replace_file :: "string \<Rightarrow> string \<Rightarrow> mac_files \<Rightarrow> mac_files option" where
  "force_replace_file dst src fs =
     (case files fs src of
        None \<Rightarrow> Some fs
      | Some body \<Rightarrow>
          if \<not> can_read fs src then Some fs
          else if body = [] then None
          else Some (put_file dst (cstr (first_line body)) fs))"

text \<open>The common form of \<open>generate_wifi_mac\<close> and \<open>generate_bt_mac\<close>; \<open>old\<close> is what the array \<open>mac\<close> holds at the start.\<close>

definition generate_mac ::
  "string \<Rightarrow> string \<Rightarrow> (u8 list \<Rightarrow> u8 list) \<Rightarrow> nat \<Rightarrow> (nat \<Rightarrow> u32) \<Rightarrow> u8 list \<Rightarrow> mac_files \<Rightarrow> mac_files option" where
  "generate_mac config factory fix room rand old fs =
     do { mac \<leftarrow> (if files fs factory \<noteq> None then read_mac_from_file room factory old fs else Some old);
          (if files fs factory \<noteq> None \<and> \<not> is_zero_ether_addr mac then force_replace_file config factory fs
           else do { mac \<leftarrow> (if files fs config \<noteq> None then read_mac_from_file room config mac fs else Some mac);
                     (if files fs config \<noteq> None \<and> \<not> is_zero_ether_addr mac then Some fs
                      else Some (write_mac_to_file config (fix (get_random_mac rand)) fs)) }) }"

definition WCND_WIFI_CONFIG_FILE_PATH :: string where "WCND_WIFI_CONFIG_FILE_PATH = ''/data/misc/wifi/wifimac.txt''"
definition WCND_WIFI_FACTORY_CONFIG_FILE_PATH :: string where "WCND_WIFI_FACTORY_CONFIG_FILE_PATH = ''/productinfo/wifimac.txt''"
definition WCND_BT_CONFIG_FILE_PATH :: string where "WCND_BT_CONFIG_FILE_PATH = ''/data/misc/bluedroid/btmac.txt''"
definition WCND_BT_FACTORY_CONFIG_FILE_PATH :: string where "WCND_BT_FACTORY_CONFIG_FILE_PATH = ''/productinfo/btmac.txt''"

definition generate_wifi_mac :: "nat \<Rightarrow> (nat \<Rightarrow> u32) \<Rightarrow> u8 list \<Rightarrow> mac_files \<Rightarrow> mac_files option" where
  "generate_wifi_mac = generate_mac WCND_WIFI_CONFIG_FILE_PATH WCND_WIFI_FACTORY_CONFIG_FILE_PATH id"

definition generate_bt_mac :: "nat \<Rightarrow> (nat \<Rightarrow> u32) \<Rightarrow> u8 list \<Rightarrow> mac_files \<Rightarrow> mac_files option" where
  "generate_bt_mac = generate_mac WCND_BT_CONFIG_FILE_PATH WCND_BT_FACTORY_CONFIG_FILE_PATH (\<lambda>mac. mac[0 := 0])"

section \<open>Printing and reading\<close>

lemma of_hex_char: "n < 16 \<Longrightarrow> of_char (hex_char n) = (if n < 10 then 48 + n else 87 + n)"
  by (simp add: hex_char_def)

lemma hex_char_facts:
  assumes "n < 16"
  shows "hex_digit (hex_char n) = Some n" "\<not> isspace (hex_char n)" "hex_char n \<notin> {CHR ''+'', CHR ''-''}"
proof -
  note o = of_hex_char [OF assms]
  show "hex_digit (hex_char n) = Some n" using assms o by (simp add: hex_digit_def)
  show "\<not> isspace (hex_char n)" using o by (auto simp: isspace_def split: if_splits)
  show "hex_char n \<notin> {CHR ''+'', CHR ''-''}" using o by (auto split: if_splits)
qed

lemma scan_print_hex2: "scan_hex2 (print_hex2 b @ r) = Some (ucast b, r)"
proof -
  have "unat b < 256" by (rule order_less_le_trans [OF unsigned_less]) simp
  then have n: "unat b div 16 < 16" "unat b mod 16 < 16" by (simp_all add: less_mult_imp_div_less)
  have "ucast b = (word_of_nat (16 * (unat b div 16) + unat b mod 16) :: u32)"
    by (simp add: unsigned_ucast_eq)
  then show ?thesis using hex_char_facts [OF n(1)] hex_char_facts [OF n(2)] by (simp add: scan_hex2_def print_hex2_def)
qed

lemma scan_print_mac: "bs \<noteq> [] \<Longrightarrow> scan_mac (length bs) (print_mac bs) = map ucast bs"
  by (induction bs rule: print_mac.induct) (simp_all add: scan_print_hex2 scan_print_hex2 [where r = "[]", simplified])


lemma bit_u8_high: "8 \<le> m \<Longrightarrow> \<not> bit (b :: u8) (m + n)"
  using bit_imp_le_length [of b "m + n"] by auto

lemma to_le32_byte: "to_le32 (ucast (b :: u8)) = [b, 0, 0, 0]"
  by (auto simp: to_le32_def bit_simps bit_u8_high intro!: bit_word_eqI)

lemma store_words_mac:
  assumes "3 \<le> room"
  shows "\<exists>rest. store_words 0 [ucast a, ucast b, ucast c, ucast d, ucast e, ucast f] (replicate (6 + room) 0) = Some ([a, b, c, d, e, f] @ rest)"
proof -
  obtain k where "room = k + 3" using assms by (metis le_add_diff_inverse2)
  then have "replicate (6 + room) (0::u8) = 0 # 0 # 0 # 0 # 0 # 0 # 0 # 0 # 0 # replicate k 0" by (simp add: numeral_eq_Suc)
  then show ?thesis by (simp add: buf_write_def to_le32_byte)
qed


lemma length_6: "length bs = 6 \<Longrightarrow> \<exists>a b c d e f. bs = [a, b, c, d, e, f]"
  by (auto simp: numeral_eq_Suc length_Suc_conv)

lemma read_printed:
  assumes "3 \<le> room" "length mac = MAC_LEN" "files fs path = Some (print_mac mac)" "can_read fs path"
  shows "read_mac_from_file room path old fs = Some mac"
proof -
  obtain a b c d e f where m: "mac = [a, b, c, d, e, f]" using length_6 [of mac] assms(2) by (auto simp: MAC_LEN_def)
  have e: "scan_mac 6 (print_mac mac) = map ucast mac"
    using scan_print_mac [of mac] m unfolding assms(2) MAC_LEN_def by blast
  have s: "scan_mac 6 (print_mac mac) = [ucast a, ucast b, ucast c, ucast d, ucast e, ucast f]"
    unfolding e by (simp add: m)
  obtain rest where r: "store_words 0 [ucast a, ucast b, ucast c, ucast d, ucast e, ucast f] (replicate (6 + room) 0) =
      Some ([a, b, c, d, e, f] @ rest)"
    using store_words_mac [OF assms(1)] by blast
  show ?thesis unfolding read_mac_from_file_def assms(3) option.case s MAC_LEN_def r using assms(4) m by simp
qed

lemma zero_ether_0: "is_zero_ether_addr mac \<Longrightarrow> mac ! 0 = 0"
  by (simp only: is_zero_ether_addr_def or_eq_0_iff)

lemma random_mac_0: "get_random_mac rand ! 0 = (ucast (rand 0 AND 0xFF) AND 0xFE) OR 0x02"
  by (simp add: get_random_mac_def Let_def MAC_LEN_def)

lemma random_mac_facts:
  "length (get_random_mac rand) = MAC_LEN" "\<not> bit (get_random_mac rand ! 0) 0" "bit (get_random_mac rand ! 0) 1"
proof -
  show "length (get_random_mac rand) = MAC_LEN" by (simp add: get_random_mac_def Let_def)
  have e: "bit (0xFE :: u8) 0 = False" "bit (0x02 :: u8) 0 = False" "bit (0x02 :: u8) 1 = True" by simp_all
  show "\<not> bit (get_random_mac rand ! 0) 0" "bit (get_random_mac rand ! 0) 1"
    unfolding random_mac_0 bit_or_iff bit_and_iff e by simp_all
qed

lemma random_mac_nonzero: "\<not> is_zero_ether_addr (get_random_mac rand)"
  using zero_ether_0 random_mac_facts(3) [of rand] by fastforce

section \<open>Generation\<close>

lemma put_file_get: "can_write fs p \<Longrightarrow> files (put_file p t fs) p = Some t \<and> can_read (put_file p t fs) p"
  by (simp add: put_file_def)

lemma put_file_same: "can_write fs p \<Longrightarrow> put_file p t (put_file p t fs) = put_file p t fs"
  by (simp add: put_file_def)

lemma put_file_other: "p \<noteq> q \<Longrightarrow> files (put_file p t fs) q = files fs q \<and> can_read (put_file p t fs) q = can_read fs q"
  by (simp add: put_file_def)

lemma read_mac_cong:
  "files fs p = files fs' p \<Longrightarrow> can_read fs p = can_read fs' p \<Longrightarrow> read_mac_from_file room p m fs = read_mac_from_file room p m fs'"
  unfolding read_mac_from_file_def by presburger

lemma store_words_defined: "i + length vs + 3 \<le> length mem \<Longrightarrow> \<exists>mem'. store_words i vs mem = Some mem' \<and> length mem' = length mem"
proof (induction vs arbitrary: i mem)
  case (Cons v vs)
  obtain m1 where m1: "buf_write i (to_le32 v) mem = Some m1"
    using buf_write_defined [of i "to_le32 v" mem] Cons.prems by auto
  then show ?case using Cons.IH [of "i + 1" m1] buf_write_length [OF m1] Cons.prems by auto
qed simp

lemma length_scan_mac: "length (scan_mac n s) \<le> n"
  by (induction n s rule: scan_mac.induct) (auto split: option.splits)

text \<open>A file that can be opened gives an address that does not depend on what the array held before.\<close>

lemma read_mac_defined:
  assumes "3 \<le> room" "files fs p = Some body" "can_read fs p"
  shows "\<exists>mac. \<forall>m. read_mac_from_file room p m fs = Some mac"
proof -
  have "0 + length (scan_mac 6 body) + 3 \<le> length (replicate (MAC_LEN + room) (0 :: u8))"
    using length_scan_mac [of 6 body] assms(1) by (simp add: MAC_LEN_def)
  then show ?thesis using store_words_defined [of 0 "scan_mac 6 body"] assms(2,3) by (fastforce simp: read_mac_from_file_def)
qed

lemma read_mac_nonempty: "read_mac_from_file room p m fs = Some mac \<Longrightarrow> files fs p = Some [] \<Longrightarrow> can_read fs p \<Longrightarrow> is_zero_ether_addr mac"
  by (auto simp: read_mac_from_file_def scan_hex2_def is_zero_ether_addr_def MAC_LEN_def numeral_eq_Suc)

text \<open>What is in the configuration file afterwards.\<close>

definition address_of :: "nat \<Rightarrow> string \<Rightarrow> mac_files \<Rightarrow> u8 list option" where
  "address_of room p fs =
     (if files fs p = None then None
      else case read_mac_from_file room p [] fs of
        None \<Rightarrow> None
      | Some mac \<Rightarrow> if is_zero_ether_addr mac then None else Some mac)"

lemma generate_mac_cases:
  assumes "3 \<le> room" "can_read fs config" "can_read fs factory"
  shows "generate_mac config factory fix room rand old fs =
    Some (if address_of room factory fs \<noteq> None then put_file config (cstr (first_line (the (files fs factory)))) fs
          else if address_of room config fs \<noteq> None then fs
          else put_file config (print_mac (fix (get_random_mac rand))) fs)"
proof -
  have f: "address_of room factory fs \<noteq> None \<Longrightarrow> force_replace_file config factory fs =
      Some (put_file config (cstr (first_line (the (files fs factory)))) fs)"
    using assms(3) read_mac_nonempty [of room factory "[]" fs]
    by (auto simp: address_of_def force_replace_file_def split: option.splits if_splits)
  have d: "files fs p \<noteq> None \<Longrightarrow> can_read fs p \<Longrightarrow>
      \<exists>mac. read_mac_from_file room p m fs = Some mac \<and> (address_of room p fs \<noteq> None \<longleftrightarrow> \<not> is_zero_ether_addr mac)" for p m
    using read_mac_defined [OF assms(1), of fs p] by (force simp: address_of_def)
  have n: "files fs p = None \<Longrightarrow> address_of room p fs = None" for p by (simp add: address_of_def)
  have c: "do { mac \<leftarrow> (if files fs config \<noteq> None then read_mac_from_file room config m fs else Some m);
      (if files fs config \<noteq> None \<and> \<not> is_zero_ether_addr mac then Some fs
       else Some (write_mac_to_file config (fix (get_random_mac rand)) fs)) } =
      Some (if address_of room config fs \<noteq> None then fs else put_file config (print_mac (fix (get_random_mac rand))) fs)" for m
    using d [of config m] n [of config] assms(2) by (cases "files fs config = None") (auto simp: write_mac_to_file_def)
  show ?thesis
  proof (cases "files fs factory = None")
    case True
    then show ?thesis using c [of old] n [of factory] unfolding generate_mac_def by simp
  next
    case False
    obtain mac where "read_mac_from_file room factory old fs = Some mac" "address_of room factory fs \<noteq> None \<longleftrightarrow> \<not> is_zero_ether_addr mac"
      using d [OF False assms(3)] by blast
    then show ?thesis using False f c [of mac] unfolding generate_mac_def by auto
  qed
qed

text \<open>What a start leaves in the configuration file, and that the next start does not change it.\<close>

definition mac_choice :: "string \<Rightarrow> string \<Rightarrow> (u8 list \<Rightarrow> u8 list) \<Rightarrow> nat \<Rightarrow> (nat \<Rightarrow> u32) \<Rightarrow> mac_files \<Rightarrow> string option" where
  "mac_choice config factory fix room rand fs =
     (if address_of room factory fs \<noteq> None then map_option (\<lambda>body. cstr (first_line body)) (files fs factory)
      else if address_of room config fs \<noteq> None then files fs config
      else Some (print_mac (fix (get_random_mac rand))))"

lemma address_of_cong:
  "files fs p = files fs' p \<Longrightarrow> can_read fs p = can_read fs' p \<Longrightarrow> address_of room p fs = address_of room p fs'"
  using read_mac_cong [of fs p fs' room "[]"] by (simp add: address_of_def)

lemma address_of_printed:
  assumes "3 \<le> room" "length mac = MAC_LEN" "\<not> is_zero_ether_addr mac" "can_write fs p"
  shows "address_of room p (put_file p (print_mac mac) fs) = Some mac"
  using read_printed [OF assms(1,2), of "put_file p (print_mac mac) fs" p "[]"] put_file_get [OF assms(4)] assms(3)
  by (simp add: address_of_def)

lemma generate_mac_stable:
  assumes "3 \<le> room" "can_read fs config" "can_read fs factory" "can_write fs config" "config \<noteq> factory"
    "length (fix (get_random_mac rand)) = MAC_LEN" "\<not> is_zero_ether_addr (fix (get_random_mac rand))"
  shows "\<exists>fs1. generate_mac config factory fix room rand old fs = Some fs1 \<and>
    files fs1 config = mac_choice config factory fix room rand fs \<and> generate_mac config factory fix room rand' old' fs1 = Some fs1"
proof -
  define fs1 where "fs1 = the (generate_mac config factory fix room rand old fs)"
  have g: "generate_mac config factory fix room rand old fs = Some fs1"
    unfolding fs1_def generate_mac_cases [OF assms(1-3)] by simp
  note g1 = g [unfolded generate_mac_cases [OF assms(1-3)] option.inject, symmetric]
  have r: "can_read fs1 config" "can_read fs1 factory" using assms(2-5) by (auto simp: g1 put_file_def)
  have f: "address_of room factory fs1 = address_of room factory fs" "files fs1 factory = files fs factory"
    using put_file_other [OF assms(5)] address_of_cong [of fs1 factory fs] by (auto simp: g1)
  have "generate_mac config factory fix room rand' old' fs1 = Some fs1"
  proof (cases "address_of room factory fs = None")
    case False
    then show ?thesis
      using put_file_same [OF assms(4)] unfolding generate_mac_cases [OF assms(1) r] f by (simp add: g1)
  next
    case True
    have "address_of room config fs1 \<noteq> None"
      using True address_of_printed [OF assms(1,6,7,4)] by (auto simp: g1)
    then show ?thesis using True unfolding generate_mac_cases [OF assms(1) r] f by simp
  qed
  moreover have "files fs1 config = mac_choice config factory fix room rand fs"
    using put_file_get [OF assms(4)] by (auto simp: g1 mac_choice_def address_of_def)
  ultimately show ?thesis using g by blast
qed

text \<open>C31: With files that can be opened, a start of the daemon leaves an address in the configuration file of WiFi, chosen in
  the order factory file, configuration file, random address; a random address is printed so that it is read back, is for a
  single station and locally administered. The next start keeps the file, whatever \<open>rand\<close> returns then. \<open>fscanf\<close> stores
  four bytes for each byte of the address: the three bytes behind the array must not matter.\<close>

theorem wifi_mac_stable:
  assumes "3 \<le> room" "can_read fs WCND_WIFI_CONFIG_FILE_PATH" "can_read fs WCND_WIFI_FACTORY_CONFIG_FILE_PATH"
    "can_write fs WCND_WIFI_CONFIG_FILE_PATH"
  shows "\<exists>fs1. generate_wifi_mac room rand old fs = Some fs1 \<and> generate_wifi_mac room rand' old' fs1 = Some fs1 \<and>
    files fs1 WCND_WIFI_CONFIG_FILE_PATH =
      mac_choice WCND_WIFI_CONFIG_FILE_PATH WCND_WIFI_FACTORY_CONFIG_FILE_PATH id room rand fs \<and>
    read_mac_from_file room WCND_WIFI_CONFIG_FILE_PATH old (write_mac_to_file WCND_WIFI_CONFIG_FILE_PATH (get_random_mac rand) fs) =
      Some (get_random_mac rand) \<and>
    \<not> bit (get_random_mac rand ! 0) 0 \<and> bit (get_random_mac rand ! 0) 1"
proof -
  have p: "WCND_WIFI_CONFIG_FILE_PATH \<noteq> WCND_WIFI_FACTORY_CONFIG_FILE_PATH"
    by (simp add: WCND_WIFI_CONFIG_FILE_PATH_def WCND_WIFI_FACTORY_CONFIG_FILE_PATH_def)
  have "read_mac_from_file room WCND_WIFI_CONFIG_FILE_PATH old (write_mac_to_file WCND_WIFI_CONFIG_FILE_PATH (get_random_mac rand) fs) =
      Some (get_random_mac rand)"
    using read_printed [OF assms(1) random_mac_facts(1)] put_file_get [OF assms(4)] by (simp add: write_mac_to_file_def)
  then show ?thesis
    using generate_mac_stable [OF assms p, of id rand old rand' old'] random_mac_facts [of rand] random_mac_nonzero [of rand]
    by (auto simp: generate_wifi_mac_def)
qed

text \<open>A first start without any file.\<close>

definition demo_mac_files :: mac_files where
  "demo_mac_files = \<lparr>files = (\<lambda>p. None), can_read = (\<lambda>p. True), can_write = (\<lambda>p. True)\<rparr>"

theorem wifi_mac_stable_witness:
  "\<exists>fs1. generate_wifi_mac 3 (\<lambda>i. 17) [] demo_mac_files = Some fs1 \<and> generate_wifi_mac 3 (\<lambda>i. 99) [1, 2, 3, 4, 5, 6] fs1 = Some fs1 \<and>
     files fs1 WCND_WIFI_CONFIG_FILE_PATH = Some ''12:11:11:11:11:11''"
proof -
  have c: "mac_choice WCND_WIFI_CONFIG_FILE_PATH WCND_WIFI_FACTORY_CONFIG_FILE_PATH id 3 (\<lambda>i. 17) demo_mac_files = Some ''12:11:11:11:11:11''"
    by (simp add: mac_choice_def address_of_def demo_mac_files_def get_random_mac_def MAC_LEN_def upt_conv_Cons print_hex2_def hex_char_def char_of_def bit_Suc_0_iff)
  show ?thesis
    using wifi_mac_stable [where room = 3 and fs = demo_mac_files and rand = "\<lambda>i. 17" and old = "[]" and rand' = "\<lambda>i. 99"
        and old' = "[1, 2, 3, 4, 5, 6]"] unfolding c
    by (auto simp: demo_mac_files_def)
qed

text \<open>The address for Bluetooth starts with 0 and is not stable if the other bytes are 0 as well.\<close>

lemma bt_mac_stable:
  assumes "3 \<le> room" "can_read fs WCND_BT_CONFIG_FILE_PATH" "can_read fs WCND_BT_FACTORY_CONFIG_FILE_PATH"
    "can_write fs WCND_BT_CONFIG_FILE_PATH" "\<not> is_zero_ether_addr ((get_random_mac rand)[0 := 0])"
  shows "\<exists>fs1. generate_bt_mac room rand old fs = Some fs1 \<and> generate_bt_mac room rand' old' fs1 = Some fs1 \<and>
    files fs1 WCND_BT_CONFIG_FILE_PATH =
      mac_choice WCND_BT_CONFIG_FILE_PATH WCND_BT_FACTORY_CONFIG_FILE_PATH (\<lambda>mac. mac[0 := 0]) room rand fs"
proof -
  have p: "WCND_BT_CONFIG_FILE_PATH \<noteq> WCND_BT_FACTORY_CONFIG_FILE_PATH"
    by (simp add: WCND_BT_CONFIG_FILE_PATH_def WCND_BT_FACTORY_CONFIG_FILE_PATH_def)
  show ?thesis
    using generate_mac_stable [OF assms(1-4) p, of "\<lambda>mac. mac[0 := 0]" rand old rand' old'] random_mac_facts(1) [of rand] assms(5)
    by (auto simp: generate_bt_mac_def)
qed

lemma store_words_overrun: "vs \<noteq> [] \<Longrightarrow> length mem < i + length vs + 3 \<Longrightarrow> store_words i vs mem = None"
proof (induction vs arbitrary: i mem)
  case (Cons v vs)
  show ?case
  proof (cases "buf_write i (to_le32 v) mem")
    case (Some m1)
    then have "vs \<noteq> []" using Cons.prems by (auto simp: buf_write_def split: if_splits)
    then show ?thesis using Cons.IH [of m1 "i + 1"] Some buf_write_length [OF Some] Cons.prems by simp
  qed simp
qed simp

text \<open>With less room behind the array, reading a complete address is undefined.\<close>

lemma read_mac_overruns:
  assumes "room < 3" "files fs p = Some (print_mac mac)" "can_read fs p" "length mac = MAC_LEN"
  shows "read_mac_from_file room p m fs = None"
proof -
  have ne: "mac \<noteq> []" using assms(4) by (auto simp: MAC_LEN_def)
  have e: "scan_mac 6 (print_mac mac) = map ucast mac"
    using scan_print_mac [OF ne] unfolding assms(4) MAC_LEN_def .
  have "store_words 0 (map ucast mac) (replicate (MAC_LEN + room) 0) = None"
    using assms(1,4) ne by (intro store_words_overrun) simp_all
  then show ?thesis unfolding read_mac_from_file_def assms(2) option.case e using assms(3) by simp
qed

end
