(* ===== verification/Eng_Codec.thy ===== *)
theory Eng_Codec
  imports Mc_Packet
begin

text \<open>
  The byte codecs of the engineering mode (apps/engmode): \<open>eng_diag_decode7d7e\<close> and \<open>eng_diag_encode7d7e\<close>
  of eng_diag.c, which take the escapes of a frame out and put them in, both in place, and the hexadecimal text of
  \<open>ascii2bin\<close> and \<open>bin2ascii\<close>. \<open>translate_packet\<close> of adc_calibration.c is the function of the modem daemon
  (theory Mc_Packet). Encoding is shown to be the escaping of \<open>translate_packet\<close> and decoding its inverse.
\<close>

unbundle bit_operations_syntax

section \<open>Escapes in place\<close>

text \<open>\<open>eng_diag_decode7d7e\<close>: \<open>b\<close> is the memory from \<open>buf\<close> on. Both flag values are taken for an escape. The copy
  moves \<open>len - j\<close> bytes from \<open>j + 1\<close> on, so it reads the byte behind the last one; its areas overlap, and it is
  taken to copy upwards.\<close>

definition is_flag :: "u8 \<Rightarrow> bool" where
  "is_flag c \<longleftrightarrow> c = 0x7D \<or> c = 0x7E"

definition drop_byte :: "nat \<Rightarrow> nat \<Rightarrow> bytes \<Rightarrow> bytes option" where
  "drop_byte j len b =
     (if len < length b then Some (take j b @ take (len - j) (drop (j + 1) b) @ drop len b) else None)"

function decode_loop :: "nat \<Rightarrow> nat \<Rightarrow> bytes \<Rightarrow> bytes option" where
  "decode_loop i len b =
     (if i < len then
        if \<not> i < length b then None
        else if is_flag (b ! i) then
          if \<not> i + 1 < length b then None
          else do { b' \<leftarrow> drop_byte (i + 1) len (b[i := b ! (i + 1) XOR 0x20]); decode_loop (i + 1) (len - 1) b' }
        else decode_loop (i + 1) len b
      else Some b)"
  by auto
termination
  by (relation "measure (\<lambda>(i, len, b). len - i)") auto

declare decode_loop.simps [simp del]

definition eng_diag_decode7d7e :: "bytes \<Rightarrow> nat \<Rightarrow> bytes option" where
  "eng_diag_decode7d7e b len = decode_loop 0 len b"

text \<open>\<open>eng_diag_encode7d7e\<close>, with the new length; the extra length is the difference. The byte behind an escape is looked at
  again and is not a flag.\<close>

fun weight :: "bytes \<Rightarrow> nat" where
  "weight [] = 0"
| "weight (c # s) = (if is_flag c then 2 else 1) + weight s"

lemma flag_xor: "is_flag c \<Longrightarrow> \<not> is_flag (c XOR 0x20)"
  by (auto simp: is_flag_def)

definition insert_escape :: "nat \<Rightarrow> nat \<Rightarrow> bytes \<Rightarrow> bytes" where
  "insert_escape i len b = take i b @ [0x7D, b ! i XOR 0x20] @ take (len - (i + 1)) (drop (i + 1) b) @ drop (len + 1) b"

lemma insert_escape_weight:
  assumes "i < len" "len < length b" "is_flag (b ! i)"
  shows "weight (take (len - i) (drop (i + 1) (insert_escape i len b))) < weight (take (len - i) (drop i b))"
proof -
  have e: "take (len - i) (drop i b) = b ! i # take (len - (i + 1)) (drop (i + 1) b)"
    using assms(1,2) by (simp add: Cons_nth_drop_Suc [symmetric] take_Cons' del: drop_Suc_Cons)
  have "drop (i + 1) (insert_escape i len b) = (b ! i XOR 0x20) # take (len - (i + 1)) (drop (i + 1) b) @ drop (len + 1) b"
    using assms(1,2) by (simp add: insert_escape_def)
  then have "take (len - i) (drop (i + 1) (insert_escape i len b)) = (b ! i XOR 0x20) # take (len - (i + 1)) (drop (i + 1) b)"
    using assms(1,2) by (simp add: take_Cons')
  then show ?thesis using e assms(3) flag_xor [OF assms(3)] by simp
qed

lemma weight_step:
  assumes "i < len" "i < length b"
  shows "weight (take (len - Suc i) (drop (Suc i) b)) < weight (take (len - i) (drop i b))"
proof -
  have "take (len - i) (drop i b) = b ! i # take (len - Suc i) (drop (Suc i) b)"
    using assms by (simp add: Cons_nth_drop_Suc [symmetric] take_Cons' del: drop_Suc_Cons)
  then show ?thesis by simp
qed

function encode_loop :: "nat \<Rightarrow> nat \<Rightarrow> bytes \<Rightarrow> (bytes \<times> nat) option" where
  "encode_loop i len b =
     (if i < len then
        if \<not> i < length b then None
        else if is_flag (b ! i) then
          if \<not> len < length b then None else encode_loop (i + 1) (len + 1) (insert_escape i len b)
        else encode_loop (i + 1) len b
      else Some (b, len))"
  by auto
termination
  by (relation "measure (\<lambda>(i, len, b). weight (take (len - i) (drop i b)))") (use insert_escape_weight weight_step in auto)

declare encode_loop.simps [simp del]

definition eng_diag_encode7d7e :: "bytes \<Rightarrow> nat \<Rightarrow> (bytes \<times> nat) option" where
  "eng_diag_encode7d7e b len = encode_loop 0 len b"

section \<open>Decoding\<close>

definition flags :: "bytes \<Rightarrow> nat" where
  "flags p = length (filter is_flag p)"

lemma translate_body_flag: "is_flag c \<Longrightarrow> translate_body (c # p) = 0x7D # (c XOR 0x20) # translate_body p"
  by (auto simp: is_flag_def)

lemma translate_body_plain: "\<not> is_flag c \<Longrightarrow> translate_body (c # p) = c # translate_body p"
  by (auto simp: is_flag_def)

lemma decode_loop_escape:
  assumes "is_flag c" "len = length x + 2 + length r" "v \<noteq> []"
  shows "decode_loop (length x) len (x @ c # d # r @ v) = decode_loop (length x + 1) (len - 1) (x @ (d XOR 0x20) # r @ hd v # v)"
proof -
  obtain a w where v: "v = a # w" using assms(3) by (cases v) auto
  have "drop_byte (length x + 1) len (x @ (d XOR 0x20) # d # r @ v) = Some (x @ (d XOR 0x20) # r @ hd v # v)"
    using assms(2) by (simp add: drop_byte_def v)
  then show ?thesis using assms by (subst decode_loop.simps) (simp add: nth_append list_update_append)
qed

lemma decode_loop_body:
  assumes "v \<noteq> []"
  shows "decode_loop (length x) (length x + length (translate_body y) + length u) (x @ translate_body y @ u @ v) =
    decode_loop (length x + length y) (length x + length y + length u) (x @ y @ u @ replicate (flags y) (hd v) @ v)"
  using assms
proof (induction y arbitrary: x v)
  case Nil
  then show ?case by (simp add: flags_def)
next
  case (Cons c y)
  show ?case
  proof (cases "is_flag c")
    case True
    have "decode_loop (length x) (length x + 2 + length (translate_body y @ u)) (x @ 0x7D # (c XOR 0x20) # (translate_body y @ u) @ v) =
        decode_loop (length x + 1) (length x + 2 + length (translate_body y @ u) - 1) (x @ ((c XOR 0x20) XOR 0x20) # (translate_body y @ u) @ hd v # v)"
      by (rule decode_loop_escape) (simp_all add: is_flag_def Cons.prems)
    also have "\<dots> = decode_loop (length (x @ [c])) (length (x @ [c]) + length (translate_body y) + length u)
        ((x @ [c]) @ translate_body y @ u @ (hd v # v))"
      by (simp add: xor_twice add.assoc)
    also have "\<dots> = decode_loop (length (x @ [c]) + length y) (length (x @ [c]) + length y + length u)
        ((x @ [c]) @ y @ u @ replicate (flags y) (hd v) @ hd v # v)"
      using Cons.IH [of "hd v # v" "x @ [c]"] by simp
    finally show ?thesis
      using True by (simp add: translate_body_flag flags_def replicate_app_Cons_same add.assoc del: translate_body.simps)
  next
    case False
    have "decode_loop (length x) (length x + length (translate_body (c # y)) + length u) (x @ translate_body (c # y) @ u @ v) =
        decode_loop (length (x @ [c])) (length (x @ [c]) + length (translate_body y) + length u) ((x @ [c]) @ translate_body y @ u @ v)"
      using False by (subst decode_loop.simps) (simp add: translate_body_plain nth_append del: translate_body.simps)
    also have "\<dots> = decode_loop (length (x @ [c]) + length y) (length (x @ [c]) + length y + length u)
        ((x @ [c]) @ y @ u @ replicate (flags y) (hd v) @ v)"
      using Cons.IH [OF Cons.prems, of "x @ [c]"] by simp
    finally show ?thesis using False by (simp add: flags_def)
  qed
qed

text \<open>The closing flag of a frame is taken for an escape as well: it is replaced by the byte behind the frame.\<close>

lemma decode_frame:
  "eng_diag_decode7d7e (translate_body p @ 0x7E # a # v) (length (translate_body p) + 1) =
   Some (p @ (a XOR 0x20) # replicate (flags p) a @ a # v)"
proof -
  let ?t = "replicate (flags p) a @ a # v"
  have t: "?t = a # tl ?t" by (cases "flags p") auto
  have "decode_loop (length p) (length p + 1) (p @ 0x7E # ?t) = decode_loop (length p + 1) (length p) (p @ (a XOR 0x20) # ?t)"
    by (subst t, subst decode_loop.simps) (simp add: is_flag_def nth_append list_update_append drop_byte_def t [symmetric])
  also have "\<dots> = Some (p @ (a XOR 0x20) # ?t)" by (simp add: decode_loop.simps)
  finally show ?thesis
    using decode_loop_body [of "a # v" "[]" p "[0x7E]"] by (simp add: eng_diag_decode7d7e_def)
qed

lemma decode_body:
  "v \<noteq> [] \<Longrightarrow> eng_diag_decode7d7e (translate_body p @ v) (length (translate_body p)) = Some (p @ replicate (flags p) (hd v) @ v)"
  using decode_loop_body [of v "[]" p "[]"] decode_loop.simps [of "length p" "length p"] by (simp add: eng_diag_decode7d7e_def)

section \<open>Encoding\<close>

lemma encode_loop_body:
  assumes "flags y \<le> length v"
  shows "encode_loop (length x) (length x + length y) (x @ y @ v) =
    Some (x @ translate_body y @ drop (flags y) v, length x + length (translate_body y))"
  using assms
proof (induction y arbitrary: x v)
  case Nil
  then show ?case by (subst encode_loop.simps) (simp add: flags_def)
next
  case (Cons c y)
  show ?case
  proof (cases "is_flag c")
    case True
    then obtain a w where v: "v = a # w" "flags y \<le> length w" using Cons.prems by (cases v) (auto simp: flags_def)
    have ins: "insert_escape (length x) (length x + length (c # y)) (x @ (c # y) @ v) = x @ 0x7D # (c XOR 0x20) # y @ w"
      by (simp add: insert_escape_def v)
    have "encode_loop (length x) (length x + length (c # y)) (x @ (c # y) @ v) =
        encode_loop (length x + 1) (length x + length (c # y) + 1) (x @ 0x7D # (c XOR 0x20) # y @ w)"
      using True ins by (subst encode_loop.simps) (simp add: v)
    also have "\<dots> = encode_loop (length (x @ [0x7D, c XOR 0x20])) (length (x @ [0x7D, c XOR 0x20]) + length y) ((x @ [0x7D, c XOR 0x20]) @ y @ w)"
      using flag_xor [OF True] by (subst encode_loop.simps) (simp add: nth_append)
    also have "\<dots> = Some ((x @ [0x7D, c XOR 0x20]) @ translate_body y @ drop (flags y) w, length (x @ [0x7D, c XOR 0x20]) + length (translate_body y))"
      using Cons.IH [OF v(2), of "x @ [0x7D, c XOR 0x20]"] .
    finally show ?thesis using True v by (simp add: translate_body_flag flags_def del: translate_body.simps)
  next
    case False
    have "encode_loop (length x) (length x + length (c # y)) (x @ (c # y) @ v) =
        encode_loop (length (x @ [c])) (length (x @ [c]) + length y) ((x @ [c]) @ y @ v)"
      using False by (subst encode_loop.simps) (simp add: nth_append)
    also have "\<dots> = Some ((x @ [c]) @ translate_body y @ drop (flags y) v, length (x @ [c]) + length (translate_body y))"
      using Cons.IH [of v "x @ [c]"] Cons.prems False by (simp add: flags_def)
    finally show ?thesis using False by (simp add: translate_body_plain flags_def del: translate_body.simps)
  qed
qed

lemma encode_body:
  "flags p \<le> length v \<Longrightarrow>
   eng_diag_encode7d7e (p @ v) (length p) = Some (translate_body p @ drop (flags p) v, length (translate_body p))"
  using encode_loop_body [of p v "[]"] by (simp add: eng_diag_encode7d7e_def)

section \<open>Hexadecimal text\<close>

text \<open>\<open>ascii2bin\<close> for an even \<open>size\<close>; with an odd one the last pair is read one character past \<open>size\<close>. A character that is not a
  decimal digit is taken for a capital letter.\<close>

definition hex_nibble :: "u8 \<Rightarrow> u8" where
  "hex_nibble c = (if 0x30 \<le> c \<and> c \<le> 0x39 then c - 0x30 else c - 0x41 + 10)"

fun ascii2bin_loop :: "nat \<Rightarrow> bytes \<Rightarrow> bytes option" where
  "ascii2bin_loop 0 src = Some []"
| "ascii2bin_loop (Suc n) (h # l # src) =
     map_option ((#) (push_bit 4 (hex_nibble h) OR hex_nibble l)) (ascii2bin_loop n src)"
| "ascii2bin_loop (Suc n) _ = None"

definition ascii2bin :: "bytes \<Rightarrow> nat \<Rightarrow> bytes option" where
  "ascii2bin src n = ascii2bin_loop ((n + 1) div 2) src"

definition nibble_char :: "u8 \<Rightarrow> u8" where
  "nibble_char n = (if n \<le> 9 then n + 0x30 else n + 0x41 - 10)"

definition byte_chars :: "u8 \<Rightarrow> bytes" where
  "byte_chars b = [nibble_char (drop_bit 4 (b AND 0xF0)), nibble_char (b AND 0x0F)]"

definition bin2ascii :: "bytes \<Rightarrow> nat \<Rightarrow> bytes option" where
  "bin2ascii src n =
     (if n \<le> length src
      then Some (concat (map byte_chars (take n src)))
      else None)"

lemma nibble_text:
  assumes "unat n < 16"
  shows "hex_nibble (nibble_char n) = n"
proof -
  have "list_all (\<lambda>k. hex_nibble (nibble_char (word_of_nat k)) = word_of_nat k) [0..<16]"
    by (simp add: upt_conv_Cons hex_nibble_def nibble_char_def)
  moreover have "unat n \<in> set [0..<16]" using assms by simp
  ultimately have "hex_nibble (nibble_char (word_of_nat (unat n))) = word_of_nat (unat n)" unfolding list_all_iff by (rule bspec)
  then show ?thesis by simp
qed

lemma byte_text: "push_bit 4 (hex_nibble (nibble_char (drop_bit 4 (b AND 0xF0)))) OR hex_nibble (nibble_char (b AND 0x0F)) = (b :: u8)"
proof -
  have hi: "drop_bit 4 (b AND 0xF0) = drop_bit 4 b"
  proof (rule bit_word_eqI)
    fix n assume "n < LENGTH(8)"
    then show "bit (drop_bit 4 (b AND 0xF0)) n = bit (drop_bit 4 b) n"
      using bit_imp_le_length [of b "4 + n"] by (cases "n < 4") (auto simp: bit_simps numeral_eq_Suc less_Suc_eq)
  qed
  have lo: "b AND 0x0F = take_bit 4 b" by (simp add: take_bit_eq_mask mask_eq_exp_minus_1)
  have "unat (drop_bit 4 b) < 16"
    using unsigned_less [of b, where 'a = nat] by (simp add: unat_drop_bit_eq drop_bit_nat_def less_mult_imp_div_less)
  moreover have "unat (take_bit 4 b) < 16" using take_bit_nat_less_exp [of 4 "unat b"] by (simp add: unsigned_take_bit_eq)
  moreover have "push_bit 4 (drop_bit 4 b) OR take_bit 4 b = b" by (rule bit_word_eqI) (auto simp: bit_simps)
  ultimately show ?thesis unfolding hi lo using nibble_text by simp
qed

lemma byte_chars_read:
  "ascii2bin_loop (Suc n) (byte_chars b @ r) = map_option ((#) b) (ascii2bin_loop n r)"
  unfolding byte_chars_def by (simp only: append.simps ascii2bin_loop.simps byte_text)

lemma ascii2bin_loop_text:
  "ascii2bin_loop (length bs) (concat (map byte_chars bs) @ r) = Some bs"
  by (induction bs) (simp_all add: byte_chars_read)

lemma ascii2bin_bin2ascii:
  assumes "bin2ascii bs (length bs) = Some s"
  shows "ascii2bin (s @ r) (length s) = Some bs"
proof -
  have s: "s = concat (map byte_chars bs)"
    using assms by (simp add: bin2ascii_def)
  have "length s = 2 * length bs" unfolding s by (induction bs) (auto simp: byte_chars_def)
  then have "(length s + 1) div 2 = length bs" by simp
  then show ?thesis unfolding ascii2bin_def using ascii2bin_loop_text [of bs r] s by simp
qed

section \<open>Properties\<close>

text \<open>C26: putting the escapes into a message in place, with room behind it, leaves the escaped message with no flag byte in
  it, and taking them out again gives the message.\<close>

theorem escapes_round_trip:
  assumes "flags p < length v"
  shows "\<exists>b n. eng_diag_encode7d7e (p @ v) (length p) = Some (b, n) \<and> take n b = translate_body p \<and> 0x7E \<notin> set (take n b) \<and>
    map_option (take (length p)) (eng_diag_decode7d7e b n) = Some p"
proof -
  have "drop (flags p) v \<noteq> []" using assms by simp
  then show ?thesis
    using encode_body [of p v] decode_body [of "drop (flags p) v" p] assms by (simp add: translate_body_no_flag)
qed

theorem escapes_round_trip_witness:
  "\<exists>b n. eng_diag_encode7d7e ([0x7D, 1, 0x7E] @ [0, 0, 0]) 3 = Some (b, n) \<and> take n b = [0x7D, 0x5D, 1, 0x7D, 0x5E] \<and>
     map_option (take 3) (eng_diag_decode7d7e b n) = Some [0x7D, 1, 0x7E]"
proof -
  have "flags [0x7D, 1, 0x7E] < length [0, 0, 0 :: u8]" by (simp add: flags_def is_flag_def)
  from escapes_round_trip [OF this] show ?thesis by (auto simp: numeral_3_eq_3)
qed

end
