(* ===== verification/Eng_Attok.thy ===== *)
theory Eng_Attok
  imports C_Text
begin

text \<open>
  The tokenizer of the AT command lines in apps/engmode: eng_attok.c and \<open>at_tok_equel_start\<close> of eng_diag.c. A line
  of fields, quoted or plain, and the decimal text of a number are read back as they were written.
\<close>

section \<open>Positions in a string\<close>

text \<open>A position is what follows it in the string, \<open>None\<close> is the null pointer. \<open>strsep\<close> with one separator
  cuts the string there.\<close>

type_synonym cur = "string option"

definition at_tok_from :: "char \<Rightarrow> cur \<Rightarrow> int \<times> cur" where
  "at_tok_from sep p_cur =
     (case p_cur of
        None \<Rightarrow> (-1, None)
      | Some s \<Rightarrow> (case dropWhile (\<lambda>c. c \<noteq> sep) s of [] \<Rightarrow> (-1, None) | _ # r \<Rightarrow> (0, Some r)))"

definition at_tok_start :: "cur \<Rightarrow> int \<times> cur" where
  "at_tok_start p_cur = at_tok_from (CHR '':'') p_cur"

definition at_tok_equel_start :: "cur \<Rightarrow> int \<times> cur" where
  "at_tok_equel_start p_cur = at_tok_from (CHR ''='') p_cur"

definition skipWhiteSpace :: "string \<Rightarrow> string" where
  "skipWhiteSpace s = dropWhile isspace s"

definition skipNextComma :: "string \<Rightarrow> string" where
  "skipNextComma s = tl (dropWhile (\<lambda>c. c \<noteq> CHR '','') s)"

definition strsep :: "char \<Rightarrow> string \<Rightarrow> string \<times> cur" where
  "strsep sep s =
     (takeWhile (\<lambda>c. c \<noteq> sep) s, case dropWhile (\<lambda>c. c \<noteq> sep) s of [] \<Rightarrow> None | _ # r \<Rightarrow> Some r)"

definition nextTok :: "cur \<Rightarrow> cur \<times> cur" where
  "nextTok p_cur =
     (case p_cur of
        None \<Rightarrow> (None, None)
      | Some s \<Rightarrow>
          (let r = skipWhiteSpace s
           in if r \<noteq> [] \<and> hd r = CHR 0x22
              then (case strsep (CHR 0x22) (tl r) of (t, p) \<Rightarrow> (Some t, map_option skipNextComma p))
              else (case strsep (CHR '','') r of (t, p) \<Rightarrow> (Some t, p))))"

text \<open>\<open>strsep\<close> writes the end of the token into the string: the text \<open>t\<close> after \<open>nextTok\<close> at a position in it.\<close>

definition tok_rest :: "string \<Rightarrow> cur" where
  "tok_rest s =
     (let r = skipWhiteSpace s
      in if r \<noteq> [] \<and> hd r = CHR 0x22 then snd (strsep (CHR 0x22) (tl r)) else snd (strsep (CHR '','') r))"

definition cut_tok :: "string \<Rightarrow> cur \<Rightarrow> string" where
  "cut_tok t p_cur =
     (case p_cur of
        None \<Rightarrow> t
      | Some s \<Rightarrow> (case tok_rest s of None \<Rightarrow> t | Some r \<Rightarrow> t[length t - length r - 1 := CHR 0x00]))"

text \<open>\<open>strtol\<close> and \<open>strtoul\<close> with the end pointer: no digits, no conversion. The result is cut to 32 bits.\<close>

definition digits_start :: "bool \<Rightarrow> string \<Rightarrow> bool" where
  "digits_start hex t \<longleftrightarrow> t \<noteq> [] \<and> (if hex then hex_digit (hd t) \<noteq> None else isdigit (hd t))"

definition conv_int :: "bool \<Rightarrow> string \<Rightarrow> int option" where
  "conv_int hex s =
     (let (neg, t) = signed_part s
      in if \<not> digits_start hex t then None
         else if hex then
           (let v = int (hex_value 0 (skip_0x t))
            in Some (sint (word_of_int (if 2 ^ 32 \<le> v then 2 ^ 32 - 1 else if neg then - v else v) :: 32 word)))
         else (let v = int (dec_value 0 t) in Some (clamp_long (if neg then - v else v))))"

text \<open>The result is the return value, what is stored (0 where there are no digits) and the position.\<close>

definition at_tok_nextint_base :: "bool \<Rightarrow> cur \<Rightarrow> int \<times> int option \<times> cur" where
  "at_tok_nextint_base hex p_cur =
     (case p_cur of
        None \<Rightarrow> (-1, None, None)
      | Some _ \<Rightarrow>
          (case nextTok p_cur of
             (None, p) \<Rightarrow> (-1, None, p)
           | (Some t, p) \<Rightarrow> (case conv_int hex t of None \<Rightarrow> (-1, Some 0, p) | Some v \<Rightarrow> (0, Some v, p))))"

definition at_tok_nextint :: "cur \<Rightarrow> int \<times> int option \<times> cur" where
  "at_tok_nextint p_cur = at_tok_nextint_base False p_cur"

definition at_tok_nexthexint :: "cur \<Rightarrow> int \<times> int option \<times> cur" where
  "at_tok_nexthexint p_cur = at_tok_nextint_base True p_cur"

definition at_tok_nextbool :: "cur \<Rightarrow> int \<times> int option \<times> cur" where
  "at_tok_nextbool p_cur =
     (case at_tok_nextint p_cur of
        (ret, v, p) \<Rightarrow> if ret < 0 then (-1, None, p)
                       else if v = Some 0 \<or> v = Some 1 then (ret, v, p) else (-1, None, p))"

definition at_tok_nextstr :: "cur \<Rightarrow> int \<times> cur \<times> cur" where
  "at_tok_nextstr p_cur = (case p_cur of None \<Rightarrow> (-1, None, None) | Some _ \<Rightarrow> (case nextTok p_cur of (t, p) \<Rightarrow> (0, t, p)))"

definition at_tok_hasmore :: "cur \<Rightarrow> bool" where
  "at_tok_hasmore p_cur \<longleftrightarrow> (case p_cur of None \<Rightarrow> False | Some s \<Rightarrow> s \<noteq> [])"

section \<open>Fields of a line\<close>

text \<open>A field as it stands in a line: quoted, or plain up to the comma.\<close>

datatype field = Quoted string | Plain string

fun field_text :: "field \<Rightarrow> string" where
  "field_text (Quoted s) = CHR 0x22 # s @ [CHR 0x22]"
| "field_text (Plain s) = s"

fun field_value :: "field \<Rightarrow> string" where
  "field_value (Quoted s) = s"
| "field_value (Plain s) = s"

fun field_ok :: "field \<Rightarrow> bool" where
  "field_ok (Quoted s) \<longleftrightarrow> CHR 0x22 \<notin> set s"
| "field_ok (Plain s) \<longleftrightarrow> CHR '','' \<notin> set s \<and> (s = [] \<or> \<not> isspace (hd s) \<and> hd s \<noteq> CHR 0x22)"

fun line :: "field list \<Rightarrow> string" where
  "line [] = []"
| "line [f] = field_text f"
| "line (f # fs) = field_text f @ CHR '','' # line fs"

text \<open>What is left at the end: nothing after a plain field, the empty string after a quoted one.\<close>

fun line_end :: "field list \<Rightarrow> cur" where
  "line_end [] = Some []"
| "line_end [Quoted s] = Some []"
| "line_end [Plain s] = None"
| "line_end (f # fs) = line_end fs"

fun read_fields :: "nat \<Rightarrow> cur \<Rightarrow> string list \<times> cur" where
  "read_fields 0 p = ([], p)"
| "read_fields (Suc n) p =
     (case at_tok_nextstr p of
        (r, Some t, p) \<Rightarrow> (case read_fields n p of (ts, p) \<Rightarrow> (t # ts, p))
      | (r, None, p) \<Rightarrow> ([], p))"

lemma takeWhile_until: "c \<notin> set s \<Longrightarrow> takeWhile (\<lambda>x. x \<noteq> c) (s @ c # r) = s"
  by (induction s) auto

lemma dropWhile_until: "c \<notin> set s \<Longrightarrow> dropWhile (\<lambda>x. x \<noteq> c) (s @ c # r) = c # r"
  by (induction s) auto

lemma while_all: "c \<notin> set s \<Longrightarrow> takeWhile (\<lambda>x. x \<noteq> c) s = s" "c \<notin> set s \<Longrightarrow> dropWhile (\<lambda>x. x \<noteq> c) s = []"
  by (induction s) auto

lemma strsep_until: "c \<notin> set s \<Longrightarrow> strsep c (s @ c # r) = (s, Some r)" "c \<notin> set s \<Longrightarrow> strsep c s = (s, None)"
  by (simp_all add: strsep_def takeWhile_until dropWhile_until while_all)

lemma nextTok_quoted: "CHR 0x22 \<notin> set s \<Longrightarrow> nextTok (Some (CHR 0x22 # s @ CHR 0x22 # r)) = (Some s, Some (skipNextComma r))"
  by (simp add: nextTok_def skipWhiteSpace_def isspace_def strsep_until)

lemma nextTok_plain:
  assumes "field_ok (Plain s)"
  shows "nextTok (Some (s @ CHR '','' # r)) = (Some s, Some r)" "nextTok (Some s) = (Some s, None)"
proof -
  have c: "CHR '','' \<notin> set s" using assms by simp
  have w: "skipWhiteSpace (s @ CHR '','' # r) = s @ CHR '','' # r" "skipWhiteSpace s = s"
    using assms by (cases s; auto simp: skipWhiteSpace_def isspace_def)+
  have q: "hd (s @ CHR '','' # r) \<noteq> CHR 0x22" "s = [] \<or> hd s \<noteq> CHR 0x22"
    using assms by (cases s; simp)+
  show "nextTok (Some (s @ CHR '','' # r)) = (Some s, Some r)"
    using q by (simp add: nextTok_def w strsep_until(1) [OF c])
  show "nextTok (Some s) = (Some s, None)"
    using q by (auto simp add: nextTok_def w strsep_until(2) [OF c])
qed

lemma skipNextComma_comma [simp]: "skipNextComma (CHR '','' # r) = r" "skipNextComma [] = []"
  by (simp_all add: skipNextComma_def)

lemma nextTok_field:
  assumes "field_ok f"
  shows "nextTok (Some (field_text f @ CHR '','' # r)) = (Some (field_value f), Some r)"
    "nextTok (Some (field_text f)) = (Some (field_value f), line_end [f])"
  using assms nextTok_quoted [of _ "CHR '','' # r"] nextTok_quoted [of _ "[]"] nextTok_plain by (cases f; simp del: field_ok.simps(2))+

lemma line_read:
  assumes "list_all field_ok fs"
  shows "read_fields (length fs) (Some (line fs)) = (map field_value fs, line_end fs)"
  using assms
proof (induction fs rule: line.induct)
  case (3 f g fs)
  have f: "field_ok f" using "3.prems" by simp
  show ?case using "3.IH" "3.prems" by (simp add: at_tok_nextstr_def nextTok_field [OF f] line_end.simps(4))
qed (simp_all add: at_tok_nextstr_def nextTok_field)

section \<open>Numbers\<close>

text \<open>The decimal text of a number, as the tool on the other side writes it.\<close>

fun dec_text :: "nat \<Rightarrow> string" where
  "dec_text n = (if n < 10 then [char_of (48 + n)] else dec_text (n div 10) @ [char_of (48 + n mod 10)])"

declare dec_text.simps [simp del]

definition int_text :: "int \<Rightarrow> string" where
  "int_text v = (if v < 0 then CHR ''-'' # dec_text (nat (- v)) else dec_text (nat v))"

lemma digit_char: "d < 10 \<Longrightarrow> of_char (char_of (48 + d)) = (48 + d :: nat)"
  by (simp add: of_char_of)

lemma dec_value_append:
  "list_all isdigit s \<Longrightarrow> dec_value a (s @ t) = dec_value (dec_value a s) t"
  by (induction s arbitrary: a) auto

lemma isdigit_char: "(d :: nat) < 10 \<Longrightarrow> isdigit (char_of (48 + d))"
  by (simp add: isdigit_def digit_char)

lemma dec_text_digits: "list_all isdigit (dec_text n)"
  by (induction n rule: dec_text.induct) (subst dec_text.simps, auto simp: isdigit_char)

lemma dec_value_text: "dec_value 0 (dec_text n) = n"
proof (induction n rule: dec_text.induct)
  case (1 n)
  show ?case
  proof (cases "n < 10")
    case True
    then show ?thesis by (subst dec_text.simps) (simp add: isdigit_def digit_char)
  next
    case False
    then have "dec_value 0 (dec_text (n div 10)) = n div 10" using 1 by simp
    then show ?thesis using False
      by (subst dec_text.simps) (simp add: dec_value_append dec_text_digits isdigit_def digit_char)
  qed
qed

lemma isdigit_not:
  assumes "isdigit c"
  shows "\<not> isspace c" "c \<noteq> CHR ''-''" "c \<noteq> CHR ''+''" "c \<noteq> CHR '',''" "c \<noteq> CHR 0x22"
  using assms by (auto simp: isdigit_def isspace_def)

lemma dec_text_cons: "\<exists>c s. dec_text n = c # s \<and> isdigit c"
proof -
  have "dec_text n \<noteq> []" by (subst dec_text.simps) simp
  then show ?thesis using dec_text_digits [of n] by (cases "dec_text n") auto
qed

lemma conv_int_text: "- (2 ^ 31) \<le> v \<Longrightarrow> v < 2 ^ 31 \<Longrightarrow> conv_int False (int_text v) = Some v"
proof -
  assume v: "- (2 ^ 31) \<le> v" "v < 2 ^ 31"
  obtain c s where t: "dec_text (nat \<bar>v\<bar>) = c # s" "isdigit c" using dec_text_cons by blast
  have p: "signed_part (int_text v) = (v < 0, dec_text (nat \<bar>v\<bar>))"
    using t isdigit_not [OF t(2)] by (auto simp: signed_part_def int_text_def isspace_def)
  show ?thesis
    using v t(2) by (simp add: conv_int_def p digits_start_def dec_value_text clamp_long_def) (simp add: t(1) Let_def)
qed

lemma int_text_field: "field_ok (Plain (int_text v))"
proof -
  obtain c s where t: "dec_text (nat \<bar>v\<bar>) = c # s" "isdigit c" using dec_text_cons by blast
  have "list_all isdigit (c # s)" using dec_text_digits [of "nat \<bar>v\<bar>"] t by simp
  then have "CHR '','' \<notin> set (c # s)" using isdigit_not(4) by (auto simp: list_all_iff)
  then show ?thesis using t isdigit_not [OF t(2)] by (auto simp: int_text_def isspace_def)
qed

lemma nextint_text:
  assumes "- (2 ^ 31) \<le> v" "v < 2 ^ 31"
  shows "at_tok_nextint (Some (int_text v @ CHR '','' # r)) = (0, Some v, Some r)"
    "at_tok_nextint (Some (int_text v)) = (0, Some v, None)"
  using nextTok_plain [OF int_text_field] conv_int_text [OF assms]
  by (simp_all add: at_tok_nextint_def at_tok_nextint_base_def)

section \<open>Properties\<close>

text \<open>C27: a line of fields, each quoted or plain, is read back field by field with exactly the text of each field; after a
  last plain field nothing is left to read, after a last quoted one the empty string.\<close>

theorem fields_read_back:
  assumes "list_all field_ok fs"
  shows "read_fields (length fs) (Some (line fs)) = (map field_value fs, line_end fs)"
  by (rule line_read [OF assms])

theorem fields_read_back_witness:
  "read_fields 3 (Some (line [Quoted ''a,b'', Plain [], Plain ''7''])) = ([''a,b'', [], ''7''], None)"
proof -
  let ?fs = "[Quoted ''a,b'', Plain [], Plain ''7'']"
  have "list_all field_ok ?fs" by (simp add: isspace_def)
  from fields_read_back [OF this] show ?thesis by (simp add: numeral_3_eq_3 del: read_fields.simps line.simps)
qed

end
