(* ===== verification/Eng_Diag.thy ===== *)
theory Eng_Diag
  imports Eng_Codec Eng_Attok Checksums
begin

text \<open>
  What becomes of a diagnosis frame in apps/engmode: \<open>eng_diag_parse\<close> of eng_diag.c decodes the frame in place and looks
  at the type in its header; \<open>eng_diag\<close> gives it to a handler on the application processor, leaves it to the modem, or both.
  With it the functions that \<open>eng_diag_parse\<close> asks: the AT commands for the audio parameters and the table of Linux commands
  (eng_cmd4linuxhdlr.c), the calibration commands and the frames with the Bluetooth and WLAN address and their checksum.
  The memory of the frame is a list of bytes that starts at the opening flag; \<open>None\<close> is an access outside of it or through
  the null pointer. \<open>modes\<close> is the result of \<open>adev_get_audiomodenum4eng\<close> of the audio library.
\<close>

unbundle bit_operations_syntax

section \<open>Commands\<close>

datatype cmd =
    CMD_COMMON | CMD_USER_VER | CMD_USER_BTWIFI | CMD_USER_FACTORYMODE | CMD_USER_AUDIO | CMD_USER_RESET
  | CMD_USER_GETVOLTAGE | CMD_USER_APCALI | CMD_USER_APCMD | CMD_USER_ADC | CMD_USER_PRODUCT_CTRL
  | CMD_USER_DIRECT_PHSCHK | CMD_USER_MMICIT_READ | CMD_USER_DEEP_SLEEP | CMD_USER_FILE_OPER | CMD_USER_SHUT_DOWN
  | CMD_USER_AUTOTEST | CMD_USER_AUTOTEST_PATH_CONFIRM

text \<open>The static variables of eng_diag.c that decide where a frame goes.\<close>

record diag =
  g_is_data :: int
  g_index :: int
  cmd_type :: int
  eq_or_tun_type :: int
  eq_mode_sel_type :: int
  s_cmd_index :: int
  s_cp_ap_proc :: bool
  g_assert_cmd :: bool

section \<open>The table of AT commands of the application processor\<close>

datatype eng_cmd_type = CMD_INVALID_TYPE | CMD_TO_AP | CMD_TO_APCP

definition eng_linuxcmd :: "(eng_cmd_type \<times> string) list" where
  "eng_linuxcmd =
     [(CMD_TO_AP, ''AT+SENDKEY''), (CMD_TO_AP, ''AT+GETICH?''), (CMD_TO_AP, ''AT+ETSRESET''),
      (CMD_TO_AP, ''AT+RPOWERON''), (CMD_TO_AP, ''AT+GETVBAT''), (CMD_TO_AP, ''AT+STOPCHG''),
      (CMD_TO_AP, ''AT+TESTMMI''), (CMD_TO_AP, ''AT+BTTESTMODE''), (CMD_TO_AP, ''AT+GETBTADDR''),
      (CMD_TO_AP, ''AT+SETBTADDR''), (CMD_TO_AP, ''AT+GSNR''), (CMD_TO_AP, ''AT+GSNW''),
      (CMD_TO_AP, ''AT+GETWIFIADDR''), (CMD_TO_AP, ''AT+SETWIFIADDR''), (CMD_TO_AP, ''AT+ETSCHECKRESET''),
      (CMD_TO_AP, ''AT+SIMCHK''), (CMD_TO_AP, ''AT+FACTORYMODE''), (CMD_TO_APCP, ''AT+SYSSLEEP''),
      (CMD_TO_AP, ''AT+CHARGERTEST''), (CMD_TO_AP, ''AT+SPBTTEST''), (CMD_TO_AP, ''AT+SPWIFITEST''),
      (CMD_TO_AP, ''AT+SPGPSTEST''), (CMD_TO_AP, ''+SPBTWIFICALI''), (CMD_TO_AP, ''AT+BATTTEST''),
      (CMD_TO_AP, ''AT+TEMPTEST''), (CMD_TO_AP, ''AT+RTCCTEST'')]"

definition tolower :: "char \<Rightarrow> char" where
  "tolower c = (let n = of_char c :: nat in if 65 \<le> n \<and> n \<le> 90 then char_of (n + 32) else c)"

fun strcasestr :: "string \<Rightarrow> string \<Rightarrow> bool" where
  "strcasestr [] pat \<longleftrightarrow> pat = []"
| "strcasestr (c # s) pat \<longleftrightarrow> map tolower (take (length pat) (c # s)) = map tolower pat \<or> strcasestr s pat"

definition temptest_for_modem :: "string \<Rightarrow> bool" where
  "temptest_for_modem s \<longleftrightarrow>
     strcasestr s ''AT+TEMPTEST'' \<and>
     (strcasestr s ''AT+TEMPTEST=1,0,1'' \<or> strcasestr s ''AT+TEMPTEST=1,1,1'' \<or>
      strcasestr s ''AT+TEMPTEST=1,0,4'' \<or> strcasestr s ''AT+TEMPTEST=1,1,4'')"

fun find_cmd :: "int \<Rightarrow> string \<Rightarrow> (eng_cmd_type \<times> string) list \<Rightarrow> int" where
  "find_cmd i s [] = -1"
| "find_cmd i s ((ty, name) # t) =
     (if strcasestr s name then if temptest_for_modem s then -1 else i else find_cmd (i + 1) s t)"

definition eng_at2linux :: "string \<Rightarrow> int" where
  "eng_at2linux s = find_cmd 0 s eng_linuxcmd"

text \<open>The bound of the source is one too high; \<open>None\<close> is the read behind the table.\<close>

definition eng_cmd_get_type :: "int \<Rightarrow> eng_cmd_type option" where
  "eng_cmd_get_type cmd =
     (if 0 \<le> cmd \<and> nat cmd \<le> length eng_linuxcmd
      then if nat cmd < length eng_linuxcmd then Some (fst (eng_linuxcmd ! nat cmd)) else None
      else Some CMD_INVALID_TYPE)"

section \<open>Memory\<close>

definition text_of :: "bytes \<Rightarrow> string" where
  "text_of bs = map (\<lambda>b. char_of (unat b)) bs"

definition bytes_of :: "string \<Rightarrow> bytes" where
  "bytes_of s = map of_char s"

text \<open>The string at an offset; \<open>None\<close> if it is not terminated within the memory.\<close>

definition cstr_at :: "nat \<Rightarrow> bytes \<Rightarrow> string option" where
  "cstr_at off m = (if 0 \<in> set (drop off m) then Some (text_of (takeWhile (\<lambda>b. b \<noteq> 0) (drop off m))) else None)"

definition put_str :: "nat \<Rightarrow> string \<Rightarrow> bytes \<Rightarrow> bytes" where
  "put_str off s m = take off m @ bytes_of s @ drop (off + length s) m"

definition u16_at :: "nat \<Rightarrow> bytes \<Rightarrow> u16 option" where
  "u16_at i m = (if i + 1 < length m then Some (ucast (m ! i) + 256 * ucast (m ! (i + 1))) else None)"

text \<open>\<open>MSG_HEAD_T\<close> stands behind the opening flag: sequence number at 1, length at 5, type at 7, subtype at 8.\<close>

definition head_len :: "bytes \<Rightarrow> u16 option" where
  "head_len m = u16_at 5 m"

definition head_byte :: "nat \<Rightarrow> bytes \<Rightarrow> u8 option" where
  "head_byte i m = (if i < length m then Some (m ! i) else None)"

section \<open>AT commands for the audio parameters\<close>

definition isupper :: "char \<Rightarrow> bool" where
  "isupper c \<longleftrightarrow> 65 \<le> (of_char c :: nat) \<and> (of_char c :: nat) \<le> 90"

definition starts :: "string \<Rightarrow> string \<Rightarrow> bool" where
  "starts pre s \<longleftrightarrow> take (length pre) s = pre"

definition stored :: "int option \<Rightarrow> int \<Rightarrow> int" where
  "stored v old = (case v of None \<Rightarrow> old | Some x \<Rightarrow> x)"

text \<open>The answer, the text and the variables. The position may be the null pointer where it is read: \<open>None\<close>.\<close>

definition audio_sadm :: "int \<Rightarrow> string \<Rightarrow> diag \<Rightarrow> (bool \<times> string \<times> diag) option" where
  "audio_sadm modes s st =
     (let p = snd (at_tok_equel_start (Some s)); t = cut_tok s p;
          (r, v, q) = at_tok_nextint p; ct = stored v (cmd_type st); st = st\<lparr>cmd_type := ct\<rparr>
      in if ct \<notin> set [7, 8, 9, 10, 11, 12] then Some (False, t, st)
         else if ct \<noteq> 7
         then (case q of
                 None \<Rightarrow> None
               | Some u \<Rightarrow> let g = atoi u in Some (g < modes, t, st\<lparr>g_index := g\<rparr>))
         else Some (True, t, st))"

definition audio_spenha :: "int \<Rightarrow> string \<Rightarrow> diag \<Rightarrow> (bool \<times> string \<times> diag) option" where
  "audio_spenha modes s st =
     (let p = snd (at_tok_equel_start (Some s)); t = cut_tok s p;
          (r, v, q) = at_tok_nextint p; t = cut_tok t q;
          (r', v', q') = at_tok_nextint q; ct = stored v' (cmd_type st);
          st = st\<lparr>eq_or_tun_type := stored v (eq_or_tun_type st), cmd_type := ct\<rparr>
      in if ct \<notin> set [0, 1, 2, 3, 4] then Some (False, t, st)
         else if ct \<noteq> 0
         then let t = cut_tok t q'; (r'', v'', q'') = at_tok_nextint q'; g = stored v'' (g_index st)
              in if g > modes \<or> g \<le> 0 then Some (False, t, st\<lparr>g_index := g\<rparr>)
                 else if ct = 2
                 then (case q'' of
                         None \<Rightarrow> None
                       | Some u \<Rightarrow> Some (True, t, st\<lparr>g_index := g - 1,
                           eq_mode_sel_type := (if u = [] then 0 else int (of_char (hd u) :: nat)) - 48\<rparr>))
                 else Some (True, t, st\<lparr>g_index := g - 1\<rparr>)
         else Some (True, t, st))"

definition is_audio_at_cmd_need_to_handle :: "int \<Rightarrow> string \<Rightarrow> diag \<Rightarrow> (bool \<times> string \<times> diag) option" where
  "is_audio_at_cmd_need_to_handle modes s st =
     (if g_is_data st \<noteq> 0 \<and> \<not> starts ''AT'' s \<and> s \<noteq> [] \<and> (isdigit (hd s) \<or> isupper (hd s)) then Some (True, s, st)
      else if starts ''AT+SADM4AP'' s then audio_sadm modes s st
      else if starts ''AT+SPENHA'' s then audio_spenha modes s st
      else if starts ''AT+CALIBR'' s
      then (let p = snd (at_tok_equel_start (Some s)); (r, v, q) = at_tok_nextint p
            in Some (True, cut_tok s p, st\<lparr>cmd_type := stored v (cmd_type st)\<rparr>))
      else Some (starts ''AT+PEINFO'' s, s, st))"

definition is_ap_at_cmd_need_to_handle :: "string \<Rightarrow> diag \<Rightarrow> bool \<times> diag" where
  "is_ap_at_cmd_need_to_handle s st =
     (let i = eng_at2linux s in (i \<noteq> -1, st\<lparr>s_cmd_index := i\<rparr>))"

section \<open>Addresses\<close>

text \<open>Lengths are unsigned: a length below 10 makes the checked area larger than any memory.\<close>

definition is_btwifi_addr_need_to_handle :: "bytes \<Rightarrow> nat option" where
  "is_btwifi_addr_need_to_handle m =
     do {
       len \<leftarrow> map_option unat (head_len m);
       recv_crc \<leftarrow> (if len < 1 then None else u16_at (len - 1) m);
       crc \<leftarrow> (if len < 10 \<or> \<not> len - 1 \<le> length m then None else Some (eng_crc16 0 (take (len - 10) (drop 9 m))));
       subtype \<leftarrow> head_byte 8 m;
       Some (if recv_crc \<noteq> crc then 0
             else if subtype AND 0x80 = 0 \<and> subtype AND 0x7F = 0 then 0
             else let cmd_mask = subtype AND 0x7F
                  in if cmd_mask \<noteq> 0 \<and> (cmd_mask AND 0x04 \<noteq> 0 \<or> cmd_mask AND 0x40 \<noteq> 0)
                     then if cmd_mask AND 0xBB \<noteq> 0 then 2 else 1
                     else 0) }"

definition eng_diag_ap_req :: "bytes \<Rightarrow> cmd option" where
  "eng_diag_ap_req m = map_option (\<lambda>c. if c = 3 then CMD_USER_FILE_OPER else CMD_USER_APCALI) (u16_at 9 m)"

section \<open>Where a frame goes\<close>

definition at_cmd :: "int \<Rightarrow> diag \<Rightarrow> bytes \<Rightarrow> (cmd \<times> diag \<times> bytes) option" where
  "at_cmd modes st m =
     do {
       s \<leftarrow> cstr_at 9 m;
       (audio, t, st) \<leftarrow> is_audio_at_cmd_need_to_handle modes s st;
       if audio then Some (CMD_USER_AUDIO, st, put_str 9 t m)
       else do {
         s' \<leftarrow> cstr_at 9 (put_str 9 t m);
         let (ap, st) = is_ap_at_cmd_need_to_handle s' st;
         if ap then do {
           ty \<leftarrow> eng_cmd_get_type (s_cmd_index st);
           Some (CMD_USER_APCMD, st\<lparr>s_cp_ap_proc := s_cp_ap_proc st \<or> ty = CMD_TO_APCP\<rparr>, put_str 9 t m) }
         else Some (CMD_COMMON, st, put_str 9 t m) } }"

definition diag_type :: "int \<Rightarrow> diag \<Rightarrow> bytes \<Rightarrow> (cmd \<times> diag \<times> bytes) option" where
  "diag_type modes st m =
     do {
       type \<leftarrow> head_byte 7 m;
       subtype \<leftarrow> head_byte 8 m;
       if type = 0x0C then Some (if subtype = 8 then CMD_USER_RESET else CMD_COMMON, st, m)
       else if type = 0x0D then
         Some (if subtype = 0x07 then CMD_USER_FACTORYMODE
               else if 0x2 \<le> subtype \<and> subtype \<le> 0x4 then CMD_USER_PRODUCT_CTRL
               else if subtype = 0x1A then CMD_USER_MMICIT_READ else CMD_COMMON, st, m)
       else if type = 0x5F then Some (CMD_USER_DIRECT_PHSCHK, st, m)
       else if type = 0x0F then Some (CMD_USER_ADC, st, m)
       else if type = 0x68 then at_cmd modes st m
       else if type = 0x1E then Some (CMD_USER_GETVOLTAGE, st, m)
       else if type = 0x62 then map_option (\<lambda>c. (c, st, m)) (eng_diag_ap_req m)
       else if type = 0x38 then
         Some (if subtype = 0x1C then CMD_USER_AUTOTEST_PATH_CONFIRM else CMD_USER_AUTOTEST, st, m)
       else if type = 0x00 then Some (if subtype = 0x2 then CMD_USER_VER else CMD_COMMON, st, m)
       else if type = 0x5E then
         map_option (\<lambda>r. if r \<noteq> 0 then (CMD_USER_BTWIFI, st\<lparr>s_cp_ap_proc := s_cp_ap_proc st \<or> r = 2\<rparr>, m)
                         else (CMD_COMMON, st, m)) (is_btwifi_addr_need_to_handle m)
       else if type = 0x11 then
         Some (if subtype = 0x2 then CMD_USER_DEEP_SLEEP
               else if subtype = 0xE then CMD_USER_SHUT_DOWN else CMD_COMMON, st, m)
       else if type = 0x05 then Some (CMD_COMMON, st\<lparr>g_assert_cmd := g_assert_cmd st \<or> subtype = 0x4\<rparr>, m)
       else Some (CMD_COMMON, st, m) }"

definition eng_diag_parse :: "int \<Rightarrow> diag \<Rightarrow> bytes \<Rightarrow> nat \<Rightarrow> (cmd \<times> diag \<times> bytes) option" where
  "eng_diag_parse modes st m len =
     do {
       b \<leftarrow> eng_diag_decode7d7e (drop 1 m) (len - 1);
       diag_type modes st (take 1 m @ b) }"

text \<open>\<open>eng_diag\<close>: the handler of a frame is not modelled beyond the variables that decide about later frames: the audio
  handler leaves some value in \<open>g_is_data\<close>, an input here, and the one for deep sleep sets \<open>s_cp_ap_proc\<close>. The result is
  the return value, what the handler was given, and the variables.\<close>

fun dispose :: "int \<Rightarrow> cmd \<times> diag \<times> bytes \<Rightarrow> nat \<times> (cmd \<times> bytes) list \<times> diag" where
  "dispose is_data (type, st, m) =
     (if type = CMD_COMMON then (0, [], st)
      else
        let st = (if type = CMD_USER_AUDIO then st\<lparr>g_is_data := is_data\<rparr> else st);
            st = (if type = CMD_USER_DEEP_SLEEP then st\<lparr>s_cp_ap_proc := True\<rparr> else st)
        in (if s_cp_ap_proc st then 0 else 1, [(type, m)], st\<lparr>s_cp_ap_proc := False\<rparr>))"

definition eng_diag :: "int \<Rightarrow> int \<Rightarrow> diag \<Rightarrow> bytes \<Rightarrow> nat \<Rightarrow> (nat \<times> (cmd \<times> bytes) list \<times> diag) option" where
  "eng_diag modes is_data st m len = map_option (dispose is_data) (eng_diag_parse modes st m len)"

text \<open>The search of \<open>eng_diag_apcmd_hdlr\<close> for the end of its command: the offset of the flag, \<open>None\<close> if it runs out of the memory.\<close>

fun find_flag :: "nat \<Rightarrow> bytes \<Rightarrow> nat option" where
  "find_flag i [] = None"
| "find_flag i (c # m) = (if c = 0x7E then Some i else find_flag (i + 1) m)"

definition apcmd_end :: "bytes \<Rightarrow> nat option" where
  "apcmd_end m = find_flag 0 (drop 9 m)"

section \<open>Frames\<close>

lemma parse_frame:
  "eng_diag_parse modes st (0x7E # translate_body p @ 0x7E # a # v) (length (translate_body p) + 2) =
   diag_type modes st (0x7E # p @ (a XOR 0x20) # replicate (flags p) a @ a # v)"
  using decode_frame [of p a v] by (simp add: eng_diag_parse_def)

text \<open>A frame that is not complete is decoded in place as well.\<close>

lemma parse_part:
  "v \<noteq> [] \<Longrightarrow> eng_diag_parse modes st (0x7E # translate_body p @ v) (length (translate_body p) + 1) =
   diag_type modes st (0x7E # p @ replicate (flags p) (hd v) @ v)"
  using decode_body [of v p] by (simp add: eng_diag_parse_def)

section \<open>Address frames\<close>

definition btwifi_mask :: "u8 \<Rightarrow> nat" where
  "btwifi_mask subtype = (if subtype AND 0x44 = 0 then 0 else if subtype AND 0x3B = 0 then 1 else 2)"

lemma mask_bits:
  "((subtype AND 0x7F) AND 0x04 \<noteq> 0 \<or> (subtype AND 0x7F) AND 0x40 \<noteq> 0) \<longleftrightarrow> subtype AND 0x44 \<noteq> (0 :: u8)"
  "(subtype AND 0x7F) AND 0xBB = subtype AND (0x3B :: u8)"
proof -
  have "subtype AND 0x44 = (subtype AND 0x04) OR (subtype AND (0x40 :: u8))"
    by (simp add: bit.conj_disj_distrib [symmetric])
  then show "((subtype AND 0x7F) AND 0x04 \<noteq> 0 \<or> (subtype AND 0x7F) AND 0x40 \<noteq> 0) \<longleftrightarrow> subtype AND 0x44 \<noteq> (0 :: u8)"
    by (auto simp: and.assoc or_eq_0_iff)
  show "(subtype AND 0x7F) AND 0xBB = subtype AND (0x3B :: u8)" by (simp add: and.assoc)
qed

lemma mask_choice:
  "(if subtype AND 0x80 = 0 \<and> subtype AND 0x7F = 0 then 0
    else let cmd_mask = subtype AND 0x7F
         in if cmd_mask \<noteq> 0 \<and> (cmd_mask AND 0x04 \<noteq> 0 \<or> cmd_mask AND 0x40 \<noteq> 0)
            then if cmd_mask AND 0xBB \<noteq> 0 then 2 else 1
            else 0) = btwifi_mask subtype"
proof (cases "subtype AND 0x7F = 0")
  case True
  have "subtype AND 0x44 = (subtype AND 0x7F) AND 0x44" by (simp add: and.assoc)
  then have "subtype AND 0x44 = 0" unfolding True by simp
  then show ?thesis using True by (simp add: btwifi_mask_def)
next
  case False
  then show ?thesis unfolding Let_def mask_bits by (simp add: btwifi_mask_def)
qed

lemma u16_bytes: "n < 65536 \<Longrightarrow> ucast (word_of_nat n :: u8) + 256 * ucast (word_of_nat (n div 256) :: u8) = (word_of_nat n :: u16)"
  by (rule word_unat_eq_iff [THEN iffD2]) (simp add: unsigned_ucast_eq take_bit_eq_mod unat_word_ariths unat_of_nat)

definition address_msg :: "bytes \<Rightarrow> u8 \<Rightarrow> bytes \<Rightarrow> u8 \<Rightarrow> u8 \<Rightarrow> bytes" where
  "address_msg q subtype d c0 c1 =
     q @ [word_of_nat (length d + 10), word_of_nat ((length d + 10) div 256), 0x5E, subtype] @ d @ [c0, c1]"

lemma btwifi_frame:
  assumes "length q = 4" "length d + 10 < 65536" "n = length d + 10" "m = 0x7E # address_msg q subtype d c0 c1 @ r"
  shows "is_btwifi_addr_need_to_handle m =
    Some (if ucast c0 + 256 * ucast c1 = eng_crc16 0 d then btwifi_mask subtype else 0)"
proof -
  obtain a1 a2 a3 a4 where q: "q = [a1, a2, a3, a4]"
    using assms(1) by (auto simp: length_Suc_conv eval_nat_numeral)
  have len: "head_len m = Some (word_of_nat n)"
    using u16_bytes [of n] assms(2) by (simp add: head_len_def u16_at_def assms(3,4) address_msg_def q)
  have n: "unat (word_of_nat n :: u16) = n" using assms(2,3) unat_of_nat [of n, where 'a = 16] by (simp del: of_nat_add)
  have d: "take (n - 10) (drop 9 m) = d" by (simp add: assms(3,4) address_msg_def q)
  have c: "u16_at (n - 1) m = Some (ucast c0 + 256 * ucast c1)"
    by (simp add: u16_at_def assms(3,4) address_msg_def q nth_append nth_Cons')
  have b: "head_byte 8 m = Some subtype" by (simp add: head_byte_def assms(4) address_msg_def q)
  have l: "n < 10 \<longleftrightarrow> False" "n - 1 \<le> length m" "n < 1 \<longleftrightarrow> False" by (simp_all add: assms(3,4) address_msg_def q)
  show ?thesis
    unfolding is_btwifi_addr_need_to_handle_def len option.map bind.bind_lunit n l c d b mask_choice using l(2) by simp
qed

lemma address_type:
  assumes "length q = 4" "length d + 10 < 65536"
  shows "diag_type modes st (0x7E # address_msg q subtype d c0 c1 @ r) =
    (let n = if ucast c0 + 256 * ucast c1 = eng_crc16 0 d then btwifi_mask subtype else 0
     in Some (if n \<noteq> 0 then CMD_USER_BTWIFI else CMD_COMMON, st\<lparr>s_cp_ap_proc := s_cp_ap_proc st \<or> n = 2\<rparr>,
              0x7E # address_msg q subtype d c0 c1 @ r))"
proof -
  let ?m = "0x7E # address_msg q subtype d c0 c1 @ r"
  obtain a1 a2 a3 a4 where q: "q = [a1, a2, a3, a4]"
    using assms(1) by (auto simp: length_Suc_conv eval_nat_numeral)
  have h: "head_byte 7 ?m = Some 0x5E" "head_byte 8 ?m = Some subtype" by (simp_all add: head_byte_def address_msg_def q)
  show ?thesis
    unfolding diag_type_def h btwifi_frame [OF assms refl refl] by (simp add: Let_def)
qed

section \<open>AT commands\<close>

text \<open>A set or get command for the volume without a second field: the index is read through the null pointer.\<close>

lemma equel_start: "CHR ''='' \<notin> set s \<Longrightarrow> at_tok_equel_start (Some (s @ CHR ''='' # r)) = (0, Some r)"
  by (simp add: at_tok_equel_start_def at_tok_from_def dropWhile_until)

lemma sadm_null:
  assumes "8 \<le> c" "c \<le> 12"
  shows "is_audio_at_cmd_need_to_handle modes (''AT+SADM4AP='' @ int_text c) st = None"
proof -
  have e: "at_tok_equel_start (Some (''AT+SADM4AP='' @ int_text c)) = (0, Some (int_text c))"
    using equel_start [of "''AT+SADM4AP''" "int_text c"] by simp
  have n: "at_tok_nextint (Some (int_text c)) = (0, Some c, None)"
    using nextint_text(2) [of c] assms by simp
  have "audio_sadm modes (''AT+SADM4AP='' @ int_text c) st = None"
    unfolding audio_sadm_def e using assms by (auto simp: n stored_def Let_def)
  then show ?thesis by (simp add: is_audio_at_cmd_need_to_handle_def starts_def)
qed

text \<open>A negative index is accepted.\<close>

lemma int_text_tok: "tok_rest (int_text c @ CHR '','' # r) = Some r"
proof -
  have ok: "field_ok (Plain (int_text c))" by (rule int_text_field)
  have w: "skipWhiteSpace (int_text c @ CHR '','' # r) = int_text c @ CHR '','' # r"
    using ok by (cases "int_text c") (auto simp: skipWhiteSpace_def isspace_def)
  have "hd (int_text c @ CHR '','' # r) \<noteq> CHR 0x22" using ok by (cases "int_text c") auto
  then show ?thesis using ok by (simp add: tok_rest_def w strsep_until)
qed

lemma atoi_text: "- (2 ^ 31) \<le> v \<Longrightarrow> v < 2 ^ 31 \<Longrightarrow> atoi (int_text v) = v"
  using conv_int_text [of v] by (auto simp: conv_int_def atoi_def Let_def split: prod.splits if_splits)

lemma sadm_index:
  assumes "8 \<le> c" "c \<le> 12" "- (2 ^ 31) \<le> i" "i < 2 ^ 31"
  shows "\<exists>t. is_audio_at_cmd_need_to_handle modes (''AT+SADM4AP='' @ int_text c @ CHR '','' # int_text i) st =
    Some (i < modes, t, st\<lparr>cmd_type := c, g_index := i\<rparr>)"
proof -
  let ?s = "''AT+SADM4AP='' @ int_text c @ CHR '','' # int_text i"
  have e: "at_tok_equel_start (Some ?s) = (0, Some (int_text c @ CHR '','' # int_text i))"
    using equel_start [of "''AT+SADM4AP''" "int_text c @ CHR '','' # int_text i"] by simp
  have n: "at_tok_nextint (Some (int_text c @ CHR '','' # int_text i)) = (0, Some c, Some (int_text i))"
    using nextint_text(1) [of c] assms by simp
  have "\<exists>t. audio_sadm modes ?s st = Some (i < modes, t, st\<lparr>cmd_type := c, g_index := i\<rparr>)"
    unfolding audio_sadm_def e using assms atoi_text [of i] by (auto simp: n stored_def Let_def)
  then show ?thesis by (simp add: is_audio_at_cmd_need_to_handle_def starts_def)
qed

text \<open>Behind a decoded frame there is no flag: the search of the command handler leaves the memory.\<close>

lemma find_flag_none: "0x7E \<notin> set m \<Longrightarrow> find_flag i m = None"
  by (induction m arbitrary: i) auto

lemma apcmd_overrun:
  assumes "8 \<le> length p" "0x7E \<notin> set (drop 8 p)"
  shows "apcmd_end (0x7E # p @ (0 XOR 0x20) # replicate n 0) = None"
proof -
  have "drop 9 (0x7E # p @ (0 XOR 0x20) # replicate n 0) = drop 8 p @ 0x20 # replicate n (0 :: u8)"
    using assms(1) by (simp add: eval_nat_numeral)
  then show ?thesis using assms(2) by (auto simp: apcmd_end_def intro!: find_flag_none)
qed

section \<open>Properties\<close>

text \<open>The variables as the program starts with them.\<close>

definition start_statics :: diag where
  "start_statics =
     \<lparr>g_is_data = 0, g_index = 0, cmd_type = 0, eq_or_tun_type = 0, eq_mode_sel_type = 0, s_cmd_index = -1,
      s_cp_ap_proc = False, g_assert_cmd = False\<rparr>"

text \<open>C25: a frame with addresses, escaped and between its flags, is for the application processor only if its checksum is right
  and the bit of the Bluetooth or of the WLAN address is set; the flag that sends it to the modem as well is set by it exactly if a
  further bit is set, and stays set if an earlier frame left it so.\<close>

theorem address_frames:
  assumes "length q = 4" "length d + 10 < 65536"
  shows "map_option (\<lambda>(c, st, m). (c, st))
      (eng_diag_parse modes st (translate_packet (address_msg q subtype d c0 c1) @ a # v)
        (length (translate_packet (address_msg q subtype d c0 c1)))) =
    (let n = if ucast c0 + 256 * ucast c1 = eng_crc16 0 d then btwifi_mask subtype else 0
     in Some (if n = 0 then CMD_COMMON else CMD_USER_BTWIFI, st\<lparr>s_cp_ap_proc := s_cp_ap_proc st \<or> n = 2\<rparr>))"
proof -
  let ?p = "address_msg q subtype d c0 c1"
  have "eng_diag_parse modes st (translate_packet ?p @ a # v) (length (translate_packet ?p)) =
      diag_type modes st (0x7E # ?p @ (a XOR 0x20) # replicate (flags ?p) a @ a # v)"
    using parse_frame [of modes st ?p a v] by (simp add: translate_packet_def)
  then show ?thesis using address_type [OF assms] by (simp add: Let_def)
qed

theorem address_frames_witness:
  "map_option (\<lambda>(c, st, m). (c, s_cp_ap_proc st))
     (eng_diag_parse 4 start_statics (translate_packet (address_msg [1, 0, 0, 0] 0x45 [] 0 0) @ [0])
       (length (translate_packet (address_msg [1, 0, 0, 0] 0x45 [] 0 0)))) = Some (CMD_USER_BTWIFI, True)"
proof -
  let ?e = "eng_diag_parse 4 start_statics (translate_packet (address_msg [1, 0, 0, 0] 0x45 [] 0 0) @ [0])
       (length (translate_packet (address_msg [1, 0, 0, 0] 0x45 [] 0 0)))"
  have "map_option (\<lambda>(c, st, m). (c, st)) ?e = Some (CMD_USER_BTWIFI, start_statics\<lparr>s_cp_ap_proc := True\<rparr>)"
    using address_frames [where q = "[1, 0, 0, 0]" and d = "[]" and modes = 4 and st = start_statics and subtype = "0x45" and ?c0.0 = 0 and ?c1.0 = 0 and a = 0 and v = "[]"] by (simp add: eng_crc16_def btwifi_mask_def)
  then show ?thesis by (cases ?e) auto
qed

end
