(* ===== verification/Eng_Vdiag.thy ===== *)
theory Eng_Vdiag
  imports Eng_Diag
begin

text \<open>
  The thread of apps/engmode that takes diagnosis frames from the serial port (vdiag.c, \<open>eng_vdiag_wthread\<close>): it collects a frame
  from the pieces that are read, has it judged by \<open>eng_diag\<close> and writes to the modem what is for the modem. One round of its
  endless loop is a step; what the system answers in a round is the input of the step. \<open>None\<close> is a round that does not end or
  an access outside of the buffer.
\<close>

unbundle bit_operations_syntax

section \<open>State\<close>

datatype status = ENG_DIAG_RECV_TO_AP | ENG_DIAG_RECV_TO_CP

record vdiag =
  ext_data_buf :: bytes
  ext_buf_len :: nat
  g_diag_status :: status
  statics :: diag
  g_ass_start :: bool
  handed :: "(cmd \<times> bytes) list"
  modem :: bytes
  running :: bool

definition DATA_BUF_SIZE :: nat where
  "DATA_BUF_SIZE = 4096 * 4"

definition DATA_EXT_DIAG_SIZE :: nat where
  "DATA_EXT_DIAG_SIZE = 4096 * 4"

definition init_user_diag_buf :: "vdiag \<Rightarrow> vdiag" where
  "init_user_diag_buf s = s\<lparr>ext_data_buf := replicate DATA_EXT_DIAG_SIZE 0, ext_buf_len := 0\<rparr>"

text \<open>\<open>ext_data_buf[ext_buf_len++] = c\<close>; a store outside of the buffer is \<open>None\<close>.\<close>

definition put_ext :: "u8 \<Rightarrow> vdiag \<Rightarrow> vdiag option" where
  "put_ext c s =
     (if ext_buf_len s < length (ext_data_buf s)
      then Some (s\<lparr>ext_data_buf := (ext_data_buf s)[ext_buf_len s := c], ext_buf_len := ext_buf_len s + 1\<rparr>)
      else None)"

fun get_user_diag_buf :: "bytes \<Rightarrow> vdiag \<Rightarrow> (bool \<times> vdiag) option" where
  "get_user_diag_buf [] s = Some (False, s)"
| "get_user_diag_buf (c # buf) s =
     (if c = 0x7E \<and> ext_buf_len s = 0 then do { s \<leftarrow> put_ext c s; get_user_diag_buf buf s }
      else if 0 < ext_buf_len s \<and> ext_buf_len s < DATA_EXT_DIAG_SIZE
      then do { s \<leftarrow> put_ext c s; if c = 0x7E then Some (True, s) else get_user_diag_buf buf s }
      else get_user_diag_buf buf s)"

section \<open>One round of the thread\<close>

text \<open>What the system answers in a round: the two reads, the tries to open the port again, the value the audio handler leaves in
  \<open>g_is_data\<close>, and the writes to the modem.\<close>

datatype rd = RErr | RData bytes

record round =
  rd1 :: rd
  rd2 :: rd
  ports :: "bool list"
  is_data :: int
  writes :: "int list"

text \<open>The first \<open>r_cnt\<close> bytes of \<open>log_data\<close>; the empty list where \<open>r_cnt\<close> is not positive.\<close>

definition read_serial :: "rd \<Rightarrow> rd \<Rightarrow> bytes" where
  "read_serial r1 r2 =
     (case r1 of
        RErr \<Rightarrow> []
      | RData b \<Rightarrow>
          if length b = DATA_BUF_SIZE div 2
          then (case r2 of RErr \<Rightarrow> butlast b | RData c \<Rightarrow> b @ c)
          else b)"

fun reopen :: "nat \<Rightarrow> bool list \<Rightarrow> bool option" where
  "reopen wait_cnt [] = None"
| "reopen wait_cnt (True # os) = Some True"
| "reopen wait_cnt (False # os) = (if wait_cnt + 1 > 10 then Some False else reopen (wait_cnt + 1) os)"

text \<open>Whether the data has been processed, what is for the modem, and the state.\<close>

definition route :: "int \<Rightarrow> int \<Rightarrow> bytes \<Rightarrow> vdiag \<Rightarrow> (bool \<times> bytes \<times> vdiag) option" where
  "route modes isd data s =
     (case g_diag_status s of
        ENG_DIAG_RECV_TO_CP \<Rightarrow>
          Some (False, data,
            s\<lparr>g_diag_status := (if last data = 0x7E then ENG_DIAG_RECV_TO_AP else ENG_DIAG_RECV_TO_CP)\<rparr>)
      | ENG_DIAG_RECV_TO_AP \<Rightarrow>
          do {
            (is_find, s) \<leftarrow> get_user_diag_buf data s;
            if is_find then
              do {
                (ret, h, st) \<leftarrow> eng_diag modes isd (statics s) (ext_data_buf s) (ext_buf_len s);
                Some (ret = 1, take (ext_buf_len s) (ext_data_buf s),
                      init_user_diag_buf (s\<lparr>statics := st, handed := handed s @ h\<rparr>)) }
            else if ext_buf_len s = 0 then Some (False, data, s)
            else if DATA_EXT_DIAG_SIZE div 2 \<le> ext_buf_len s then
              do {
                (type, st, m) \<leftarrow> eng_diag_parse modes (statics s) (ext_data_buf s) (ext_buf_len s);
                if type \<noteq> CMD_COMMON then Some (True, [], s\<lparr>statics := st, ext_data_buf := m\<rparr>)
                else Some (False, take (ext_buf_len s) m,
                           (init_user_diag_buf (s\<lparr>statics := st\<rparr>))\<lparr>g_diag_status := ENG_DIAG_RECV_TO_CP\<rparr>) }
            else Some (True, [], s) })"

text \<open>The loop around \<open>write\<close> appends to what the modem has got; \<open>None\<close> where the schedule ends and the thread still waits.\<close>

fun modem_write :: "int list \<Rightarrow> bytes \<Rightarrow> bytes \<Rightarrow> bytes option" where
  "modem_write [] data out = None"
| "modem_write (w # ws) data out =
     (if w < 0 then if data = [] then Some out else modem_write ws data out
      else let k = nat w
           in if drop k data = [] then Some (out @ take k data) else modem_write ws (drop k data) (out @ take k data))"

definition vdiag_round :: "int \<Rightarrow> vdiag \<Rightarrow> round \<Rightarrow> vdiag option" where
  "vdiag_round modes s r =
     (if \<not> running s then Some s
      else let data = read_serial (rd1 r) (rd2 r)
           in if data = [] then map_option (\<lambda>ok. s\<lparr>running := ok\<rparr>) (reopen 0 (ports r))
              else do {
                (has_processed, backup, s) \<leftarrow> route modes (is_data r) data s;
                if has_processed then Some s
                else map_option (\<lambda>out. s\<lparr>g_ass_start := g_ass_start s \<or> length data = 2 \<and> data ! 1 = 0xA, modem := out\<rparr>)
                       (modem_write (writes r) backup (modem s)) })"

section \<open>Writing\<close>

lemma modem_write_all:
  assumes "length data \<le> length (filter (\<lambda>w. 0 < w) ws)" "data \<noteq> []"
  shows "modem_write ws data out = Some (out @ data)"
  using assms
proof (induction ws data out rule: modem_write.induct)
  case (2 w ws data out)
  show ?case
  proof (cases "w < 0")
    case True
    then show ?thesis using 2 by simp
  next
    case False
    show ?thesis
    proof (cases "drop (nat w) data = []")
      case True
      then show ?thesis using False by simp
    next
      case d: False
      have "length (drop (nat w) data) \<le> length (filter (\<lambda>w. 0 < w) ws)" using "2.prems"(1) False by (auto split: if_splits)
      then have "modem_write ws (drop (nat w) data) (out @ take (nat w) data) = Some ((out @ take (nat w) data) @ drop (nat w) data)"
        using "2.IH"(2) [OF False refl d] d by simp
      then show ?thesis using False d by simp
    qed
  qed
qed simp

section \<open>Collecting a frame\<close>

definition part :: "bytes \<Rightarrow> vdiag \<Rightarrow> vdiag" where
  "part x s = s\<lparr>ext_data_buf := x @ replicate (DATA_EXT_DIAG_SIZE - length x) 0, ext_buf_len := length x\<rparr>"

lemma part_simps [simp]:
  "ext_buf_len (part x s) = length x" "statics (part x s) = statics s" "g_diag_status (part x s) = g_diag_status s"
  "handed (part x s) = handed s" "modem (part x s) = modem s" "running (part x s) = running s" "g_ass_start (part x s) = g_ass_start s"
  "ext_data_buf (part x s) = x @ replicate (DATA_EXT_DIAG_SIZE - length x) 0" "init_user_diag_buf (part x s) = init_user_diag_buf s"
  by (simp_all add: part_def init_user_diag_buf_def)

lemma put_part: "length x < DATA_EXT_DIAG_SIZE \<Longrightarrow> put_ext c (part x s) = Some (part (x @ [c]) s)"
  by (cases "DATA_EXT_DIAG_SIZE - length x") (auto simp: put_ext_def part_def list_update_append Suc_diff_Suc diff_Suc)

lemma collect_middle:
  assumes "x \<noteq> []" "0x7E \<notin> set c" "length x + length c \<le> DATA_EXT_DIAG_SIZE"
  shows "get_user_diag_buf (c @ r) (part x s) = get_user_diag_buf r (part (x @ c) s)"
  using assms by (induction c arbitrary: x) (auto simp: put_part)

lemma collect:
  assumes "x @ c = 0x7E # y" "c \<noteq> []" "0x7E \<notin> set y" "length (x @ c) \<le> DATA_EXT_DIAG_SIZE"
  shows "get_user_diag_buf (c @ r) (part x s) = get_user_diag_buf r (part (x @ c) s)"
proof (cases x)
  case Nil
  then have c: "c = 0x7E # y" using assms(1) by simp
  have "get_user_diag_buf (c @ r) (part x s) = get_user_diag_buf (y @ r) (part [0x7E] s)"
    using Nil assms(4) by (simp add: c put_part)
  then show ?thesis using collect_middle [of "[0x7E]" y r s] assms(3,4) Nil by (simp add: c)
next
  case (Cons a z)
  then show ?thesis using collect_middle [of x c r s] assms by (cases c) auto
qed

lemma collect_end:
  assumes "x @ c = 0x7E # y @ [0x7E]" "c \<noteq> []" "x @ c \<noteq> [0x7E]" "0x7E \<notin> set y" "length (x @ c) \<le> DATA_EXT_DIAG_SIZE"
  shows "get_user_diag_buf (c @ r) (part x s) = Some (True, part (x @ c) s)"
proof -
  obtain d where c: "c = d @ [0x7E]" "x @ d = 0x7E # y"
    using assms(1,2) by (cases c rule: rev_cases) auto
  have "get_user_diag_buf (d @ 0x7E # r) (part x s) = get_user_diag_buf (0x7E # r) (part (x @ d) s)"
    using collect [OF c(2), of "0x7E # r" s] assms(4,5) by (cases "d = []") (auto simp: c(1))
  moreover have "(x = [] \<and> d = []) = False" using c(2) by auto
  ultimately show ?thesis using assms(5) by (simp add: c(1) put_part)
qed

section \<open>Frames in pieces\<close>

definition listening :: "vdiag \<Rightarrow> bool" where
  "listening s \<longleftrightarrow> running s \<and> g_diag_status s = ENG_DIAG_RECV_TO_AP"

definition idle :: "vdiag \<Rightarrow> bool" where
  "idle s \<longleftrightarrow> listening s \<and> part [] s = s"

lemma init_part: "init_user_diag_buf s = part [] s"
  by (simp add: init_user_diag_buf_def part_def)

definition piece_of :: "round \<Rightarrow> bytes" where
  "piece_of r = read_serial (rd1 r) (rd2 r)"

lemma part_part [simp]: "part x (part y s) = part x s"
  by (simp add: part_def)

lemma get_none: "get_user_diag_buf c s = get_user_diag_buf (c @ []) s"
  by simp

lemma round_middle:
  assumes "listening s" "piece_of r \<noteq> []" "x @ piece_of r = 0x7E # y" "0x7E \<notin> set y" "length (x @ piece_of r) < DATA_EXT_DIAG_SIZE div 2"
  shows "vdiag_round modes (part x s) r = Some (part (x @ piece_of r) s)"
proof -
  have "get_user_diag_buf (piece_of r) (part x s) = Some (False, part (x @ piece_of r) s)"
    using collect [OF assms(3,2,4), of "[]" s] assms(5) by simp
  moreover have "length x + length (piece_of r) \<noteq> 0" using assms(2) by simp
  ultimately show ?thesis
    using assms(1,2,5) unfolding vdiag_round_def route_def piece_of_def [symmetric]
    by (simp add: listening_def)
qed

text \<open>What becomes of a state when the frame \<open>f\<close> has been judged with the result \<open>a\<close>.\<close>

definition judged :: "bytes \<Rightarrow> nat \<times> (cmd \<times> bytes) list \<times> diag \<Rightarrow> vdiag \<Rightarrow> vdiag" where
  "judged f a s =
     (case a of (ret, h, st) \<Rightarrow> s\<lparr>statics := st, handed := handed s @ h, modem := modem s @ (if ret = 1 then [] else f)\<rparr>)"

lemma round_end:
  assumes "idle s" "x @ piece_of r = f" "f = 0x7E # y @ [0x7E]" "piece_of r \<noteq> []" "0x7E \<notin> set y" "length f \<le> DATA_EXT_DIAG_SIZE"
    "length f \<le> length (filter (\<lambda>w. 0 < w) (writes r))"
  shows "vdiag_round modes (part x s) r =
    map_option (\<lambda>a. judged f a s)
      (eng_diag modes (is_data r) (statics s) (f @ replicate (DATA_EXT_DIAG_SIZE - length f) 0) (length f))"
    (is "_ = map_option _ ?e")
proof -
  have g: "get_user_diag_buf (piece_of r) (part x s) = Some (True, part f s)"
    using collect_end [of x "piece_of r" y "[]" s] assms(2-6) by simp
  have st: "g_diag_status s = ENG_DIAG_RECV_TO_AP" "running s" using assms(1) by (simp_all add: idle_def listening_def)
  have p: "init_user_diag_buf ((part f s)\<lparr>statics := st, handed := handed s @ h\<rparr>) = s\<lparr>statics := st, handed := handed s @ h\<rparr>" for st h
  proof -
    have "init_user_diag_buf ((part f s)\<lparr>statics := st, handed := handed s @ h\<rparr>) = (part [] s)\<lparr>statics := st, handed := handed s @ h\<rparr>"
      by (simp add: init_user_diag_buf_def part_def)
    then show ?thesis using assms(1) unfolding idle_def by simp
  qed
  have rt: "route modes (is_data r) (piece_of r) (part x s) =
      map_option (\<lambda>(ret, h, st). (ret = 1, f, s\<lparr>statics := st, handed := handed s @ h\<rparr>)) ?e"
    unfolding route_def part_simps st status.case g bind.bind_lunit prod.case if_True
    by (cases ?e) (auto simp: p)
  have l: "last (piece_of r) = 0x7E" using assms(2-4) by (metis last_appendR last_ConsR last_snoc append_is_Nil_conv not_Cons_self2)
  have nl: "\<not> (length (piece_of r) = 2 \<and> piece_of r ! 1 = 0xA)"
    using l assms(4) by (auto simp: last_conv_nth)
  have w: "modem_write (writes r) f (modem s) = Some (modem s @ f)" using modem_write_all [OF assms(7)] assms(3) by simp
  show ?thesis
    unfolding vdiag_round_def part_simps piece_of_def [symmetric] Let_def rt
    using assms(4) nl w by (cases ?e) (auto simp: st judged_def)
qed

lemma frame_run:
  assumes "idle s" "rs \<noteq> []" "\<forall>r \<in> set rs. piece_of r \<noteq> []" "x @ concat (map piece_of rs) = f" "f = 0x7E # y @ [0x7E]"
    "0x7E \<notin> set y" "length f < DATA_EXT_DIAG_SIZE div 2" "length f \<le> length (filter (\<lambda>w. 0 < w) (writes (last rs)))"
  shows "run_steps (vdiag_round modes) (part x s) rs =
    map_option (\<lambda>a. judged f a s)
      (eng_diag modes (is_data (last rs)) (statics s) (f @ replicate (DATA_EXT_DIAG_SIZE - length f) 0) (length f))"
  using assms(2-8)
proof (induction rs arbitrary: x)
  case (Cons r rs)
  show ?case
  proof (cases "rs = []")
    case True
    have "length f \<le> DATA_EXT_DIAG_SIZE" using Cons.prems(6) by simp
    then have "vdiag_round modes (part x s) r = map_option (\<lambda>a. judged f a s)
        (eng_diag modes (is_data r) (statics s) (f @ replicate (DATA_EXT_DIAG_SIZE - length f) 0) (length f))"
      using Cons.prems True by (intro round_end [OF assms(1), of x r f y]) simp_all
    then show ?thesis using True by simp
  next
    case False
    obtain z where z: "concat (map piece_of rs) = z @ [0x7E]" "x @ piece_of r @ z = 0x7E # y"
    proof -
      have "concat (map piece_of rs) \<noteq> []" using False Cons.prems(2) by (cases rs) auto
      then obtain z c where z: "concat (map piece_of rs) = z @ [c]" by (cases "concat (map piece_of rs)" rule: rev_cases) auto
      then have "(x @ piece_of r @ z) @ [c] = (0x7E # y) @ [0x7E]" using Cons.prems(3,4) by simp
      then show thesis using that [of z] z unfolding append1_eq_conv by simp
    qed
    have ne: "piece_of r \<noteq> []" using Cons.prems(2) by simp
    obtain y' where y': "x @ piece_of r = 0x7E # y'" "0x7E \<notin> set y'"
    proof -
      obtain c d where "x @ piece_of r = c # d" using ne by (cases "x @ piece_of r") auto
      moreover from this have "(c # d) @ z = 0x7E # y" using z(2) by (simp flip: append_assoc)
      ultimately show thesis using Cons.prems(5) that [of d] by auto
    qed
    have "length (x @ piece_of r) < DATA_EXT_DIAG_SIZE div 2" using Cons.prems(3,6) by auto
    then have "vdiag_round modes (part x s) r = Some (part (x @ piece_of r) s)"
      using round_middle [OF _ ne y'] assms(1) by (simp add: idle_def)
    moreover have "run_steps (vdiag_round modes) (part (x @ piece_of r) s) rs = map_option (\<lambda>a. judged f a s)
        (eng_diag modes (is_data (last rs)) (statics s) (f @ replicate (DATA_EXT_DIAG_SIZE - length f) 0) (length f))"
      using Cons.prems False by (intro Cons.IH) simp_all
    ultimately show ?thesis using False by simp
  qed
qed simp

section \<open>Messages\<close>

text \<open>What the frame of a message is judged by: its content, with the closing flag overwritten, and zeros behind it.\<close>

definition judge :: "int \<Rightarrow> int \<Rightarrow> diag \<Rightarrow> bytes \<Rightarrow> (nat \<times> (cmd \<times> bytes) list \<times> diag) option" where
  "judge modes isd st p =
     map_option (dispose isd) (diag_type modes st (0x7E # p @ 0x20 # replicate (DATA_EXT_DIAG_SIZE - length p - 2) 0))"

fun deliver_all :: "int \<Rightarrow> vdiag \<Rightarrow> (bytes \<times> round list) list \<Rightarrow> vdiag option" where
  "deliver_all modes s [] = Some s"
| "deliver_all modes s ((p, rs) # ps) =
     Option.bind (judge modes (is_data (last rs)) (statics s) p) (\<lambda>a. deliver_all modes (judged (translate_packet p) a s) ps)"

fun in_pieces :: "bytes \<times> round list \<Rightarrow> bool" where
  "in_pieces (p, rs) \<longleftrightarrow>
     rs \<noteq> [] \<and> list_all (\<lambda>r. piece_of r \<noteq> []) rs \<and> concat (map piece_of rs) = translate_packet p \<and>
     length (translate_packet p) < DATA_EXT_DIAG_SIZE div 2 \<and>
     length (translate_packet p) \<le> length (filter (\<lambda>w. 0 < w) (writes (last rs)))"

lemma translate_body_flags: "length (translate_body p) = length p + flags p"
  by (induction p) (auto simp: flags_def is_flag_def)

lemma zeros: "0 < n \<Longrightarrow> replicate n x = x # replicate (n - 1) x"
  by (cases n) auto

lemma eng_diag_frame:
  assumes "length (translate_packet p) < DATA_EXT_DIAG_SIZE"
  shows "eng_diag modes isd st (translate_packet p @ replicate (DATA_EXT_DIAG_SIZE - length (translate_packet p)) 0)
      (length (translate_packet p)) = judge modes isd st p"
proof -
  let ?k = "DATA_EXT_DIAG_SIZE - length (translate_packet p)"
  have "replicate ?k (0 :: u8) = 0 # replicate (?k - 1) 0" using assms by (intro zeros) simp
  then have "eng_diag_parse modes st (translate_packet p @ replicate ?k 0) (length (translate_packet p)) =
      diag_type modes st (0x7E # p @ (0 XOR 0x20) # replicate (flags p) 0 @ 0 # replicate (?k - 1) 0)"
    using parse_frame [of modes st p 0 "replicate (?k - 1) 0"] by (simp add: translate_packet_def)
  moreover have "replicate (flags p) 0 @ 0 # replicate (?k - 1) 0 = replicate (DATA_EXT_DIAG_SIZE - length p - 2) (0 :: u8)"
    using assms by (simp add: translate_packet_def translate_body_flags replicate_add [symmetric] flip: replicate_Suc)
  ultimately show ?thesis by (simp add: eng_diag_def judge_def)
qed

lemma message_run:
  assumes "idle s" "in_pieces (p, rs)"
  shows "run_steps (vdiag_round modes) s rs =
    map_option (\<lambda>a. judged (translate_packet p) a s) (judge modes (is_data (last rs)) (statics s) p)"
proof -
  have "run_steps (vdiag_round modes) (part [] s) rs = map_option (\<lambda>a. judged (translate_packet p) a s)
      (eng_diag modes (is_data (last rs)) (statics s)
        (translate_packet p @ replicate (DATA_EXT_DIAG_SIZE - length (translate_packet p)) 0) (length (translate_packet p)))"
    using assms(2) by (intro frame_run [OF assms(1), of _ _ _ "translate_body p"])
      (auto simp: translate_packet_def translate_body_no_flag list_all_iff)
  moreover have "part [] s = s" using assms(1) by (simp add: idle_def)
  moreover have "length (translate_packet p) < DATA_EXT_DIAG_SIZE" using assms(2) by (simp add: DATA_EXT_DIAG_SIZE_def)
  ultimately show ?thesis by (simp only: eng_diag_frame)
qed

lemma judged_idle:
  assumes "idle s"
  shows "idle (judged f a s)"
proof -
  obtain ret h st where a: "a = (ret, h, st)" by (cases a) auto
  have "part [] (judged f a s) = judged f a (part [] s)" by (simp add: a judged_def part_def)
  then have "part [] (judged f a s) = judged f a s" using assms unfolding idle_def by simp
  moreover have "listening (judged f a s)" using assms unfolding idle_def listening_def by (simp add: a judged_def)
  ultimately show ?thesis unfolding idle_def by simp
qed

lemma messages_run:
  assumes "idle s" "list_all in_pieces ps"
  shows "run_steps (vdiag_round modes) s (concat (map snd ps)) = deliver_all modes s ps"
  using assms
proof (induction ps arbitrary: s)
  case (Cons q ps)
  obtain p rs where q: "q = (p, rs)" by (cases q)
  show ?case
    using message_run [OF Cons.prems(1), of p rs modes] Cons.prems(2) Cons.IH [OF judged_idle [OF Cons.prems(1)]]
    by (cases "judge modes (is_data (last rs)) (statics s) p") (auto simp: q run_steps_append)
qed simp

section \<open>What goes wrong\<close>

text \<open>The bytes behind the closing flag in the same read are not looked at.\<close>

lemma rest_lost:
  assumes "x @ c = 0x7E # y @ [0x7E]" "c \<noteq> []" "0x7E \<notin> set y" "length (x @ c) \<le> DATA_EXT_DIAG_SIZE"
  shows "get_user_diag_buf (c @ r) (part x s) = get_user_diag_buf c (part x s)"
proof -
  have "x @ c \<noteq> [0x7E]" using assms(1) by auto
  then show ?thesis
    using collect_end [OF assms(1,2) _ assms(3,4), of r s] collect_end [OF assms(1,2) _ assms(3,4), of "[]" s] by simp
qed

text \<open>A full buffer takes nothing more and is never found complete.\<close>

lemma full_stuck: "ext_buf_len s = DATA_EXT_DIAG_SIZE \<Longrightarrow> get_user_diag_buf c s = Some (False, s)"
  by (induction c) (auto simp: DATA_EXT_DIAG_SIZE_def)

text \<open>Half a buffer of a frame for the modem is forwarded after the escapes have been taken out.\<close>

lemma long_round:
  assumes "idle s" "piece_of r = 0x7E # translate_body p" "DATA_EXT_DIAG_SIZE div 2 \<le> length (piece_of r)" "length (piece_of r) < DATA_EXT_DIAG_SIZE"
    "diag_type modes (statics s) (0x7E # p @ replicate (DATA_EXT_DIAG_SIZE - length p - 1) 0) =
       Some (CMD_COMMON, st, 0x7E # p @ replicate (DATA_EXT_DIAG_SIZE - length p - 1) 0)"
    "length (piece_of r) \<le> length (filter (\<lambda>w. 0 < w) (writes r))"
  shows "vdiag_round modes s r =
    Some (s\<lparr>statics := st, g_diag_status := ENG_DIAG_RECV_TO_CP, modem := modem s @ 0x7E # p @ replicate (flags p) 0\<rparr>)"
proof -
  let ?c = "piece_of r" let ?k = "DATA_EXT_DIAG_SIZE - length (piece_of r)" let ?o = "0x7E # p @ replicate (flags p) 0"
  have s0: "part [] s = s" "g_diag_status s = ENG_DIAG_RECV_TO_AP" "running s" using assms(1) by (simp_all add: idle_def listening_def)
  have g: "get_user_diag_buf ?c s = Some (False, part ?c s)"
    using collect [of "[]" ?c "translate_body p" "[]" s] assms(2,4) s0(1) by (simp add: translate_body_no_flag)
  have lc: "length ?c = 1 + length p + flags p" by (simp add: assms(2) translate_body_flags)
  have m: "p @ replicate (flags p) 0 @ replicate ?k 0 = p @ replicate (DATA_EXT_DIAG_SIZE - length p - 1) (0 :: u8)"
    using assms(4) by (simp add: lc replicate_add [symmetric])
  have z: "replicate ?k 0 \<noteq> []" "hd (replicate ?k 0) = (0 :: u8)" using assms(4) by (simp_all add: zeros)
  have parse: "eng_diag_parse modes (statics s) (?c @ replicate ?k 0) (length ?c) =
      Some (CMD_COMMON, st, 0x7E # p @ replicate (DATA_EXT_DIAG_SIZE - length p - 1) 0)"
    using parse_part [OF z(1), of modes "statics s" p] assms(2,5) m z(2) by simp
  have out: "take (length ?c) (0x7E # p @ replicate (DATA_EXT_DIAG_SIZE - length p - 1) 0) = ?o"
    unfolding m [symmetric] by (simp add: lc)
  have upd: "(init_user_diag_buf ((part ?c s)\<lparr>statics := st\<rparr>))\<lparr>g_diag_status := ENG_DIAG_RECV_TO_CP\<rparr> =
      s\<lparr>statics := st, g_diag_status := ENG_DIAG_RECV_TO_CP\<rparr>"
  proof -
    have "init_user_diag_buf ((part ?c s)\<lparr>statics := st\<rparr>) = (part [] s)\<lparr>statics := st\<rparr>"
      by (simp add: init_user_diag_buf_def part_def)
    then show ?thesis using s0(1) by simp
  qed
  have ne: "length ?c \<noteq> 0" "length ?c \<noteq> 2" "?c \<noteq> []"
    using assms(2,3) by (auto simp: DATA_EXT_DIAG_SIZE_def)
  have rt: "route modes (is_data r) ?c s = Some (False, ?o, s\<lparr>statics := st, g_diag_status := ENG_DIAG_RECV_TO_CP\<rparr>)"
    unfolding route_def s0 status.case g bind.bind_lunit prod.case if_False part_simps parse
    using ne(1) assms(3) out upd by simp
  have w: "modem_write (writes r) ?o (modem s) = Some (modem s @ ?o)"
    using assms(6) lc by (intro modem_write_all) simp_all
  show ?thesis
    unfolding vdiag_round_def piece_of_def [symmetric] Let_def rt using ne(2,3) w s0(3) by (cases s) simp
qed

section \<open>The buffer\<close>

lemma decode_loop_length: "decode_loop i len b = Some b' \<Longrightarrow> length b' = length b"
proof (induction i len b rule: decode_loop.induct)
  case (1 i len b)
  show ?case
    using "1.prems" [unfolded decode_loop.simps [of i]] "1.IH"
    by (auto simp: drop_byte_def bind_eq_Some_conv split: if_splits)
qed

lemma cut_tok_length [simp]: "length (cut_tok t p) = length t"
  by (simp add: cut_tok_def split: option.splits)

lemma audio_length:
  assumes "is_audio_at_cmd_need_to_handle modes s st = Some (b, t, st')"
  shows "length t = length s"
  using assms
  by (auto simp: is_audio_at_cmd_need_to_handle_def audio_sadm_def audio_spenha_def Let_def split: if_splits option.splits prod.splits)

lemma cstr_at_length: "cstr_at off m = Some s \<Longrightarrow> off + length s \<le> length m"
proof -
  assume a: "cstr_at off m = Some s"
  then have "0 \<in> set (drop off m)" by (simp add: cstr_at_def split: if_splits)
  then have "off < length m" by (cases "off < length m") auto
  moreover have "length s \<le> length (drop off m)" using a length_takeWhile_le [of "\<lambda>b. b \<noteq> 0" "drop off m"] by (auto simp: cstr_at_def text_of_def split: if_splits)
  ultimately show ?thesis by simp
qed

lemma put_str_length: "off + length s \<le> length m \<Longrightarrow> length (put_str off s m) = length m"
  by (simp add: put_str_def bytes_of_def)

lemma at_cmd_length:
  assumes "at_cmd modes st m = Some (c, st', m')"
  shows "length m' = length m"
proof -
  obtain s audio t st1 where s: "cstr_at 9 m = Some s" "is_audio_at_cmd_need_to_handle modes s st = Some (audio, t, st1)"
      and m: "m' = put_str 9 t m"
    using assms by (auto simp: at_cmd_def is_ap_at_cmd_need_to_handle_def bind_eq_Some_conv Let_def split: if_splits)
  have "length t = length s" by (rule audio_length [OF s(2)])
  then show ?thesis using cstr_at_length [OF s(1)] unfolding m by (intro put_str_length) simp
qed

lemma diag_type_length: "diag_type modes st m = Some (c, st', m') \<Longrightarrow> length m' = length m"
  using at_cmd_length [of modes st m] by (auto simp: diag_type_def bind_eq_Some_conv split: if_splits)

lemma parse_length:
  assumes "eng_diag_parse modes st m len = Some (c, st', m')"
  shows "length m' = length m"
proof -
  obtain b where b: "decode_loop 0 (len - 1) (drop 1 m) = Some b" "diag_type modes st (take 1 m @ b) = Some (c, st', m')"
    using assms by (auto simp: eng_diag_parse_def eng_diag_decode7d7e_def bind_eq_Some_conv)
  have "length b = length (drop 1 m)" by (rule decode_loop_length [OF b(1)])
  then have "length (take 1 m @ b) = length m" by simp
  then show ?thesis using diag_type_length [OF b(2)] by simp
qed

text \<open>A frame without escapes that fills the buffer to the last byte: the closing flag is taken for an escape and the byte
  behind the buffer is read.\<close>

lemma decode_overruns:
  "i \<le> length y \<Longrightarrow> list_all (\<lambda>c. \<not> is_flag c) y \<Longrightarrow> decode_loop i (length y + 1) (y @ [0x7E]) = None"
proof (induction "length y - i" arbitrary: i)
  case 0
  then show ?case by (subst decode_loop.simps) (auto simp: is_flag_def nth_append)
next
  case (Suc n)
  then have "i < length y" "decode_loop (i + 1) (length y + 1) (y @ [0x7E]) = None" by simp_all
  then show ?case using Suc.prems(2) by (subst decode_loop.simps) (simp add: nth_append list_all_length)
qed

lemma full_frame_overruns:
  assumes "list_all (\<lambda>c. \<not> is_flag c) y"
  shows "eng_diag_parse modes st (0x7E # y @ [0x7E]) (length y + 2) = None"
  using decode_overruns [of 0 y] assms by (simp add: eng_diag_parse_def eng_diag_decode7d7e_def)

definition buffer_ok :: "vdiag \<Rightarrow> bool" where
  "buffer_ok s \<longleftrightarrow> length (ext_data_buf s) = DATA_EXT_DIAG_SIZE \<and> ext_buf_len s \<le> DATA_EXT_DIAG_SIZE"

lemma put_buffer_ok:
  assumes "buffer_ok s" "ext_buf_len s < DATA_EXT_DIAG_SIZE"
  shows "\<exists>s1. put_ext c s = Some s1 \<and> buffer_ok s1"
  using assms by (simp add: buffer_ok_def put_ext_def)

text \<open>Collecting never stores outside of the buffer.\<close>

lemma get_buffer_ok: "buffer_ok s \<Longrightarrow> \<exists>b s1. get_user_diag_buf c s = Some (b, s1) \<and> buffer_ok s1"
proof (induction c arbitrary: s)
  case (Cons c buf)
  show ?case
  proof (cases "ext_buf_len s < DATA_EXT_DIAG_SIZE")
    case True
    then obtain s1 where "put_ext c s = Some s1" "buffer_ok s1" using put_buffer_ok [OF Cons.prems] by blast
    then show ?thesis using Cons by auto
  next
    case False
    moreover have "0 < DATA_EXT_DIAG_SIZE" by (simp add: DATA_EXT_DIAG_SIZE_def)
    ultimately show ?thesis using Cons by auto
  qed
qed auto

lemma decode_loop_defined: "len < length b \<Longrightarrow> \<exists>b'. decode_loop i len b = Some b'"
proof (induction i len b rule: decode_loop.induct)
  case (1 i len b)
  show ?case
    using 1 by (subst decode_loop.simps) (auto simp: drop_byte_def)
qed

lemma decode_buffer:
  assumes "buffer_ok s" "ext_buf_len s < DATA_EXT_DIAG_SIZE"
  shows "\<exists>b. eng_diag_decode7d7e (drop 1 (ext_data_buf s)) (ext_buf_len s - 1) = Some b \<and> length b + 1 = DATA_EXT_DIAG_SIZE"
proof -
  have l: "length (drop 1 (ext_data_buf s)) + 1 = DATA_EXT_DIAG_SIZE" using assms by (simp add: buffer_ok_def)
  have "ext_buf_len s - 1 < length (drop 1 (ext_data_buf s))"
    using assms by (simp add: buffer_ok_def DATA_EXT_DIAG_SIZE_def)
  then obtain b where "decode_loop 0 (ext_buf_len s - 1) (drop 1 (ext_data_buf s)) = Some b"
    using decode_loop_defined by blast
  then show ?thesis using decode_loop_length l by (auto simp: eng_diag_decode7d7e_def)
qed

lemma init_buffer_ok: "buffer_ok (init_user_diag_buf s)"
  by (simp add: buffer_ok_def init_user_diag_buf_def)

lemma buffer_ok_cong:
  "ext_data_buf s' = ext_data_buf s \<Longrightarrow> ext_buf_len s' = ext_buf_len s \<Longrightarrow> buffer_ok s' = buffer_ok s"
  by (simp add: buffer_ok_def)

lemma route_buffer_ok:
  assumes "buffer_ok s" "route modes isd data s = Some (p, out, s')"
  shows "buffer_ok s'"
proof (cases "g_diag_status s")
  case ENG_DIAG_RECV_TO_CP
  then show ?thesis using assms by (auto simp: route_def buffer_ok_def)
next
  case ENG_DIAG_RECV_TO_AP
  obtain b s1 where g: "get_user_diag_buf data s = Some (b, s1)" and ok: "buffer_ok s1"
    using get_buffer_ok [OF assms(1), of data] by blast
  have i: "buffer_ok (init_user_diag_buf (s1\<lparr>statics := st\<rparr>)\<lparr>g_diag_status := z\<rparr>)" for st z
    using init_buffer_ok [of "s1\<lparr>statics := st\<rparr>"] by (simp add: buffer_ok_def)
  have m: "buffer_ok (s1\<lparr>statics := st, ext_data_buf := m\<rparr>)"
    if "eng_diag_parse modes (statics s1) (ext_data_buf s1) (ext_buf_len s1) = Some (ty, st, m)" for ty st m
    using ok parse_length [OF that] by (simp add: buffer_ok_def)
  show ?thesis
    using assms(2) ENG_DIAG_RECV_TO_AP g ok i m init_buffer_ok
    by (auto simp: route_def bind_eq_Some_conv split: if_splits)
qed

lemma round_buffer_ok:
  assumes "buffer_ok s" "vdiag_round modes s r = Some s'"
  shows "buffer_ok s'"
proof -
  have "(ext_data_buf s' = ext_data_buf s \<and> ext_buf_len s' = ext_buf_len s) \<or>
      (\<exists>p out s1. route modes (is_data r) (piece_of r) s = Some (p, out, s1) \<and>
        ext_data_buf s' = ext_data_buf s1 \<and> ext_buf_len s' = ext_buf_len s1)"
    using assms(2) unfolding vdiag_round_def piece_of_def [symmetric] by (auto simp: bind_eq_Some_conv Let_def split: if_splits)
  then show ?thesis
    using assms(1) route_buffer_ok [OF assms(1)] buffer_ok_cong by blast
qed

interpretation vd: invariant_machine "vdiag_round modes" buffer_ok
  by unfold_locales (rule round_buffer_ok)

section \<open>Properties\<close>

text \<open>C14: frames shorter than half the buffer that arrive one after the other, each cut into any pieces none of which holds
  the end of one frame and the start of the next, are judged by the content of their message alone: a message goes to its
  handler, or its frame goes to the modem byte for byte, or both, in the order of arrival and whatever the sizes of the
  writes.\<close>

theorem messages_delivered:
  assumes "idle s" "list_all in_pieces ps"
  shows "run_steps (vdiag_round modes) s (concat (map snd ps)) = deliver_all modes s ps"
  by (rule messages_run [OF assms])

definition start_vdiag :: vdiag where
  "start_vdiag =
     \<lparr>ext_data_buf = replicate DATA_EXT_DIAG_SIZE 0, ext_buf_len = 0, g_diag_status = ENG_DIAG_RECV_TO_AP,
      statics = start_statics, g_ass_start = False, handed = [], modem = [], running = True\<rparr>"

lemma start_idle: "idle start_vdiag"
  by (simp add: idle_def listening_def start_vdiag_def part_def)

definition got :: "bytes \<Rightarrow> int list \<Rightarrow> round" where
  "got b ws = \<lparr>rd1 = RData b, rd2 = RErr, ports = [], is_data = 0, writes = ws\<rparr>"

lemma piece_of_got: "length b < 8192 \<Longrightarrow> piece_of (got b ws) = b"
  by (simp add: piece_of_def got_def read_serial_def DATA_BUF_SIZE_def)

lemma got_simps [simp]: "writes (got b ws) = ws" "is_data (got b ws) = 0"
  by (simp_all add: got_def)

lemma start_simps [simp]: "statics start_vdiag = start_statics" "handed start_vdiag = []" "modem start_vdiag = []"
  by (simp_all add: start_vdiag_def)

theorem messages_delivered_witness:
  "map_option modem (run_steps (vdiag_round 4) start_vdiag
     [got [0x7E, 1, 0, 0, 0] [], got [8, 0, 0x7D, 0x5E, 3] [], got [0x7E] [-1, 1, 1, 2, 1, 1, 1, 1, 1, 1, 1, 1]]) =
   Some [0x7E, 1, 0, 0, 0, 8, 0, 0x7D, 0x5E, 3, 0x7E]"
proof -
  let ?p = "[1, 0, 0, 0, 8, 0, 0x7E, 3]"
  let ?rs = "[got [0x7E, 1, 0, 0, 0] [], got [8, 0, 0x7D, 0x5E, 3] [], got [0x7E] [-1, 1, 1, 2, 1, 1, 1, 1, 1, 1, 1, 1]]"
  have "in_pieces (?p, ?rs)"
    by (simp add: piece_of_got translate_packet_def DATA_EXT_DIAG_SIZE_def)
  then have "run_steps (vdiag_round 4) start_vdiag ?rs = deliver_all 4 start_vdiag [(?p, ?rs)]"
    using messages_delivered [OF start_idle, of "[(?p, ?rs)]" 4] by (simp del: in_pieces.simps)
  moreover have "judge 4 0 start_statics ?p = Some (0, [], start_statics)"
    by (simp add: judge_def diag_type_def head_byte_def)
  ultimately show ?thesis by (simp add: judged_def translate_packet_def del: run_steps.simps)
qed

text \<open>C29: no byte is ever stored outside of the 16384 bytes of the thread's buffer. In every state that any
  sequence of rounds leads to, collecting whatever is read next is defined, a store outside of the buffer being undefined;
  afterwards the buffer has its size and the count lies within it, so that the copies of the collected bytes are within it too.
  As long as the count is less than the size, the decoding in place that follows is defined as well and keeps the size. Not
  covered are the decoding of a buffer filled to its last byte, which reads the byte behind it (\<open>full_frame_overruns\<close>), and what
  the parser reads of the decoded frame.\<close>

theorem vdiag_bounded:
  assumes "buffer_ok s" "run_steps (vdiag_round modes) s rs = Some s'"
  shows "\<exists>is_find s1. get_user_diag_buf data s' = Some (is_find, s1) \<and>
    length (ext_data_buf s1) = DATA_EXT_DIAG_SIZE \<and> ext_buf_len s1 \<le> DATA_EXT_DIAG_SIZE \<and>
    (ext_buf_len s1 < DATA_EXT_DIAG_SIZE \<longrightarrow>
       (\<exists>b. eng_diag_decode7d7e (drop 1 (ext_data_buf s1)) (ext_buf_len s1 - 1) = Some b \<and> length b + 1 = DATA_EXT_DIAG_SIZE))"
proof -
  obtain is_find s1 where g: "get_user_diag_buf data s' = Some (is_find, s1)" "buffer_ok s1"
    using get_buffer_ok [OF vd.inv_run [OF assms]] by blast
  then show ?thesis using decode_buffer [OF g(2)] by (simp add: buffer_ok_def)
qed

theorem vdiag_bounded_witness:
  "\<exists>s'. run_steps (vdiag_round 4) start_vdiag [got [0x7E, 1, 2] []] = Some s' \<and>
     (\<exists>is_find s1. get_user_diag_buf [3, 0x7E] s' = Some (is_find, s1) \<and>
       length (ext_data_buf s1) = DATA_EXT_DIAG_SIZE \<and> ext_buf_len s1 \<le> DATA_EXT_DIAG_SIZE)"
proof -
  have l: "listening start_vdiag" "part [] start_vdiag = start_vdiag" using start_idle by (simp_all add: idle_def)
  have "vdiag_round 4 (part [] start_vdiag) (got [0x7E, 1, 2] []) = Some (part ([] @ piece_of (got [0x7E, 1, 2] [])) start_vdiag)"
    by (rule round_middle [OF l(1), of _ _ "[1, 2]"]) (simp_all add: piece_of_got DATA_EXT_DIAG_SIZE_def)
  then have r: "run_steps (vdiag_round 4) start_vdiag [got [0x7E, 1, 2] []] = Some (part [0x7E, 1, 2] start_vdiag)"
    by (simp add: l(2) piece_of_got)
  moreover have "buffer_ok start_vdiag" by (simp add: buffer_ok_def start_vdiag_def)
  ultimately show ?thesis using vdiag_bounded [OF _ r, of "[3, 0x7E]"] by blast
qed

lemma shifted: "a \<noteq> 0 \<Longrightarrow> \<not> is_flag a \<Longrightarrow> q @ replicate n 0 \<noteq> a # translate_body q"
proof (induction q)
  case Nil
  then show ?case by (cases n) auto
next
  case (Cons b q)
  then show ?case by (auto simp: translate_body_plain simp del: translate_body.simps(2))
qed

lemma unescaped_same: "p @ replicate n 0 = translate_body p \<longleftrightarrow> n = 0 \<and> flags p = 0"
proof (induction p)
  case (Cons c p)
  show ?case
  proof (cases "is_flag c")
    case True
    have "p @ replicate n 0 \<noteq> 0x5D # translate_body p" by (rule shifted) (simp_all add: is_flag_def)
    then show ?thesis using True by (auto simp: is_flag_def flags_def)
  next
    case False
    then show ?thesis using Cons by (auto simp: translate_body_plain flags_def simp del: translate_body.simps(2))
  qed
qed (auto simp: flags_def)

text \<open>C24: the first half buffer of a longer frame for the modem is forwarded with its escapes already taken out and filled
  up with as many zeros, while the rest of the frame follows as it arrives: unless the part holds no escape, the
  modem does not get the frame that was sent.\<close>

theorem long_frame_altered:
  assumes "idle s" "piece_of r = 0x7E # translate_body p" "DATA_EXT_DIAG_SIZE div 2 \<le> length (piece_of r)" "length (piece_of r) < DATA_EXT_DIAG_SIZE"
    "diag_type modes (statics s) (0x7E # p @ replicate (DATA_EXT_DIAG_SIZE - length p - 1) 0) =
       Some (CMD_COMMON, st, 0x7E # p @ replicate (DATA_EXT_DIAG_SIZE - length p - 1) 0)"
    "length (piece_of r) \<le> length (filter (\<lambda>w. 0 < w) (writes r))"
  shows "map_option modem (vdiag_round modes s r) = Some (modem s @ 0x7E # p @ replicate (flags p) 0) \<and>
    (0x7E # p @ replicate (flags p) 0 = piece_of r \<longleftrightarrow> flags p = 0)"
  using long_round [OF assms] assms(2) unescaped_same [of p "flags p"] by simp

definition long_msg :: bytes where
  "long_msg = [1, 0, 0, 0, 8, 0, 0x7E, 3] @ replicate 9000 1"

lemma long_translate: "translate_body (replicate n 1) = replicate n 1"
  by (induction n) simp_all

theorem long_frame_altered_witness:
  "\<exists>r. piece_of r = 0x7E # translate_body long_msg \<and>
     map_option modem (vdiag_round 4 start_vdiag r) = Some (0x7E # long_msg @ [0]) \<and> 0x7E # long_msg @ [0] \<noteq> piece_of r"
proof -
  let ?c = "0x7E # [1, 0, 0, 0, 8, 0, 0x7D, 0x5E, 3] @ replicate 9000 1"
  let ?r = "\<lparr>rd1 = RData (take 8192 ?c), rd2 = RData (drop 8192 ?c), ports = [], is_data = 0, writes = replicate 9010 1\<rparr>"
  have f: "flags long_msg = 1" by (simp add: long_msg_def flags_def is_flag_def)
  have c: "piece_of ?r = 0x7E # translate_body long_msg"
    by (simp add: piece_of_def read_serial_def DATA_BUF_SIZE_def long_msg_def translate_body_append long_translate flip: replicate_add)
  have l: "length (piece_of ?r) = 9010" unfolding c by (simp add: translate_body_flags f) (simp add: long_msg_def)
  have m: "diag_type 4 (statics start_vdiag) (0x7E # long_msg @ replicate (DATA_EXT_DIAG_SIZE - length long_msg - 1) 0) =
      Some (CMD_COMMON, start_statics, 0x7E # long_msg @ replicate (DATA_EXT_DIAG_SIZE - length long_msg - 1) 0)"
    by (simp add: diag_type_def head_byte_def long_msg_def)
  have "map_option modem (vdiag_round 4 start_vdiag ?r) = Some (modem start_vdiag @ 0x7E # long_msg @ replicate (flags long_msg) 0) \<and>
      (0x7E # long_msg @ replicate (flags long_msg) 0 = piece_of ?r \<longleftrightarrow> flags long_msg = 0)"
    using long_frame_altered [OF start_idle c _ _ m] l by (simp add: DATA_EXT_DIAG_SIZE_def)
  then show ?thesis using c by (intro exI [of _ ?r]) (simp add: f)
qed

end
