(* ===== verification/Nv_Fs.thy ===== *)
theory Nv_Fs
  imports Checksums Posix_Io
begin

unbundle bit_operations_syntax

text \<open>
  \<open>apps/nvitem/nvitem_fs.c\<close>: the two image files of a partition of the modem's non-volatile
  memory. Each holds a header sector (magic, length, checksum, version) and the data; the
  writer writes both, the reader takes the first that verifies and repairs the other.

  The file system is the record \<open>disk\<close>: the contents of the files, which paths can be
  opened, and the outcomes of the coming \<open>read\<close> and \<open>write\<close> calls as in \<open>Posix_Io\<close>. The build is
  the one without \<open>CONFIG_NAND_UBI_VOL\<close>, whose \<open>ioctl\<close> before a write is left out.
\<close>

section \<open>Files\<close>

record disk =
  files :: "string \<Rightarrow> bytes option"
  openable :: "string \<Rightarrow> bool"
  rd_out :: "int list"
  wr_out :: "int list"

text \<open>\<open>open(name, O_RDWR)\<close>: a channel on the contents.\<close>

definition open_rd :: "string \<Rightarrow> disk \<Rightarrow> chan option" where
  "open_rd name d =
     (if openable d name
      then map_option (\<lambda>cs. \<lparr>rx = cs, tx = [], rd_sched = rd_out d, wr_sched = wr_out d\<rparr>) (files d name)
      else None)"

text \<open>\<open>open(name, O_RDWR | O_CREAT | O_TRUNC)\<close>, the two writes, \<open>close\<close>: the file then holds
  what the writes accepted. The result has the values returned by the writes.\<close>

definition rewrite_file :: "string \<Rightarrow> bytes \<Rightarrow> bytes \<Rightarrow> disk \<Rightarrow> (int \<times> int \<times> disk) option" where
  "rewrite_file name a b d =
     do { (r1, c) \<leftarrow> sys_write a \<lparr>rx = [], tx = [], rd_sched = rd_out d, wr_sched = wr_out d\<rparr>;
          (r2, c) \<leftarrow> sys_write b c;
          Some (r1, r2, d\<lparr>files := (files d)(name \<mapsto> tx c), wr_out := wr_sched c\<rparr>) }"

section \<open>Configuration\<close>

definition RAMNV_NUM :: nat where "RAMNV_NUM = 15"
definition RAMNV_SECT_SIZE :: nat where "RAMNV_SECT_SIZE = 512"
definition NV_HEAD_MAGIC :: u32 where "NV_HEAD_MAGIC = 0x00004e56"
definition NV_VERSION :: u32 where "NV_VERSION = 101"

record RAM_NV_CONFIG =
  partId :: u32
  image_path :: string
  imageBak_path :: string
  image_size :: u32

definition empty_config :: RAM_NV_CONFIG where
  "empty_config = \<lparr>partId = 0, image_path = [], imageBak_path = [], image_size = 0\<rparr>"

definition default_config :: "RAM_NV_CONFIG list" where
  "default_config =
     [\<lparr>partId = 1, image_path = ''/fixnv/fixnv.bin'', imageBak_path = [], image_size = 0x20000\<rparr>,
      \<lparr>partId = 2, image_path = ''/runtimenv/runtimenv.bin'', imageBak_path = [], image_size = 0x40000\<rparr>] @
     replicate (RAMNV_NUM + 1 - 2) empty_config"

text \<open>\<open>ramDisk_Init\<close> fills the table from the paths and sizes set up by \<open>main\<close>. The paths are
  strings in arrays of 100 characters.\<close>

definition ramDisk_Init ::
  "string \<Rightarrow> string \<Rightarrow> u32 \<Rightarrow> string \<Rightarrow> string \<Rightarrow> u32 \<Rightarrow> RAM_NV_CONFIG list" where
  "ramDisk_Init fixnv_ori_path fixnv_bak_path fixnv_size runnv_ori_path runnv_bak_path runnv_size =
     (if 100 < length fixnv_ori_path \<or> 100 < length fixnv_bak_path \<or>
         100 < length runnv_ori_path \<or> 100 < length runnv_bak_path
      then default_config
      else [\<lparr>partId = 1, image_path = fixnv_ori_path, imageBak_path = fixnv_bak_path, image_size = fixnv_size\<rparr>,
            \<lparr>partId = 2, image_path = runnv_ori_path, imageBak_path = runnv_bak_path, image_size = runnv_size\<rparr>] @
           replicate (RAMNV_NUM + 1 - 2) empty_config)"

definition ramDisk_Open :: "u32 \<Rightarrow> u32" where
  "ramDisk_Open part = part"

fun getIdx :: "RAM_NV_CONFIG list \<Rightarrow> u32 \<Rightarrow> nat option" where
  "getIdx [] handle = None"
| "getIdx (c # cs) handle =
     (if partId c = 0 then None
      else if handle = partId c then Some 0
      else map_option Suc (getIdx cs handle))"

section \<open>Reading and writing a partition\<close>

definition chkNVEcc :: "bytes \<Rightarrow> u16 \<Rightarrow> bool" where
  "chkNVEcc buf checksum \<longleftrightarrow> nv_calc_checksum buf = checksum"

text \<open>The checksum field of the header, cut to 16 bits by the parameter of \<open>_chkNVEcc\<close>.\<close>

definition header_checksum :: "bytes \<Rightarrow> u16" where
  "header_checksum header = le16 (header ! 8) (header ! 9)"

text \<open>The two reads of an image: into the cleared header, then into the buffer of 0xFF bytes.
  The result has the values returned, the header, the buffer and the disk.\<close>

definition read_image :: "chan \<Rightarrow> nat \<Rightarrow> disk \<Rightarrow> (int \<times> int \<times> bytes \<times> bytes \<times> disk) option" where
  "read_image c n d =
     do { (ret1, h, c) \<leftarrow> sys_read RAMNV_SECT_SIZE c;
          (ret2, b, c) \<leftarrow> sys_read n c;
          Some (ret1, ret2, h @ drop (length h) (replicate RAMNV_SECT_SIZE 0),
                b @ drop (length b) (replicate n 0xFF), d\<lparr>rd_out := rd_sched c\<rparr>) }"

text \<open>
  \<open>ramDisk_Read\<close>; \<open>order\<close> is the value of \<open>rand()%2\<close> that decides which file comes first.
  \<open>ret2\<close> keeps its value from the first file when the second cannot be opened. Every outcome
  but an unknown handle is reported as success.
\<close>

definition ramDisk_Read ::
  "RAM_NV_CONFIG list \<Rightarrow> bool \<Rightarrow> u32 \<Rightarrow> nat \<Rightarrow> bytes \<Rightarrow> disk \<Rightarrow> (bool \<times> bytes \<times> disk) option" where
  "ramDisk_Read cfg order handle n buf d =
     (case getIdx cfg handle of
        None \<Rightarrow> Some (False, buf, d)
      | Some idx \<Rightarrow>
          (let e = cfg ! idx;
               firstName = (if order then image_path e else imageBak_path e);
               secondName = (if order then imageBak_path e else image_path e)
           in do { (good, ret2, b, d) \<leftarrow>
                     (case open_rd firstName d of
                        None \<Rightarrow> Some (False, 0, replicate n 0xFF, d)
                      | Some c \<Rightarrow>
                          do { (r1, r2, h, b, d) \<leftarrow> read_image c n d;
                               Some (r1 = int RAMNV_SECT_SIZE \<and> r2 = int n \<and> chkNVEcc b (header_checksum h),
                                     r2, b, d) });
                   (if good then Some (True, b, d)
                    else do { (r1, r2, h, b, d) \<leftarrow>
                                (case open_rd secondName d of
                                   None \<Rightarrow> Some (int RAMNV_SECT_SIZE, ret2, replicate RAMNV_SECT_SIZE 0,
                                                 replicate n 0xFF, d)
                                 | Some c \<Rightarrow> read_image c n d);
                              (if r1 \<noteq> int RAMNV_SECT_SIZE \<or> r2 \<noteq> int n \<or> \<not> chkNVEcc b (header_checksum h)
                               then Some (True, b, d)
                               else if openable d firstName
                               then do { (w1, w2, d) \<leftarrow> rewrite_file firstName h b d; Some (True, b, d) }
                               else Some (True, b, d)) }) }))"

text \<open>The header sector that \<open>ramDisk_Write\<close> puts before the data.\<close>

definition nv_header :: "bytes \<Rightarrow> bytes" where
  "nv_header buf =
     to_le32 NV_HEAD_MAGIC @ to_le32 (word_of_nat (length buf)) @
     to_le32 (ucast (nv_calc_checksum buf)) @ to_le32 NV_VERSION @
     replicate (RAMNV_SECT_SIZE - 16) 0"

definition write_image :: "string \<Rightarrow> bytes \<Rightarrow> disk \<Rightarrow> (bool \<times> disk) option" where
  "write_image name buf d =
     (if openable d name
      then do { (w1, w2, d) \<leftarrow> rewrite_file name (nv_header buf) buf d;
                Some (w1 = int RAMNV_SECT_SIZE \<and> w2 = int (length buf), d) }
      else Some (True, d))"

definition ramDisk_Write ::
  "RAM_NV_CONFIG list \<Rightarrow> u32 \<Rightarrow> bytes \<Rightarrow> disk \<Rightarrow> (bool \<times> disk) option" where
  "ramDisk_Write cfg handle buf d =
     (case getIdx cfg handle of
        None \<Rightarrow> Some (False, d)
      | Some idx \<Rightarrow>
          do { (ok1, d) \<leftarrow> write_image (imageBak_path (cfg ! idx)) buf d;
               (ok2, d) \<leftarrow> write_image (image_path (cfg ! idx)) buf d;
               Some (ok1 \<and> ok2, d) })"

section \<open>Images that verify\<close>

definition nv_image :: "bytes \<Rightarrow> bytes" where
  "nv_image buf = nv_header buf @ buf"

lemma length_nv_header [simp]: "length (nv_header buf) = RAMNV_SECT_SIZE"
  by (simp add: nv_header_def RAMNV_SECT_SIZE_def)

lemma header_checksum_nv_header: "header_checksum (nv_header buf) = nv_calc_checksum buf"
proof -
  let ?c = "nv_calc_checksum buf"
  have "nv_header buf ! 8 = to_le32 (ucast ?c) ! 0" "nv_header buf ! 9 = to_le32 (ucast ?c) ! 1"
    by (simp_all add: nv_header_def nth_append)
  moreover have "le16 (to_le32 (ucast ?c) ! 0) (to_le32 (ucast ?c) ! 1) = ?c"
    by (rule bit_word_eqI) (auto simp: le16_def to_le32_def bit_simps)
  ultimately show ?thesis by (simp add: header_checksum_def)
qed

text \<open>Reads and writes that move everything.\<close>

definition steady :: "nat \<Rightarrow> nat \<Rightarrow> disk \<Rightarrow> bool" where
  "steady m k d \<longleftrightarrow>
     (\<forall>r \<in> set (rd_out d). int m \<le> r) \<and> (\<forall>w \<in> set (wr_out d). int m \<le> w) \<and>
     k \<le> length (rd_out d) \<and> k \<le> length (wr_out d)"

lemma read_image_whole:
  assumes "rd_sched c = r1 # r2 # rs" "int RAMNV_SECT_SIZE \<le> r1" "int n \<le> r2" "rx c = h @ b @ rest"
    "length h = RAMNV_SECT_SIZE" "length b = n"
  shows "read_image c n d = Some (int RAMNV_SECT_SIZE, int n, h, b, d\<lparr>rd_out := rs\<rparr>)"
proof -
  have 1: "sys_read RAMNV_SECT_SIZE c = Some (int RAMNV_SECT_SIZE, h, c\<lparr>rd_sched := r2 # rs, rx := b @ rest\<rparr>)"
    using sys_read_full [OF assms(1,2)] assms(4,5) by simp
  have 2: "sys_read n (c\<lparr>rd_sched := r2 # rs, rx := b @ rest\<rparr>) =
      Some (int n, b, c\<lparr>rd_sched := rs, rx := rest\<rparr>)"
    using sys_read_full [of "c\<lparr>rd_sched := r2 # rs, rx := b @ rest\<rparr>" r2 rs n] assms(3,6) by simp
  show ?thesis using assms(5,6) by (simp add: read_image_def 1 2)
qed

lemma rewrite_file_whole:
  assumes "wr_out d = w1 # w2 # ws" "int (length a) \<le> w1" "int (length b) \<le> w2"
  shows "rewrite_file name a b d =
    Some (int (length a), int (length b), d\<lparr>files := (files d)(name \<mapsto> a @ b), wr_out := ws\<rparr>)"
proof -
  let ?c = "\<lparr>rx = [], tx = [], rd_sched = rd_out d, wr_sched = wr_out d\<rparr>"
  have 1: "sys_write a ?c = Some (int (length a), ?c\<lparr>wr_sched := w2 # ws, tx := a\<rparr>)"
    using sys_write_full [of ?c w1 "w2 # ws" a] assms(1,2) by simp
  have 2: "sys_write b (?c\<lparr>wr_sched := w2 # ws, tx := a\<rparr>) =
      Some (int (length b), ?c\<lparr>wr_sched := ws, tx := a @ b\<rparr>)"
    using sys_write_full [of "?c\<lparr>wr_sched := w2 # ws, tx := a\<rparr>" w2 ws b] assms(3) by simp
  show ?thesis using 1 2 by (simp add: rewrite_file_def)
qed

lemma steady_rdE:
  assumes "steady m (Suc (Suc k)) d"
  obtains r1 r2 rs where "rd_out d = r1 # r2 # rs" "int m \<le> r1" "int m \<le> r2" "\<forall>r \<in> set rs. int m \<le> r" "k \<le> length rs"
proof -
  obtain r1 rs1 where 1: "rd_out d = r1 # rs1" using assms by (cases "rd_out d") (auto simp: steady_def)
  obtain r2 rs where "rs1 = r2 # rs" using assms 1 by (cases rs1) (auto simp: steady_def)
  then show ?thesis using that 1 assms by (auto simp: steady_def)
qed

lemma steady_wrE:
  assumes "steady m (Suc (Suc k)) d"
  obtains w1 w2 ws where "wr_out d = w1 # w2 # ws" "int m \<le> w1" "int m \<le> w2" "\<forall>w \<in> set ws. int m \<le> w" "k \<le> length ws"
proof -
  obtain w1 ws1 where 1: "wr_out d = w1 # ws1" using assms by (cases "wr_out d") (auto simp: steady_def)
  obtain w2 ws where "ws1 = w2 # ws" using assms 1 by (cases ws1) (auto simp: steady_def)
  then show ?thesis using that 1 assms by (auto simp: steady_def)
qed

text \<open>Reading an image file that verifies.\<close>

lemma read_good_image:
  assumes "steady (n + RAMNV_SECT_SIZE) (Suc (Suc k)) d" "openable d name" "files d name = Some (nv_image buf @ rest)" "length buf = n"
  shows "\<exists>c d'. open_rd name d = Some c \<and> read_image c n d = Some (int RAMNV_SECT_SIZE, int n, nv_header buf, buf, d') \<and>
    chkNVEcc buf (header_checksum (nv_header buf)) \<and> files d' = files d \<and> openable d' = openable d \<and>
    wr_out d' = wr_out d \<and> steady (n + RAMNV_SECT_SIZE) k d'"
proof -
  obtain r1 r2 rs where r: "rd_out d = r1 # r2 # rs" "int (n + RAMNV_SECT_SIZE) \<le> r1" "int (n + RAMNV_SECT_SIZE) \<le> r2"
    "\<forall>r \<in> set rs. int (n + RAMNV_SECT_SIZE) \<le> r" "k \<le> length rs"
    using steady_rdE [OF assms(1)] by blast
  let ?c = "\<lparr>rx = nv_image buf @ rest, tx = [], rd_sched = rd_out d, wr_sched = wr_out d\<rparr>"
  have "open_rd name d = Some ?c" using assms(2,3) by (simp add: open_rd_def)
  moreover have "read_image ?c n d = Some (int RAMNV_SECT_SIZE, int n, nv_header buf, buf, d\<lparr>rd_out := rs\<rparr>)"
    using r assms(4) by (intro read_image_whole [where ?r1.0 = r1 and ?r2.0 = r2 and rest = rest]) (simp_all add: nv_image_def)
  moreover have "steady (n + RAMNV_SECT_SIZE) k (d\<lparr>rd_out := rs\<rparr>)"
    using r assms(1) by (auto simp: steady_def)
  ultimately show ?thesis by (auto simp: chkNVEcc_def header_checksum_nv_header)
qed


text \<open>On a steady disk the reader accepts exactly the files that verify.\<close>

definition verifies :: "nat \<Rightarrow> bytes \<Rightarrow> bool" where
  "verifies n cs \<longleftrightarrow> RAMNV_SECT_SIZE + n \<le> length cs \<and>
     chkNVEcc (take n (drop RAMNV_SECT_SIZE cs)) (header_checksum (take RAMNV_SECT_SIZE cs))"

definition bad_file :: "nat \<Rightarrow> string \<Rightarrow> disk \<Rightarrow> bool" where
  "bad_file n name d \<longleftrightarrow> \<not> openable d name \<or> (case files d name of None \<Rightarrow> True | Some cs \<Rightarrow> \<not> verifies n cs)"

lemma sys_read_steady:
  assumes "rd_sched c = r # rs" "int n \<le> r"
  shows "sys_read n c = Some (int (min n (length (rx c))), take n (rx c), c\<lparr>rd_sched := rs, rx := drop n (rx c)\<rparr>)"
proof -
  have "min (nat r) (min n (length (rx c))) = min n (length (rx c))" using assms(2) by simp
  moreover have "take (min n (length (rx c))) (rx c) = take n (rx c)" "drop (min n (length (rx c))) (rx c) = drop n (rx c)"
    by (auto simp: min_def)
  moreover have "\<not> r < 0" using assms(2) by simp
  ultimately show ?thesis using assms(1) by (simp add: sys_read_def Let_def)
qed

lemma read_any_image:
  assumes "steady (n + RAMNV_SECT_SIZE) (Suc (Suc k)) d" "open_rd name d = Some c" "files d name = Some cs"
  shows "\<exists>r1 r2 h b d'. read_image c n d = Some (r1, r2, h, b, d') \<and>
    (r1 = int RAMNV_SECT_SIZE \<and> r2 = int n \<and> chkNVEcc b (header_checksum h) \<longleftrightarrow> verifies n cs) \<and>
    files d' = files d \<and> openable d' = openable d \<and> wr_out d' = wr_out d \<and> steady (n + RAMNV_SECT_SIZE) k d'"
proof -
  obtain r1 r2 rs where r: "rd_out d = r1 # r2 # rs" "int (n + RAMNV_SECT_SIZE) \<le> r1" "int (n + RAMNV_SECT_SIZE) \<le> r2"
    "\<forall>r \<in> set rs. int (n + RAMNV_SECT_SIZE) \<le> r" "k \<le> length rs"
    using steady_rdE [OF assms(1)] by blast
  have c: "c = \<lparr>rx = cs, tx = [], rd_sched = r1 # r2 # rs, wr_sched = wr_out d\<rparr>"
    using assms(2,3) r(1) by (auto simp: open_rd_def split: if_splits)
  let ?h = "take RAMNV_SECT_SIZE cs" and ?b = "take n (drop RAMNV_SECT_SIZE cs)"
  have 1: "sys_read RAMNV_SECT_SIZE c = Some (int (min RAMNV_SECT_SIZE (length cs)), ?h,
      c\<lparr>rd_sched := r2 # rs, rx := drop RAMNV_SECT_SIZE cs\<rparr>)"
    using sys_read_steady [of c r1 "r2 # rs" RAMNV_SECT_SIZE] r(2) by (simp add: c)
  have 2: "sys_read n (c\<lparr>rd_sched := r2 # rs, rx := drop RAMNV_SECT_SIZE cs\<rparr>) =
      Some (int (min n (length cs - RAMNV_SECT_SIZE)), ?b,
        c\<lparr>rd_sched := rs, rx := drop n (drop RAMNV_SECT_SIZE cs)\<rparr>)"
    using sys_read_steady [of "c\<lparr>rd_sched := r2 # rs, rx := drop RAMNV_SECT_SIZE cs\<rparr>" r2 rs n] r(3) by simp
  have 3: "read_image c n d = Some (int (min RAMNV_SECT_SIZE (length cs)), int (min n (length cs - RAMNV_SECT_SIZE)),
      ?h @ drop (length ?h) (replicate RAMNV_SECT_SIZE 0), ?b @ drop (length ?b) (replicate n 0xFF), d\<lparr>rd_out := rs\<rparr>)"
    unfolding read_image_def 1 bind.bind_lunit prod.case 2 by simp
  have 4: "int (min RAMNV_SECT_SIZE (length cs)) = int RAMNV_SECT_SIZE \<and> int (min n (length cs - RAMNV_SECT_SIZE)) = int n
     \<and> chkNVEcc (?b @ drop (length ?b) (replicate n 0xFF))
         (header_checksum (?h @ drop (length ?h) (replicate RAMNV_SECT_SIZE 0))) \<longleftrightarrow> verifies n cs"
  proof (cases "RAMNV_SECT_SIZE + n \<le> length cs")
    case True
    then show ?thesis by (simp add: verifies_def)
  next
    case False
    then have "\<not> (min RAMNV_SECT_SIZE (length cs) = RAMNV_SECT_SIZE \<and> min n (length cs - RAMNV_SECT_SIZE) = n)" by linarith
    then show ?thesis using False by (auto simp: verifies_def)
  qed
  have 5: "steady (n + RAMNV_SECT_SIZE) k (d\<lparr>rd_out := rs\<rparr>)" using r assms(1) by (auto simp: steady_def)
  show ?thesis
    by (rule exI, rule exI, rule exI, rule exI, rule exI, rule conjI [OF 3]) (use 4 5 in simp)
qed

lemma verifies_nv_image: "length buf = n \<Longrightarrow> verifies n (nv_image buf @ rest)"
  by (simp add: verifies_def nv_image_def chkNVEcc_def header_checksum_nv_header)

definition first_name :: "bool \<Rightarrow> RAM_NV_CONFIG \<Rightarrow> string" where
  "first_name order e = (if order then image_path e else imageBak_path e)"

definition second_name :: "bool \<Rightarrow> RAM_NV_CONFIG \<Rightarrow> string" where
  "second_name order e = (if order then imageBak_path e else image_path e)"

lemma ramDisk_Read_first:
  assumes i: "getIdx cfg h = Some idx" and s: "steady (n + RAMNV_SECT_SIZE) (Suc (Suc k)) d"
    and f: "openable d (first_name order (cfg ! idx))" "files d (first_name order (cfg ! idx)) = Some (nv_image buf @ rest)"
    and l: "length buf = n"
  shows "\<exists>d'. ramDisk_Read cfg order h n old d = Some (True, buf, d') \<and> files d' = files d \<and> openable d' = openable d \<and>
    steady (n + RAMNV_SECT_SIZE) k d'"
proof -
  obtain c d' where c: "open_rd (first_name order (cfg ! idx)) d = Some c"
    "read_image c n d = Some (int RAMNV_SECT_SIZE, int n, nv_header buf, buf, d')"
    "chkNVEcc buf (header_checksum (nv_header buf))" "files d' = files d" "openable d' = openable d"
    "steady (n + RAMNV_SECT_SIZE) k d'"
    using read_good_image [OF s f l] by blast
  show ?thesis
    unfolding ramDisk_Read_def i option.case Let_def first_name_def [symmetric] c(1) option.case c(2) using c by simp
qed

lemma ramDisk_Read_second:
  assumes i: "getIdx cfg h = Some idx" and s: "steady (n + RAMNV_SECT_SIZE) (Suc (Suc (Suc (Suc k)))) d"
    and bad: "bad_file n (first_name order (cfg ! idx)) d"
    and f: "openable d (second_name order (cfg ! idx))" "files d (second_name order (cfg ! idx)) = Some (nv_image buf @ rest)"
    and l: "length buf = n"
  shows "\<exists>d'. ramDisk_Read cfg order h n old d = Some (True, buf, d') \<and> openable d' = openable d \<and>
    steady (n + RAMNV_SECT_SIZE) k d' \<and>
    files d' = (if openable d (first_name order (cfg ! idx))
                then (files d)(first_name order (cfg ! idx) \<mapsto> nv_image buf) else files d)"
proof -
  let ?a = "first_name order (cfg ! idx)" and ?b = "second_name order (cfg ! idx)"
  let ?first = "case open_rd ?a d of None \<Rightarrow> Some (False, 0, replicate n 0xFF, d)
      | Some c \<Rightarrow> do { (r1, r2, h, b, d) \<leftarrow> read_image c n d;
                       Some (r1 = int RAMNV_SECT_SIZE \<and> r2 = int n \<and> chkNVEcc b (header_checksum h), r2, b, d) }"
  obtain ret2 b1 d1 where 1: "?first = Some (False, ret2, b1, d1)" "files d1 = files d" "openable d1 = openable d"
    "steady (n + RAMNV_SECT_SIZE) (Suc (Suc k)) d1" "wr_out d1 = wr_out d"
  proof (cases "open_rd ?a d")
    case None
    have "steady (n + RAMNV_SECT_SIZE) (Suc (Suc k)) d" using s by (auto simp: steady_def)
    then show ?thesis using that [of 0 "replicate n 0xFF" d] None by simp
  next
    case (Some c)
    then obtain cs where cs: "files d ?a = Some cs" "openable d ?a" by (auto simp: open_rd_def split: if_splits)
    then have nv: "\<not> verifies n cs" using bad by (simp add: bad_file_def)
    obtain r1 r2 hh b d' where r: "read_image c n d = Some (r1, r2, hh, b, d')"
      "(r1 = int RAMNV_SECT_SIZE \<and> r2 = int n \<and> chkNVEcc b (header_checksum hh)) = False"
      "files d' = files d" "openable d' = openable d" "wr_out d' = wr_out d" "steady (n + RAMNV_SECT_SIZE) (Suc (Suc k)) d'"
      using read_any_image [OF s Some cs(1)] nv by blast
    show ?thesis using that [of r2 b d'] Some r by simp
  qed
  obtain c d2 where 2: "open_rd ?b d1 = Some c"
    "read_image c n d1 = Some (int RAMNV_SECT_SIZE, int n, nv_header buf, buf, d2)"
    "chkNVEcc buf (header_checksum (nv_header buf))" "files d2 = files d1" "openable d2 = openable d1"
    "wr_out d2 = wr_out d1" "steady (n + RAMNV_SECT_SIZE) k d2"
    using read_good_image [OF 1(4) _ _ l, of ?b rest] f 1(2,3) by auto
  obtain w1 w2 ws where w: "wr_out d2 = w1 # w2 # ws" "int (n + RAMNV_SECT_SIZE) \<le> w1" "int (n + RAMNV_SECT_SIZE) \<le> w2"
      "\<forall>w \<in> set ws. int (n + RAMNV_SECT_SIZE) \<le> w" "Suc (Suc k) \<le> length ws"
    using steady_wrE [OF s] 1(5) 2(6) by metis
  have 3: "rewrite_file ?a (nv_header buf) buf d2 = Some (int RAMNV_SECT_SIZE, int n,
      d2\<lparr>files := (files d2)(?a \<mapsto> nv_image buf), wr_out := ws\<rparr>)"
    using rewrite_file_whole [OF w(1), of "nv_header buf" buf ?a] w(2,3) l by (simp add: nv_image_def)
  have 4: "steady (n + RAMNV_SECT_SIZE) k (d2\<lparr>files := (files d2)(?a \<mapsto> nv_image buf), wr_out := ws\<rparr>)"
    using 2(7) w by (auto simp: steady_def)
  show ?thesis
    unfolding ramDisk_Read_def i option.case Let_def first_name_def [symmetric] second_name_def [symmetric] 1(1)
      bind.bind_lunit prod.case if_False 2(1) 2(2)
    using 1(2,3) 2 3 4 by simp
qed

lemma write_image_whole:
  assumes "steady (n + RAMNV_SECT_SIZE) (Suc (Suc k)) d" "openable d name" "length buf = n"
  shows "\<exists>d'. write_image name buf d = Some (True, d') \<and> files d' = (files d)(name \<mapsto> nv_image buf) \<and>
    openable d' = openable d \<and> steady (n + RAMNV_SECT_SIZE) k d'"
proof -
  obtain w1 w2 ws where w: "wr_out d = w1 # w2 # ws" "int (n + RAMNV_SECT_SIZE) \<le> w1" "int (n + RAMNV_SECT_SIZE) \<le> w2"
      "\<forall>w \<in> set ws. int (n + RAMNV_SECT_SIZE) \<le> w" "k \<le> length ws"
    using steady_wrE [OF assms(1)] by metis
  have "rewrite_file name (nv_header buf) buf d = Some (int RAMNV_SECT_SIZE, int n,
      d\<lparr>files := (files d)(name \<mapsto> nv_image buf), wr_out := ws\<rparr>)"
    using rewrite_file_whole [OF w(1), of "nv_header buf" buf name] w(2,3) assms(3) by (simp add: nv_image_def)
  moreover have "steady (n + RAMNV_SECT_SIZE) k (d\<lparr>files := (files d)(name \<mapsto> nv_image buf), wr_out := ws\<rparr>)"
    using assms(1) w by (auto simp: steady_def)
  ultimately show ?thesis using assms(2,3) by (simp add: write_image_def)
qed

text \<open>Both files of the partition can be opened, and \<open>k\<close> more operations go through in full.\<close>

definition usable :: "RAM_NV_CONFIG list \<Rightarrow> u32 \<Rightarrow> nat \<Rightarrow> nat \<Rightarrow> disk \<Rightarrow> bool" where
  "usable cfg h n k d \<longleftrightarrow>
     (case getIdx cfg h of
        None \<Rightarrow> False
      | Some idx \<Rightarrow> openable d (image_path (cfg ! idx)) \<and> openable d (imageBak_path (cfg ! idx))) \<and>
     steady (n + RAMNV_SECT_SIZE) (4 * k) d"

text \<open>Both files hold the image of the data.\<close>

definition holds :: "RAM_NV_CONFIG list \<Rightarrow> u32 \<Rightarrow> nat \<Rightarrow> bytes \<Rightarrow> disk \<Rightarrow> bool" where
  "holds cfg h n buf d \<longleftrightarrow>
     (case getIdx cfg h of
        None \<Rightarrow> False
      | Some idx \<Rightarrow> files d (image_path (cfg ! idx)) = Some (nv_image buf) \<and>
                    files d (imageBak_path (cfg ! idx)) = Some (nv_image buf)) \<and> length buf = n"

lemma ramDisk_Write_holds:
  assumes "usable cfg h n (Suc k) d" and "length buf = n"
  shows "\<exists>d'. ramDisk_Write cfg h buf d = Some (True, d') \<and> holds cfg h n buf d' \<and> usable cfg h n k d'"
proof -
  obtain idx where i: "getIdx cfg h = Some idx" "openable d (image_path (cfg ! idx))" "openable d (imageBak_path (cfg ! idx))"
    using assms(1) by (auto simp: usable_def split: option.splits)
  have s: "steady (n + RAMNV_SECT_SIZE) (Suc (Suc (Suc (Suc (4 * k))))) d" using assms(1) by (simp add: usable_def steady_def)
  obtain d1 where 1: "write_image (imageBak_path (cfg ! idx)) buf d = Some (True, d1)"
    "files d1 = (files d)(imageBak_path (cfg ! idx) \<mapsto> nv_image buf)" "openable d1 = openable d"
    "steady (n + RAMNV_SECT_SIZE) (Suc (Suc (4 * k))) d1"
    using write_image_whole [OF s i(3) assms(2)] by blast
  obtain d2 where 2: "write_image (image_path (cfg ! idx)) buf d1 = Some (True, d2)"
    "files d2 = (files d1)(image_path (cfg ! idx) \<mapsto> nv_image buf)" "openable d2 = openable d1"
    "steady (n + RAMNV_SECT_SIZE) (4 * k) d2"
    using write_image_whole [OF 1(4) _ assms(2), of "image_path (cfg ! idx)"] i(2) 1(3) by auto
  show ?thesis using i 1 2 assms(2) by (simp add: ramDisk_Write_def holds_def usable_def)
qed

lemma ramDisk_Read_holds:
  assumes "holds cfg h n buf d" and "usable cfg h n (Suc k) d"
  shows "\<exists>d'. ramDisk_Read cfg order h n old d = Some (True, buf, d') \<and> holds cfg h n buf d' \<and> usable cfg h n k d'"
proof -
  obtain idx where i: "getIdx cfg h = Some idx" "openable d (image_path (cfg ! idx))" "openable d (imageBak_path (cfg ! idx))"
    using assms(2) by (auto simp: usable_def split: option.splits)
  have s: "steady (n + RAMNV_SECT_SIZE) (Suc (Suc (Suc (Suc (4 * k))))) d" using assms(2) by (simp add: usable_def steady_def)
  have f: "openable d (first_name order (cfg ! idx))" "files d (first_name order (cfg ! idx)) = Some (nv_image buf @ [])"
    "length buf = n"
    using i assms(1) by (auto simp: first_name_def holds_def)
  obtain d' where "ramDisk_Read cfg order h n old d = Some (True, buf, d')" "files d' = files d" "openable d' = openable d"
    "steady (n + RAMNV_SECT_SIZE) (Suc (Suc (4 * k))) d'"
    using ramDisk_Read_first [OF i(1) s f] by blast
  moreover have "steady m (4 * k) d'" if "steady m (Suc (Suc (4 * k))) d'" for m using that by (auto simp: steady_def)
  ultimately show ?thesis using assms(1) i by (auto simp: holds_def usable_def)
qed

section \<open>What the buffer layer relies on\<close>

text \<open>A store for blocks of one size: a save that goes through is what the next loads return.\<close>

locale nv_store =
  fixes save :: "bytes \<Rightarrow> 'd \<Rightarrow> (bool \<times> 'd) option"
    and load :: "bytes \<Rightarrow> 'd \<Rightarrow> (bool \<times> bytes \<times> 'd) option"
    and good :: "nat \<Rightarrow> 'd \<Rightarrow> bool" and stored :: "bytes \<Rightarrow> 'd \<Rightarrow> bool" and block :: nat
  assumes save_stored: "good (Suc k) d \<Longrightarrow> length buf = block \<Longrightarrow>
      \<exists>d'. save buf d = Some (True, d') \<and> stored buf d' \<and> good k d'"
    and load_stored: "stored buf d \<Longrightarrow> good (Suc k) d \<Longrightarrow>
      \<exists>d'. load old d = Some (True, buf, d') \<and> stored buf d' \<and> good k d'"
begin

lemma load_after_save:
  assumes "good (Suc (Suc k)) d" and "length buf = block"
  shows "\<exists>d1 d2. save buf d = Some (True, d1) \<and> load old d1 = Some (True, buf, d2) \<and> stored buf d2"
proof -
  obtain d1 where "save buf d = Some (True, d1)" "stored buf d1" "good (Suc k) d1"
    using save_stored [OF assms] by blast
  then show ?thesis using load_stored by metis
qed

lemma last_save_wins:
  assumes "good (Suc (Suc (Suc k))) d" and "length buf = block" and "length buf' = block"
  shows "\<exists>d1 d2 d3. save buf d = Some (True, d1) \<and> save buf' d1 = Some (True, d2) \<and> load old d2 = Some (True, buf', d3)"
proof -
  obtain d1 where "save buf d = Some (True, d1)" "good (Suc (Suc k)) d1" using save_stored [OF assms(1,2)] by blast
  then show ?thesis using load_after_save [OF _ assms(3)] by metis
qed

end

interpretation ramdisk: nv_store "ramDisk_Write cfg h" "ramDisk_Read cfg order h n" "usable cfg h n" "holds cfg h n" n
  for cfg h order n
  by unfold_locales (simp_all add: ramDisk_Write_holds ramDisk_Read_holds)

section \<open>Properties of the image files\<close>

text \<open>C19: What \<open>ramDisk_Write\<close> has written to a working disk is what \<open>ramDisk_Read\<close> returns,
  whichever of the two files it looks at first.\<close>

theorem nv_read_after_write:
  assumes "usable cfg h n (Suc (Suc k)) d" and "length buf = n"
  shows "\<exists>d1 d2. ramDisk_Write cfg h buf d = Some (True, d1) \<and> ramDisk_Read cfg order h n old d1 = Some (True, buf, d2)"
  using ramdisk.load_after_save [OF assms, of order old] by blast

definition demo_cfg :: "RAM_NV_CONFIG list" where
  "demo_cfg = ramDisk_Init ''/a1'' ''/a2'' 3 ''/b1'' ''/b2'' 3"

definition demo_disk :: disk where
  "demo_disk = \<lparr>files = Map.empty, openable = (\<lambda>_. True), rd_out = replicate 12 1000, wr_out = replicate 12 1000\<rparr>"

lemma demo_cfg_idx [simp]: "getIdx demo_cfg 1 = Some 0" "demo_cfg ! 0 = \<lparr>partId = 1, image_path = ''/a1'', imageBak_path = ''/a2'', image_size = 3\<rparr>"
  by (simp_all add: demo_cfg_def ramDisk_Init_def)

lemma demo_disk_usable: "usable demo_cfg 1 3 3 demo_disk"
  by (simp add: usable_def demo_disk_def steady_def RAMNV_SECT_SIZE_def)

theorem nv_read_after_write_witness:
  "\<exists>d1 d2. ramDisk_Write demo_cfg 1 [7, 8, 9] demo_disk = Some (True, d1) \<and>
     ramDisk_Read demo_cfg False 1 3 [] d1 = Some (True, [7, 8, 9], d2)"
  by (rule nv_read_after_write [where k = 1]) (use demo_disk_usable in \<open>simp_all add: numeral_3_eq_3\<close>)

text \<open>C21: When the file that is read first is missing, cannot be opened, is too short or fails its
  checksum, and the other verifies, \<open>ramDisk_Read\<close> returns the data of the other and rewrites
  the first with them.\<close>

theorem nv_read_recovers:
  assumes "getIdx cfg h = Some idx" and "steady (n + RAMNV_SECT_SIZE) 4 d"
    and "bad_file n (first_name order (cfg ! idx)) d"
    and "openable d (second_name order (cfg ! idx))"
    and "files d (second_name order (cfg ! idx)) = Some (nv_image buf @ rest)" and "length buf = n"
  shows "\<exists>d'. ramDisk_Read cfg order h n old d = Some (True, buf, d') \<and>
    files d' = (if openable d (first_name order (cfg ! idx))
                then (files d)(first_name order (cfg ! idx) \<mapsto> nv_image buf) else files d)"
proof -
  have "steady (n + RAMNV_SECT_SIZE) (Suc (Suc (Suc (Suc 0)))) d" using assms(2) by (simp add: steady_def)
  from ramDisk_Read_second [OF assms(1) this assms(3-6)] show ?thesis by blast
qed

definition torn_disk :: disk where
  "torn_disk = demo_disk\<lparr>files := [''/a1'' \<mapsto> [1, 2, 3], ''/a2'' \<mapsto> nv_image [7, 8, 9] @ []]\<rparr>"

theorem nv_read_recovers_witness:
  "\<exists>d'. ramDisk_Read demo_cfg True 1 3 [] torn_disk = Some (True, [7, 8, 9], d') \<and>
    files d' = (if openable torn_disk (first_name True (demo_cfg ! 0))
                then (files torn_disk)(first_name True (demo_cfg ! 0) \<mapsto> nv_image [7, 8, 9]) else files torn_disk)"
  by (rule nv_read_recovers [where rest = "[]"])
     (simp_all add: first_name_def second_name_def torn_disk_def demo_disk_def steady_def bad_file_def verifies_def
        RAMNV_SECT_SIZE_def)

text \<open>Finding. When neither file can be opened, \<open>ramDisk_Read\<close> reports success and the buffer
  holds 0xFF bytes; a caller cannot tell this from data.\<close>

theorem nv_read_unreadable_reports_success:
  assumes "getIdx cfg h = Some idx" and "open_rd (image_path (cfg ! idx)) d = None"
    and "open_rd (imageBak_path (cfg ! idx)) d = None" and "0 < n"
  shows "ramDisk_Read cfg order h n old d = Some (True, replicate n 0xFF, d)"
  using assms by (cases order) (simp_all add: ramDisk_Read_def Let_def)

theorem nv_read_unreadable_reports_success_witness:
  "ramDisk_Read demo_cfg True 1 3 [] demo_disk = Some (True, replicate 3 0xFF, demo_disk)"
  by (rule nv_read_unreadable_reports_success [where idx = 0]) (simp_all add: open_rd_def demo_disk_def)

end
