(* ===== verification/Nv_Buf.thy ===== *)
theory Nv_Buf
  imports Nv_Fs
begin

unbundle bit_operations_syntax

text \<open>
  \<open>apps/nvitem/nvitem_buf.c\<close>: the three buffers of a partition. Requests from the modem are
  collected in \<open>fromChannel\<close>; a complete request is copied to \<open>backup\<close>, an aborted one is
  undone from there; the save task copies \<open>backup\<close> to \<open>toDisk\<close> and writes the images. Each
  buffer has a table of dirty bits, one per sector.

  The static \<open>ramNvCtl\<close> with the variables the module shares is the record \<open>nv_mem\<close>.
  Accesses outside an array are \<open>None\<close>.
\<close>

section \<open>State\<close>

definition RAMNV_DIRTYTABLE_MAXSIZE :: nat where "RAMNV_DIRTYTABLE_MAXSIZE = 32"

record RAMNV_BUF_CTRL =
  diskbuf :: bytes
  dirty :: "u32 list"

record RAMNV_PART_CTRL =
  part_id :: u32
  sctNum :: nat
  fromChannel :: RAMNV_BUF_CTRL
  backup :: RAMNV_BUF_CTRL
  toDisk :: RAMNV_BUF_CTRL
  fdhandle :: u32

record nv_mem =
  parts :: "RAMNV_PART_CTRL list"
  ramdiskCfg :: "RAM_NV_CONFIG list"
  is_cali_mode :: bool
  save_event :: bool
  nvdisk :: disk

definition clean_table :: "u32 list" where
  "clean_table = replicate RAMNV_DIRTYTABLE_MAXSIZE 0"

section \<open>Initialisation\<close>

text \<open>The loop over the configuration. The buffers have four bytes more than the image, whose
  contents are the parameter \<open>junk\<close>; \<open>rnd\<close> gives the values of \<open>rand()%2\<close>. \<open>malloc\<close>
  succeeds; a size that wraps around with the four bytes added overruns the buffers.\<close>

fun initBuf_loop ::
  "RAM_NV_CONFIG list \<Rightarrow> (nat \<Rightarrow> bool) \<Rightarrow> bytes \<Rightarrow> RAM_NV_CONFIG list \<Rightarrow> disk \<Rightarrow> RAMNV_PART_CTRL list
     \<Rightarrow> (RAMNV_PART_CTRL list \<times> disk) option" where
  "initBuf_loop cfg rnd junk [] d ps = None"
| "initBuf_loop cfg rnd junk (c # cs) d ps =
     (if partId c = 0 then Some (ps, d)
      else if RAMNV_NUM \<le> length ps then None
      else if ramDisk_Open (partId c) = 0 then initBuf_loop cfg rnd junk cs d ps
      else if 2 ^ 32 \<le> unat (image_size c) + 4 then None
      else do { (ok, buf, d) \<leftarrow> ramDisk_Read cfg (rnd (length cs)) (ramDisk_Open (partId c)) (unat (image_size c))
                                 (replicate (unat (image_size c)) 0) d;
                (if \<not> ok then initBuf_loop cfg rnd junk cs d ps
                 else (let b = \<lparr>diskbuf = buf @ take 4 junk, dirty = clean_table\<rparr>
                       in initBuf_loop cfg rnd junk cs d
                            (ps @ [\<lparr>part_id = partId c, sctNum = unat (image_size c) div RAMNV_SECT_SIZE,
                                    fromChannel = b, backup = b, toDisk = b,
                                    fdhandle = ramDisk_Open (partId c)\<rparr>]))) })"

definition initBuf ::
  "RAM_NV_CONFIG list \<Rightarrow> bool \<Rightarrow> (nat \<Rightarrow> bool) \<Rightarrow> bytes \<Rightarrow> disk \<Rightarrow> nv_mem option" where
  "initBuf cfg cali rnd junk d =
     do { (ps, d) \<leftarrow> initBuf_loop cfg rnd junk cfg d [];
          Some \<lparr>parts = ps, ramdiskCfg = cfg, is_cali_mode = cali, save_event = False, nvdisk = d\<rparr> }"

definition uninitBuf :: "nv_mem \<Rightarrow> nv_mem" where
  "uninitBuf m = m\<lparr>parts := []\<rparr>"

text \<open>The index of a partition, -1 when there is none.\<close>

fun find_part :: "u32 \<Rightarrow> RAMNV_PART_CTRL list \<Rightarrow> nat \<Rightarrow> nat option" where
  "find_part pid [] i = None"
| "find_part pid (p # ps) i = (if pid = part_id p then Some i else find_part pid ps (Suc i))"

definition getCtlId :: "u32 \<Rightarrow> nv_mem \<Rightarrow> u32" where
  "getCtlId pid m = (case find_part pid (parts m) 0 of Some i \<Rightarrow> word_of_nat i | None \<Rightarrow> -1)"

definition get_part :: "u32 \<Rightarrow> nv_mem \<Rightarrow> RAMNV_PART_CTRL option" where
  "get_part i m = (if unat i < length (parts m) then Some (parts m ! unat i) else None)"

definition put_part :: "u32 \<Rightarrow> RAMNV_PART_CTRL \<Rightarrow> nv_mem \<Rightarrow> nv_mem" where
  "put_part i p m = m\<lparr>parts := (parts m)[unat i := p]\<rparr>"

section \<open>Dirty bits\<close>

text \<open>The shift \<open>_U32MASK>>(32-scts)\<close> is undefined for \<open>scts = 0\<close>.\<close>

function mark_loop :: "nat \<Rightarrow> nat \<Rightarrow> nat \<Rightarrow> u32 list \<Rightarrow> u32 list option" where
  "mark_loop bytes' bits scts t =
     (if length t \<le> bytes' then None
      else if 32 - bits < scts
      then mark_loop (Suc bytes') 0 (scts - (32 - bits)) (t[bytes' := t ! bytes' OR push_bit bits (-1)])
      else if scts = 0 then None
      else Some (t[bytes' := t ! bytes' OR push_bit bits (drop_bit (32 - scts) (-1))]))"
  by pat_completeness auto
termination
  by (relation "measure (\<lambda>(k, b, s, t). length t - k)") auto

declare mark_loop.simps [simp del]

definition markDirtyInfo :: "u32 \<Rightarrow> u32 \<Rightarrow> u32 \<Rightarrow> nv_mem \<Rightarrow> nv_mem option" where
  "markDirtyInfo i start scts m =
     do { p \<leftarrow> get_part i m;
          t \<leftarrow> mark_loop (unat start div 32) (unat start mod 32) (unat scts) (dirty (fromChannel p));
          Some (put_part i (p\<lparr>fromChannel := (fromChannel p)\<lparr>dirty := t\<rparr>\<rparr>) m) }"

definition ifHasDirty :: "RAMNV_PART_CTRL \<Rightarrow> bool" where
  "ifHasDirty p \<longleftrightarrow> (\<exists>w \<in> set (dirty (backup p)). w \<noteq> 0)"

section \<open>Moving data between the buffers\<close>

definition writeData :: "u32 \<Rightarrow> u32 \<Rightarrow> bytes \<Rightarrow> nv_mem \<Rightarrow> nv_mem option" where
  "writeData i start buf m =
     (if buf = [] then Some m
      else do { p \<leftarrow> get_part i m;
                b \<leftarrow> buf_write (unat start) buf (diskbuf (fromChannel p));
                Some (put_part i (p\<lparr>fromChannel := (fromChannel p)\<lparr>diskbuf := b\<rparr>\<rparr>) m) })"

text \<open>\<open>memcpy\<close> of the sectors of a partition from one buffer to another.\<close>

definition copy_sectors :: "nat \<Rightarrow> bytes \<Rightarrow> bytes \<Rightarrow> bytes option" where
  "copy_sectors scts src dst =
     do { s \<leftarrow> buf_read 0 (RAMNV_SECT_SIZE * scts) src; buf_write 0 s dst }"

definition or_table :: "u32 list \<Rightarrow> u32 list \<Rightarrow> u32 list" where
  "or_table s t = map2 (\<lambda>a b. a OR b) s t"

definition getData :: "RAMNV_PART_CTRL \<Rightarrow> RAMNV_PART_CTRL option" where
  "getData p =
     do { b \<leftarrow> copy_sectors (sctNum p) (diskbuf (backup p)) (diskbuf (toDisk p));
          Some (p\<lparr>toDisk := \<lparr>diskbuf = b, dirty = or_table (dirty (toDisk p)) (dirty (backup p))\<rparr>,
                  backup := (backup p)\<lparr>dirty := clean_table\<rparr>\<rparr>) }"

text \<open>One partition of \<open>saveToDisk\<close>: a failed write leaves the bits of \<open>toDisk\<close> set, but the
  test for the next save looks at \<open>backup\<close>, whose bits are clear by then.\<close>

definition save_part :: "RAM_NV_CONFIG list \<Rightarrow> RAMNV_PART_CTRL \<Rightarrow> disk \<Rightarrow> (RAMNV_PART_CTRL \<times> disk) option" where
  "save_part cfg p d =
     (if ifHasDirty p
      then do { p \<leftarrow> getData p;
                b \<leftarrow> buf_read 0 (RAMNV_SECT_SIZE * sctNum p) (diskbuf (toDisk p));
                (ok, d) \<leftarrow> ramDisk_Write cfg (fdhandle p) b d;
                Some (if ok then p\<lparr>toDisk := (toDisk p)\<lparr>dirty := clean_table\<rparr>\<rparr> else p, d) }
      else Some (p, d))"

fun save_loop :: "RAM_NV_CONFIG list \<Rightarrow> RAMNV_PART_CTRL list \<Rightarrow> disk \<Rightarrow> (RAMNV_PART_CTRL list \<times> disk) option" where
  "save_loop cfg [] d = Some ([], d)"
| "save_loop cfg (p # ps) d =
     do { (p, d) \<leftarrow> save_part cfg p d; (ps, d) \<leftarrow> save_loop cfg ps d; Some (p # ps, d) }"

definition saveToDisk :: "nv_mem \<Rightarrow> nv_mem option" where
  "saveToDisk m =
     do { (ps, d) \<leftarrow> save_loop (ramdiskCfg m) (parts m) (nvdisk m);
          Some (m\<lparr>parts := ps, nvdisk := d\<rparr>) }"

text \<open>\<open>backupData\<close> ends in a save in calibration mode and otherwise wakes the save task.\<close>

definition backup_part :: "RAMNV_PART_CTRL \<Rightarrow> RAMNV_PART_CTRL option" where
  "backup_part p =
     do { b \<leftarrow> copy_sectors (sctNum p) (diskbuf (fromChannel p)) (diskbuf (backup p));
          Some (p\<lparr>backup := \<lparr>diskbuf = b, dirty = or_table (dirty (backup p)) (dirty (fromChannel p))\<rparr>\<rparr>) }"

definition backupData :: "u32 \<Rightarrow> nv_mem \<Rightarrow> (bool \<times> nv_mem) option" where
  "backupData i m =
     do { p \<leftarrow> get_part i m;
          p \<leftarrow> backup_part p;
          m \<leftarrow> (if is_cali_mode m then saveToDisk (put_part i p m)
                else Some ((put_part i p m)\<lparr>save_event := True\<rparr>));
          Some (True, m) }"

definition restore_part :: "RAMNV_PART_CTRL \<Rightarrow> RAMNV_PART_CTRL option" where
  "restore_part p =
     do { b \<leftarrow> copy_sectors (sctNum p) (diskbuf (backup p)) (diskbuf (fromChannel p));
          Some (p\<lparr>fromChannel := \<lparr>diskbuf = b, dirty = dirty (backup p)\<rparr>\<rparr>) }"

definition restoreData :: "u32 \<Rightarrow> nv_mem \<Rightarrow> nv_mem option" where
  "restoreData i m =
     do { p \<leftarrow> get_part i m; p \<leftarrow> restore_part p; Some (put_part i p m) }"

section \<open>What a dirty table says\<close>

text \<open>A sector is dirty when its bit is set.\<close>

definition sector_dirty :: "u32 list \<Rightarrow> nat \<Rightarrow> bool" where
  "sector_dirty t b \<longleftrightarrow> b div 32 < length t \<and> bit (t ! (b div 32)) (b mod 32)"

lemma bit_run:
  assumes "0 < s" "bits + s \<le> 32"
  shows "bit (push_bit bits (drop_bit (32 - s) (-1 :: u32))) j \<longleftrightarrow> bits \<le> j \<and> j < bits + s"
  using assms by (auto simp: bit_simps)

lemma bit_upper: "bit (push_bit bits (-1 :: u32)) j \<longleftrightarrow> bits \<le> j \<and> j < 32"
  by (auto simp: bit_simps)

lemma sector_dirty_or:
  assumes "k < length t"
  shows "sector_dirty (t[k := t ! k OR w]) b \<longleftrightarrow> sector_dirty t b \<or> b div 32 = k \<and> bit w (b mod 32)"
  using assms by (auto simp: sector_dirty_def nth_list_update bit_or_iff)

text \<open>A word whose bits from \<open>lo\<close> up to \<open>hi\<close> are set marks that run of sectors.\<close>

lemma sector_dirty_run:
  assumes "k < length t" "hi \<le> 32" "\<And>j. bit w j \<longleftrightarrow> lo \<le> j \<and> j < hi"
  shows "sector_dirty (t[k := t ! k OR w]) b \<longleftrightarrow> sector_dirty t b \<or> 32 * k + lo \<le> b \<and> b < 32 * k + hi"
proof -
  have "(b div 32 = k \<and> lo \<le> b mod 32 \<and> b mod 32 < hi) \<longleftrightarrow> 32 * k + lo \<le> b \<and> b < 32 * k + hi"
  proof
    assume "32 * k + lo \<le> b \<and> b < 32 * k + hi"
    then obtain j where j: "b = j + k * 32" "lo \<le> j" "j < hi"
      using assms(2) by (intro that [of "b - 32 * k"]) auto
    then show "b div 32 = k \<and> lo \<le> b mod 32 \<and> b mod 32 < hi" using assms(2) by simp
  next
    assume "b div 32 = k \<and> lo \<le> b mod 32 \<and> b mod 32 < hi"
    then show "32 * k + lo \<le> b \<and> b < 32 * k + hi" using mult_div_mod_eq [of 32 b] by linarith
  qed
  then show ?thesis using sector_dirty_or [OF assms(1), of w b] assms(3) by simp
qed

lemma mark_loop_spec:
  assumes "0 < scts" "bits < 32" "32 * k + bits + scts \<le> 32 * length t"
  shows "\<exists>t'. mark_loop k bits scts t = Some t' \<and> length t' = length t \<and>
    (\<forall>b. sector_dirty t' b \<longleftrightarrow> sector_dirty t b \<or> 32 * k + bits \<le> b \<and> b < 32 * k + bits + scts)"
  using assms
proof (induction k bits scts t rule: mark_loop.induct)
  case (1 k bits scts t)
  have k: "k < length t" using "1.prems" by linarith
  show ?case
  proof (cases "32 - bits < scts")
    case True
    let ?t = "t[k := t ! k OR push_bit bits (-1)]"
    have pre: "\<not> length t \<le> k" "0 < scts - (32 - bits)" "(0::nat) < 32"
      "32 * Suc k + 0 + (scts - (32 - bits)) \<le> 32 * length ?t"
      using "1.prems" True k by simp_all
    obtain t' where t': "mark_loop (Suc k) 0 (scts - (32 - bits)) ?t = Some t'" "length t' = length ?t"
      "\<forall>b. sector_dirty t' b \<longleftrightarrow> sector_dirty ?t b \<or> 32 * Suc k + 0 \<le> b \<and> b < 32 * Suc k + 0 + (scts - (32 - bits))"
      using "1.IH" [OF pre(1) True pre(2-4)] by blast
    have "sector_dirty ?t b \<longleftrightarrow> sector_dirty t b \<or> 32 * k + bits \<le> b \<and> b < 32 * k + 32" for b
      by (rule sector_dirty_run [OF k _ bit_upper]) simp
    moreover have "32 * k + bits \<le> b \<and> b < 32 * k + 32 \<or> 32 * Suc k + 0 \<le> b \<and> b < 32 * Suc k + 0 + (scts - (32 - bits))
        \<longleftrightarrow> 32 * k + bits \<le> b \<and> b < 32 * k + bits + scts" for b
      using "1.prems"(2) True by (cases "b < 32 * k + 32") (simp_all, linarith+)
    ultimately have "\<forall>b. sector_dirty t' b \<longleftrightarrow> sector_dirty t b \<or> 32 * k + bits \<le> b \<and> b < 32 * k + bits + scts"
      using t'(3) by blast
    then show ?thesis using t'(1,2) pre(1) True by (subst mark_loop.simps) (simp only: if_True if_False length_list_update, blast)
  next
    case False
    let ?w = "push_bit bits (drop_bit (32 - scts) (-1 :: u32))"
    have "sector_dirty (t[k := t ! k OR ?w]) b \<longleftrightarrow>
        sector_dirty t b \<or> 32 * k + bits \<le> b \<and> b < 32 * k + bits + scts" for b
      using sector_dirty_run [OF k _ bit_run, of bits scts b] "1.prems"(1,2) False by (simp add: add.assoc)
    then show ?thesis using k False "1.prems"(1) by (subst mark_loop.simps) simp
  qed
qed

section \<open>Well-formed partitions\<close>

definition wf_buf :: "nat \<Rightarrow> RAMNV_BUF_CTRL \<Rightarrow> bool" where
  "wf_buf n b \<longleftrightarrow> n \<le> length (diskbuf b) \<and> length (dirty b) = RAMNV_DIRTYTABLE_MAXSIZE"

text \<open>The size of an image is that of its sectors, which is the configured \<open>image_size\<close> when that is a
  multiple of 512; a rest of less than a sector is never copied between the buffers.\<close>

definition image_bytes :: "RAMNV_PART_CTRL \<Rightarrow> nat" where
  "image_bytes p = RAMNV_SECT_SIZE * sctNum p"

definition wf_part :: "RAMNV_PART_CTRL \<Rightarrow> bool" where
  "wf_part p \<longleftrightarrow> wf_buf (image_bytes p) (fromChannel p) \<and> wf_buf (image_bytes p) (backup p) \<and>
     wf_buf (image_bytes p) (toDisk p)"

text \<open>The image a buffer of the partition holds.\<close>

definition image_of :: "RAMNV_PART_CTRL \<Rightarrow> RAMNV_BUF_CTRL \<Rightarrow> bytes" where
  "image_of p b = take (image_bytes p) (diskbuf b)"

definition pending :: "RAMNV_PART_CTRL \<Rightarrow> bytes" where
  "pending p = image_of p (fromChannel p)"

definition committed :: "RAMNV_PART_CTRL \<Rightarrow> bytes" where
  "committed p = image_of p (backup p)"

lemma length_clean_table [simp]: "length clean_table = RAMNV_DIRTYTABLE_MAXSIZE"
  by (simp add: clean_table_def)

lemma length_or_table [simp]: "length (or_table s t) = min (length s) (length t)"
  by (simp add: or_table_def)

lemma sector_dirty_or_table:
  "length s = length t \<Longrightarrow> sector_dirty (or_table s t) b \<longleftrightarrow> sector_dirty s b \<or> sector_dirty t b"
  by (auto simp: sector_dirty_def or_table_def bit_or_iff)

lemma sector_dirty_clean [simp]: "\<not> sector_dirty clean_table b"
  by (auto simp: sector_dirty_def clean_table_def)

lemma copy_sectors_Some_iff [buf_simps]:
  "copy_sectors n src dst = Some r \<longleftrightarrow>
     RAMNV_SECT_SIZE * n \<le> length src \<and> RAMNV_SECT_SIZE * n \<le> length dst \<and>
     r = take (RAMNV_SECT_SIZE * n) src @ drop (RAMNV_SECT_SIZE * n) dst"
  by (auto simp: copy_sectors_def bind_eq_Some_conv buf_simps)

lemma ifHasDirty_iff:
  assumes "length (dirty (backup p)) = RAMNV_DIRTYTABLE_MAXSIZE"
  shows "ifHasDirty p \<longleftrightarrow> (\<exists>b. sector_dirty (dirty (backup p)) b)"
proof
  assume "ifHasDirty p"
  then obtain k where k: "k < length (dirty (backup p))" "dirty (backup p) ! k \<noteq> 0"
    by (auto simp: ifHasDirty_def in_set_conv_nth)
  then obtain j where j: "bit (dirty (backup p) ! k) j" by (metis bit_0_eq bot_apply bot_bool_def bit_eqI)
  then have "j < 32" using bit_imp_le_length by fastforce
  then have "sector_dirty (dirty (backup p)) (j + k * 32)" using k j by (simp add: sector_dirty_def)
  then show "\<exists>b. sector_dirty (dirty (backup p)) b" ..
next
  assume "\<exists>b. sector_dirty (dirty (backup p)) b"
  then obtain b where b: "b div 32 < length (dirty (backup p))" "bit (dirty (backup p) ! (b div 32)) (b mod 32)"
    by (auto simp: sector_dirty_def)
  then have "dirty (backup p) ! (b div 32) \<noteq> 0" by auto
  then show "ifHasDirty p" using b(1) by (auto simp: ifHasDirty_def intro: bexI [OF _ nth_mem])
qed

text \<open>What the copies do to a well-formed partition.\<close>

lemma backup_part_spec:
  assumes "wf_part p"
  shows "\<exists>p'. backup_part p = Some p' \<and> wf_part p' \<and> committed p' = pending p \<and> pending p' = pending p \<and>
    sctNum p' = sctNum p \<and> part_id p' = part_id p \<and> fdhandle p' = fdhandle p \<and> fromChannel p' = fromChannel p \<and>
    toDisk p' = toDisk p \<and> dirty (backup p') = or_table (dirty (backup p)) (dirty (fromChannel p))"
  using assms
  by (simp add: backup_part_def bind_eq_Some_conv buf_simps wf_part_def wf_buf_def image_bytes_def committed_def
      pending_def image_of_def)

lemma restore_part_spec:
  assumes "wf_part p"
  shows "\<exists>p'. restore_part p = Some p' \<and> wf_part p' \<and> pending p' = committed p \<and> committed p' = committed p \<and>
    sctNum p' = sctNum p \<and> part_id p' = part_id p \<and> fdhandle p' = fdhandle p \<and> backup p' = backup p \<and>
    toDisk p' = toDisk p \<and> dirty (fromChannel p') = dirty (backup p)"
  using assms
  by (simp add: restore_part_def bind_eq_Some_conv buf_simps wf_part_def wf_buf_def image_bytes_def committed_def
      pending_def image_of_def)

lemma getData_spec:
  assumes "wf_part p"
  shows "\<exists>p'. getData p = Some p' \<and> wf_part p' \<and> image_of p' (toDisk p') = committed p \<and> committed p' = committed p \<and>
    pending p' = pending p \<and> sctNum p' = sctNum p \<and> part_id p' = part_id p \<and> fdhandle p' = fdhandle p \<and>
    fromChannel p' = fromChannel p \<and> diskbuf (backup p') = diskbuf (backup p) \<and> dirty (backup p') = clean_table"
  using assms
  by (simp add: getData_def bind_eq_Some_conv buf_simps wf_part_def wf_buf_def image_bytes_def committed_def
      pending_def image_of_def)

lemma not_ifHasDirty_clean: "dirty (backup p) = clean_table \<Longrightarrow> \<not> ifHasDirty p"
  by (simp add: ifHasDirty_def clean_table_def)

text \<open>What a save keeps, whether or not the disk takes the image.\<close>

definition same_content :: "RAMNV_PART_CTRL \<Rightarrow> RAMNV_PART_CTRL \<Rightarrow> bool" where
  "same_content p p' \<longleftrightarrow> sctNum p' = sctNum p \<and> part_id p' = part_id p \<and> fdhandle p' = fdhandle p \<and>
     fromChannel p' = fromChannel p \<and> diskbuf (backup p') = diskbuf (backup p)"

lemma same_content_refl [simp]: "same_content p p"
  by (simp add: same_content_def)

lemma save_part_spec:
  assumes "wf_part p" "save_part cfg p d = Some (p', d')"
  shows "wf_part p'" "same_content p p'" "\<not> ifHasDirty p'"
proof -
  obtain q where q: "getData p = Some q" "wf_part q" "same_content p q" "dirty (backup q) = clean_table"
    using getData_spec [OF assms(1)] unfolding same_content_def by blast
  consider (clean) "\<not> ifHasDirty p" "p' = p" | (kept) "p' = q" | (written) "p' = q\<lparr>toDisk := (toDisk q)\<lparr>dirty := clean_table\<rparr>\<rparr>"
    using assms(2) q(1) by (auto simp: save_part_def bind_eq_Some_conv split: if_splits)
  then have "wf_part p' \<and> same_content p p' \<and> \<not> ifHasDirty p'"
  proof cases
    case written
    then show ?thesis using q not_ifHasDirty_clean [OF q(4)]
      by (simp add: wf_part_def wf_buf_def image_bytes_def same_content_def ifHasDirty_def)
  qed (use assms(1) q not_ifHasDirty_clean in auto)
  then show "wf_part p'" "same_content p p'" "\<not> ifHasDirty p'" by simp_all
qed

lemma save_loop_spec:
  assumes "list_all wf_part ps" "save_loop cfg ps d = Some (ps', d')"
  shows "list_all wf_part ps'" "list_all2 same_content ps ps'" "list_all (\<lambda>p. \<not> ifHasDirty p) ps'"
proof -
  have "list_all wf_part ps' \<and> list_all2 same_content ps ps' \<and> list_all (\<lambda>p. \<not> ifHasDirty p) ps'"
    using assms
    by (induction ps arbitrary: d ps' d') (auto simp: bind_eq_Some_conv dest: save_part_spec)
  then show "list_all wf_part ps'" "list_all2 same_content ps ps'" "list_all (\<lambda>p. \<not> ifHasDirty p) ps'" by simp_all
qed

lemma save_loop_clean: "list_all (\<lambda>p. \<not> ifHasDirty p) ps \<Longrightarrow> save_loop cfg ps d = Some (ps, d)"
  by (induction ps) (simp_all add: save_part_def)

text \<open>A dirty partition on a working disk: both files hold the committed image afterwards.\<close>

lemma save_part_stored:
  assumes "wf_part p" "ifHasDirty p" "usable cfg (fdhandle p) (image_bytes p) (Suc k) d"
  shows "\<exists>p' d'. save_part cfg p d = Some (p', d') \<and> holds cfg (fdhandle p) (image_bytes p) (committed p) d' \<and>
    usable cfg (fdhandle p) (image_bytes p) k d'"
proof -
  obtain q where q: "getData p = Some q" "wf_part q" "image_of q (toDisk q) = committed p" "sctNum q = sctNum p"
      "fdhandle q = fdhandle p"
    using getData_spec [OF assms(1)] by blast
  have len: "length (committed p) = image_bytes p"
    using assms(1) by (simp add: committed_def image_of_def wf_part_def wf_buf_def)
  obtain d' where d': "ramDisk_Write cfg (fdhandle p) (committed p) d = Some (True, d')"
      "holds cfg (fdhandle p) (image_bytes p) (committed p) d'" "usable cfg (fdhandle p) (image_bytes p) k d'"
    using ramdisk.save_stored [OF assms(3) len] by blast
  have "buf_read 0 (RAMNV_SECT_SIZE * sctNum q) (diskbuf (toDisk q)) = Some (committed p)"
    using q(2,3) by (simp add: buf_simps wf_part_def wf_buf_def image_of_def image_bytes_def)
  then show ?thesis using assms(2) q(1,5) d' by (simp add: save_part_def)
qed

section \<open>The buffers of the module\<close>

definition wf_mem :: "nv_mem \<Rightarrow> bool" where
  "wf_mem m \<longleftrightarrow> list_all wf_part (parts m) \<and> length (parts m) \<le> RAMNV_NUM"

lemma read_image_length:
  assumes "read_image c n d = Some (r1, r2, h, b, d')"
  shows "length b = n"
proof -
  obtain c1 bb c2 where "sys_read n c1 = Some (r2, bb, c2)" "b = bb @ drop (length bb) (replicate n 0xFF)"
    using assms by (auto simp: read_image_def bind_eq_Some_conv)
  moreover from this have "length bb \<le> n" using sys_read_props(1,2) [of n c1 r2 bb c2] by simp
  ultimately show ?thesis by simp
qed

lemma ramDisk_Read_length:
  assumes "ramDisk_Read cfg order h n buf d = Some (ok, b, d')" "length buf = n"
  shows "length b = n"
proof (cases "getIdx cfg h")
  case None
  then show ?thesis using assms by (simp add: ramDisk_Read_def)
next
  case (Some idx)
  let ?a = "first_name order (cfg ! idx)" and ?b = "second_name order (cfg ! idx)"
  obtain good ret2 b1 d1 where
    1: "(case open_rd ?a d of None \<Rightarrow> Some (False, 0, replicate n 0xFF, d)
         | Some c \<Rightarrow> do { (r1, r2, h, b, d) \<leftarrow> read_image c n d;
                          Some (r1 = int RAMNV_SECT_SIZE \<and> r2 = int n \<and> chkNVEcc b (header_checksum h), r2, b, d) })
        = Some (good, ret2, b1, d1)"
    and 2: "(if good then Some (True, b1, d1)
             else do { (r1, r2, h, b, d) \<leftarrow> (case open_rd ?b d1 of
                           None \<Rightarrow> Some (int RAMNV_SECT_SIZE, ret2, replicate RAMNV_SECT_SIZE 0, replicate n 0xFF, d1)
                         | Some c \<Rightarrow> read_image c n d1);
                       (if r1 \<noteq> int RAMNV_SECT_SIZE \<or> r2 \<noteq> int n \<or> \<not> chkNVEcc b (header_checksum h)
                        then Some (True, b, d)
                        else if openable d ?a
                        then do { (w1, w2, d) \<leftarrow> rewrite_file ?a h b d; Some (True, b, d) }
                        else Some (True, b, d)) }) = Some (ok, b, d')"
    using assms(1) unfolding ramDisk_Read_def Some option.case Let_def first_name_def [symmetric] second_name_def [symmetric]
    by (rule bind_eq_Some_conv [THEN iffD1, THEN exE]) (auto split: prod.splits)
  have "length b1 = n" using 1 by (auto simp: bind_eq_Some_conv read_image_length split: option.splits)
  moreover have "length b = n" if "\<not> good"
    using 2 that by (auto simp: bind_eq_Some_conv read_image_length split: option.splits if_splits)
  ultimately show ?thesis using 2 by (cases good) auto
qed

lemma initBuf_loop_fresh:
  assumes "initBuf_loop cfg rnd junk cs d ps = Some (ps', d')"
    "list_all (\<lambda>p. wf_part p \<and> pending p = committed p) ps" "length ps \<le> RAMNV_NUM"
  shows "list_all (\<lambda>p. wf_part p \<and> pending p = committed p) ps' \<and> length ps' \<le> RAMNV_NUM"
  using assms
proof (induction cfg rnd junk cs d ps arbitrary: ps' d' rule: initBuf_loop.induct)
  case (2 cfg rnd junk c cs d ps)
  show ?case
  proof (cases "partId c = 0")
    case True
    then show ?thesis using "2.prems" by simp
  next
    case False
    then have f: "\<not> RAMNV_NUM \<le> length ps" "\<not> 2 ^ 32 \<le> unat (image_size c) + 4"
      using "2.prems"(1) by (auto simp: ramDisk_Open_def split: if_splits)
    let ?n = "unat (image_size c)"
    obtain ok buf d1 where r: "ramDisk_Read cfg (rnd (length cs)) (partId c) ?n (replicate ?n 0) d = Some (ok, buf, d1)"
      using "2.prems"(1) False f by (auto simp: ramDisk_Open_def bind_eq_Some_conv)
    have len: "length buf = ?n" using ramDisk_Read_length [OF r] by simp
    define b where "b = \<lparr>diskbuf = buf @ take 4 junk, dirty = clean_table\<rparr>"
    define p where "p = \<lparr>part_id = partId c, sctNum = ?n div RAMNV_SECT_SIZE, fromChannel = b, backup = b, toDisk = b,
      fdhandle = partId c\<rparr>"
    have p: "wf_part p \<and> pending p = committed p"
      using len by (simp add: wf_part_def wf_buf_def p_def b_def pending_def committed_def image_of_def image_bytes_def
          times_div_less_eq_dividend [THEN trans_le_add1])
    have rest: "initBuf_loop cfg rnd junk cs d1 (if ok then ps @ [p] else ps) = Some (ps', d')"
      using "2.prems"(1) False f r by (simp add: ramDisk_Open_def p_def b_def Let_def split: if_splits)
    show ?thesis
    proof (cases ok)
      case True
      then show ?thesis using "2.IH"(3) [OF False f(1) _ f(2), of "(ok, buf, d1)" ok "(buf, d1)" buf d1 b ps' d'] rest r p "2.prems" f
        by (simp add: ramDisk_Open_def False p_def b_def)
    next
      case F: False
      then show ?thesis using "2.IH"(2) [OF False f(1) _ f(2), of "(ok, buf, d1)" ok "(buf, d1)" buf d1 ps' d'] rest r "2.prems"
        by (simp add: ramDisk_Open_def False)
    qed
  qed
qed simp

lemma get_put_part [simp]:
  "unat i < length (parts m) \<Longrightarrow> get_part i (put_part i p m) = Some p"
  "unat i \<noteq> unat j \<Longrightarrow> get_part j (put_part i p m) = get_part j m"
  by (simp_all add: get_part_def put_part_def)

lemma put_part_fields [simp]:
  "ramdiskCfg (put_part i p m) = ramdiskCfg m" "is_cali_mode (put_part i p m) = is_cali_mode m"
  "nvdisk (put_part i p m) = nvdisk m" "save_event (put_part i p m) = save_event m"
  "parts (put_part i p m) = (parts m)[unat i := p]"
  by (simp_all add: put_part_def)

section \<open>Properties of the buffers\<close>

text \<open>C22: \<open>_markDirtyInfo\<close> on a run of sectors inside the table sets exactly the bits of the run in
  the table of \<open>fromChannel\<close>, across the word boundaries, and changes nothing else.\<close>

theorem mark_dirty_exact:
  assumes "get_part i m = Some p" and "length (dirty (fromChannel p)) = RAMNV_DIRTYTABLE_MAXSIZE"
    and "0 < scts" and "unat start + unat scts \<le> 1024"
  shows "\<exists>t. markDirtyInfo i start scts m = Some (put_part i (p\<lparr>fromChannel := (fromChannel p)\<lparr>dirty := t\<rparr>\<rparr>) m) \<and>
    length t = RAMNV_DIRTYTABLE_MAXSIZE \<and>
    (\<forall>b. sector_dirty t b \<longleftrightarrow>
       sector_dirty (dirty (fromChannel p)) b \<or> unat start \<le> b \<and> b < unat start + unat scts)"
proof -
  have "0 < unat scts" using assms(3) by (simp add: unat_gt_0 word_gt_0)
  moreover have "32 * (unat start div 32) + unat start mod 32 = unat start" by simp
  ultimately show ?thesis
    using mark_loop_spec [of "unat scts" "unat start mod 32" "unat start div 32" "dirty (fromChannel p)"] assms
    by (auto simp: markDirtyInfo_def RAMNV_DIRTYTABLE_MAXSIZE_def)
qed

definition demo_buf :: RAMNV_BUF_CTRL where
  "demo_buf = \<lparr>diskbuf = [1, 2, 3, 4], dirty = clean_table\<rparr>"

definition demo_part :: RAMNV_PART_CTRL where
  "demo_part = \<lparr>part_id = 1, sctNum = 0, fromChannel = demo_buf, backup = demo_buf\<lparr>dirty := clean_table[0 := 1]\<rparr>,
     toDisk = demo_buf, fdhandle = 1\<rparr>"

definition demo_mem :: nv_mem where
  "demo_mem = \<lparr>parts = [demo_part], ramdiskCfg = demo_cfg, is_cali_mode = False, save_event = False,
     nvdisk = demo_disk\<lparr>wr_out := replicate 4 (-1)\<rparr>\<rparr>"

theorem mark_dirty_exact_witness:
  "\<exists>t. markDirtyInfo 0 30 40 demo_mem =
      Some (put_part 0 (demo_part\<lparr>fromChannel := (fromChannel demo_part)\<lparr>dirty := t\<rparr>\<rparr>) demo_mem) \<and>
    length t = RAMNV_DIRTYTABLE_MAXSIZE \<and>
    (\<forall>b. sector_dirty t b \<longleftrightarrow>
       sector_dirty (dirty (fromChannel demo_part)) b \<or> unat (30 :: u32) \<le> b \<and> b < unat (30 :: u32) + unat (40 :: u32))"
  by (rule mark_dirty_exact) (simp_all add: get_part_def demo_mem_def demo_part_def demo_buf_def)

text \<open>Finding. A save leaves nothing for the next one, also when the writes failed: a second
  \<open>saveToDisk\<close> writes no file and changes nothing.\<close>

theorem save_not_retried:
  assumes "wf_mem m" and "saveToDisk m = Some m1"
  shows "saveToDisk m1 = Some m1"
proof -
  obtain ps d where s: "save_loop (ramdiskCfg m) (parts m) (nvdisk m) = Some (ps, d)" "m1 = m\<lparr>parts := ps, nvdisk := d\<rparr>"
    using assms(2) by (auto simp: saveToDisk_def bind_eq_Some_conv)
  have "list_all wf_part (parts m)" using assms(1) by (simp add: wf_mem_def)
  then have "list_all (\<lambda>p. \<not> ifHasDirty p) ps" using s(1) by (rule save_loop_spec(3))
  then show ?thesis by (simp add: saveToDisk_def s(2) save_loop_clean)
qed

lemma demo_mem_wf: "wf_mem demo_mem"
  by (simp add: wf_mem_def demo_mem_def wf_part_def wf_buf_def demo_part_def demo_buf_def image_bytes_def RAMNV_NUM_def)

definition demo_saved :: nv_mem where
  "demo_saved = demo_mem\<lparr>parts := [demo_part\<lparr>backup := demo_buf, toDisk := demo_buf\<lparr>dirty := clean_table[0 := 1]\<rparr>\<rparr>],
     nvdisk := demo_disk\<lparr>files := [''/a2'' \<mapsto> [], ''/a1'' \<mapsto> []], wr_out := []\<rparr>\<rparr>"

lemma demo_or: "or_table clean_table (clean_table[0 := 1]) = clean_table[0 := 1]"
  by (simp add: or_table_def clean_table_def RAMNV_DIRTYTABLE_MAXSIZE_def eval_nat_numeral)

lemma demo_save: "saveToDisk demo_mem = Some demo_saved"
proof -
  have d: "ifHasDirty demo_part"
    by (simp add: ifHasDirty_def demo_part_def clean_table_def RAMNV_DIRTYTABLE_MAXSIZE_def numeral_eq_Suc)
  show ?thesis
    by (simp add: saveToDisk_def demo_mem_def save_part_def d getData_def copy_sectors_def buf_read_def buf_write_def)
       (simp add: demo_part_def demo_buf_def demo_or ramDisk_Write_def write_image_def demo_disk_def rewrite_file_def
          sys_write_def demo_saved_def demo_mem_def numeral_eq_Suc RAMNV_SECT_SIZE_def)
qed

theorem save_not_retried_witness: "saveToDisk demo_mem = Some demo_saved \<and> saveToDisk demo_saved = Some demo_saved"
  using save_not_retried [OF demo_mem_wf demo_save] demo_save by simp

end
