(* ===== verification/Nv_Sync.thy ===== *)
theory Nv_Sync
  imports Nv_Buf
begin

unbundle bit_operations_syntax

text \<open>
  The protocol of the NV daemon: the packets of \<open>nvitem_packet.c\<close> on the pipe of
  \<open>nvitem_channe_spipe.c\<close>, and the requests of \<open>nvitem_sync.c\<close> inside them. A request is a head,
  bodies each followed by the data of a run of sectors, and a tail; it may be spread over the
  packets of a group.

  The static variables of both files are the record \<open>nv_sync\<close>. A pointer into \<open>packeBuf\<close> is
  an offset. \<open>None\<close> is an access outside an array or a call that never returns.
\<close>

section \<open>State\<close>

datatype PACKET = PACKET_START | PACKET_CONTINUE | PACKET_SKIP | PACKET_FAIL

definition MAGICNUM :: u32 where "MAGICNUM = 0x524d4e56"
definition PACKET_HEAD_SIZE :: nat where "PACKET_HEAD_SIZE = 20"
definition PACKETSIZE :: nat where "PACKETSIZE = 1024"
definition PACKETRSP_SIZE :: nat where "PACKETRSP_SIZE = 16"

definition SYNC_REQ_HEAD :: u32 where "SYNC_REQ_HEAD = 0"
definition SYNC_REQ_BODY :: u32 where "SYNC_REQ_BODY = 1"
definition SYNC_REQ_TAIL :: u32 where "SYNC_REQ_TAIL = 2"

text \<open>The size of the union \<open>SYNC_REQ\<close>, that of its largest member \<open>SYNC_BODY\<close>.\<close>

definition SYNC_REQ_SIZE :: u32 where "SYNC_REQ_SIZE = 20"

datatype SYNC = SYNC_CONTINUE | SYNC_NEXT | SYNC_DONE | SYNC_FAIL

record nv_sync =
  mem :: nv_mem
  link :: chan
  packeBuf :: bytes
  idxGrp :: u32
  idxSub :: u32
  syncState :: u32
  syncBusy :: u32
  syncReqFrame :: u32
  syncReqBuf :: bytes
  ofst :: u32
  sid :: u32
  sstart :: u32
  slen :: u32

section \<open>Channel and packets\<close>

text \<open>The result of \<open>read\<close> is stored in an unsigned variable: the error -1 is not less than
  any size and counts as success.\<close>

definition channel_read :: "nv_sync \<Rightarrow> (bool \<times> u32 \<times> nv_sync) option" where
  "channel_read s =
     do { (r, b, c) \<leftarrow> sys_read (PACKET_HEAD_SIZE + PACKETSIZE) (link s);
          Some (\<not> (word_of_int r :: u32) < word_of_nat (PACKET_HEAD_SIZE + PACKETSIZE), word_of_int r,
                s\<lparr>link := c, packeBuf := b @ drop (length b) (packeBuf s)\<rparr>) }"

definition channel_write :: "bytes \<Rightarrow> nv_sync \<Rightarrow> nv_sync option" where
  "channel_write d s = do { (r, c) \<leftarrow> sys_write d (link s); Some (s\<lparr>link := c\<rparr>) }"

definition initPacket :: "nv_sync \<Rightarrow> nv_sync" where
  "initPacket s = s\<lparr>idxGrp := -1, idxSub := 0\<rparr>"

text \<open>The response repeats the head of the packet with a size of 1 and a cleared checksum.\<close>

definition packet_rsp :: "bytes \<Rightarrow> bool \<Rightarrow> bytes" where
  "packet_rsp head rsp =
     take 4 head @ to_le32 0 @ take 8 (drop 8 head) @ to_le32 1 @
     (if rsp then 1 else 0) # replicate (PACKETRSP_SIZE - 1) 0"

definition sendPacktRsp :: "bool \<Rightarrow> nv_sync \<Rightarrow> nv_sync option" where
  "sendPacktRsp rsp s =
     do { h \<leftarrow> buf_read 0 PACKET_HEAD_SIZE (packeBuf s); channel_write (packet_rsp h rsp) s }"

text \<open>\<open>_getPacket\<close>: its result, the new \<open>buf\<close> and \<open>size\<close>, which are only set for a packet of a
  request, and the state. \<open>__chkEcc\<close> always succeeds. The sum with \<open>sizeOfPacket\<close> is unsigned.\<close>

definition getPacket :: "nat \<times> u32 \<Rightarrow> nv_sync \<Rightarrow> (PACKET \<times> (nat \<times> u32) \<times> nv_sync) option" where
  "getPacket bs s =
     do { (ok, hasRead, s) \<leftarrow> channel_read s;
          (if \<not> ok then Some (PACKET_FAIL, bs, s)
           else if hasRead < word_of_nat PACKET_HEAD_SIZE then Some (PACKET_SKIP, bs, s)
           else do {
             magic \<leftarrow> read_le32 0 (packeBuf s);
             grp \<leftarrow> read_le32 8 (packeBuf s);
             sub \<leftarrow> read_le32 12 (packeBuf s);
             sizeOfPacket \<leftarrow> read_le32 16 (packeBuf s);
             (if MAGICNUM \<noteq> magic then Some (PACKET_SKIP, bs, s)
              else if hasRead < word_of_nat PACKET_HEAD_SIZE + sizeOfPacket then Some (PACKET_SKIP, bs, s)
              else if idxGrp s = grp
              then if idxSub s + 1 = sub
                   then Some (PACKET_CONTINUE, (PACKET_HEAD_SIZE, sizeOfPacket), s\<lparr>idxSub := idxSub s + 1\<rparr>)
                   else Some (PACKET_SKIP, bs, s)
              else if sub = 0
              then Some (PACKET_START, (PACKET_HEAD_SIZE, sizeOfPacket), s\<lparr>idxGrp := grp, idxSub := 0\<rparr>)
              else Some (PACKET_SKIP, bs, s)) }) }"

section \<open>Requests\<close>

definition syncInit :: "nv_sync \<Rightarrow> nv_sync" where
  "syncInit s =
     s\<lparr>syncState := 0, syncBusy := 0, syncReqFrame := 0, ofst := 0, sid := -1, sstart := 0, slen := 0\<rparr>"

definition syncReset :: "bool \<Rightarrow> nv_sync \<Rightarrow> (bool \<times> nv_sync) option" where
  "syncReset ifSuc s =
     do { (ret, m) \<leftarrow> (if ifSuc then backupData (sid s) (mem s)
                       else if syncState s \<noteq> 0 then map_option (Pair True) (restoreData (sid s) (mem s))
                       else Some (True, mem s));
          Some (ret, syncInit (s\<lparr>mem := m\<rparr>)) }"

text \<open>\<open>syncReqBuf\<close> is an array of pointers, so \<open>syncReqBuf+_ofst\<close> is four times \<open>_ofst\<close> bytes
  into it.\<close>

definition getToken :: "nat \<times> u32 \<Rightarrow> nv_sync \<Rightarrow> (bool \<times> (nat \<times> u32) \<times> nv_sync) option" where
  "getToken bs s =
     (case bs of (buf, n) \<Rightarrow>
        (let need = SYNC_REQ_SIZE - ofst s
         in if n < need
            then if n \<noteq> 0 then Some (False, bs, s)
                 else do { d \<leftarrow> buf_read buf (unat n) (packeBuf s);
                           b \<leftarrow> buf_write (4 * unat (ofst s)) d (syncReqBuf s);
                           Some (False, (buf + unat n, 0), s\<lparr>syncReqBuf := b, ofst := ofst s + n\<rparr>) }
            else if need = 0 then Some (True, bs, s\<lparr>ofst := 0\<rparr>)
            else do { d \<leftarrow> buf_read buf (unat need) (packeBuf s);
                      b \<leftarrow> buf_write (4 * unat (ofst s)) d (syncReqBuf s);
                      Some (True, (buf + unat need, n - need), s\<lparr>syncReqBuf := b, ofst := 0\<rparr>) }))"

definition syncGetHead :: "nat \<times> u32 \<Rightarrow> nv_sync \<Rightarrow> (SYNC \<times> (nat \<times> u32) \<times> nv_sync) option" where
  "syncGetHead bs s =
     do { (got, bs, s) \<leftarrow> getToken bs s;
          (if \<not> got then Some (SYNC_CONTINUE, bs, s)
           else do {
             packet_type \<leftarrow> read_le32 0 (syncReqBuf s);
             reqIdx \<leftarrow> read_le32 4 (syncReqBuf s);
             pid \<leftarrow> read_le32 8 (syncReqBuf s);
             (if SYNC_REQ_HEAD \<noteq> packet_type then Some (SYNC_FAIL, bs, s)
              else (let s = s\<lparr>syncReqFrame := reqIdx, sid := getCtlId pid (mem s)\<rparr>
                    in Some (if sid s = -1 then SYNC_FAIL else SYNC_NEXT, bs, s))) }) }"

definition syncGetBody :: "nat \<times> u32 \<Rightarrow> nv_sync \<Rightarrow> (SYNC \<times> (nat \<times> u32) \<times> nv_sync) option" where
  "syncGetBody bs s =
     do { (got, bs, s) \<leftarrow> getToken bs s;
          (if \<not> got then Some (SYNC_CONTINUE, bs, s)
           else do {
             packet_type \<leftarrow> read_le32 0 (syncReqBuf s);
             reqIdx \<leftarrow> read_le32 4 (syncReqBuf s);
             start \<leftarrow> read_le32 12 (syncReqBuf s);
             num \<leftarrow> read_le32 16 (syncReqBuf s);
             (if SYNC_REQ_BODY = packet_type
              then if syncReqFrame s + 1 \<noteq> reqIdx then Some (SYNC_FAIL, bs, s)
                   else do { m \<leftarrow> markDirtyInfo (sid s) start num (mem s);
                             Some (SYNC_NEXT, bs,
                                   s\<lparr>syncReqFrame := syncReqFrame s + 1, mem := m,
                                     sstart := start * word_of_nat RAMNV_SECT_SIZE,
                                     slen := num * word_of_nat RAMNV_SECT_SIZE\<rparr>) }
              else if SYNC_REQ_TAIL = packet_type
              then if syncReqFrame s + 1 \<noteq> reqIdx then Some (SYNC_FAIL, bs, s)
                   else Some (SYNC_DONE, bs, s\<lparr>syncReqFrame := syncReqFrame s + 1\<rparr>)
              else Some (SYNC_FAIL, bs, s)) }) }"

definition syncGetData :: "nat \<times> u32 \<Rightarrow> nv_sync \<Rightarrow> (SYNC \<times> (nat \<times> u32) \<times> nv_sync) option" where
  "syncGetData bs s =
     (case bs of (buf, n) \<Rightarrow>
        if slen s \<le> n
        then do { d \<leftarrow> buf_read buf (unat (slen s)) (packeBuf s);
                  m \<leftarrow> writeData (sid s) (sstart s) d (mem s);
                  Some (SYNC_NEXT, (buf + unat (slen s), n - slen s),
                        s\<lparr>mem := m, sstart := sstart s + slen s, slen := 0\<rparr>) }
        else do { d \<leftarrow> buf_read buf (unat n) (packeBuf s);
                  m \<leftarrow> writeData (sid s) (sstart s) d (mem s);
                  Some (SYNC_CONTINUE, (buf + unat n, 0),
                        s\<lparr>mem := m, sstart := sstart s + n, slen := slen s - n\<rparr>) })"

text \<open>A failed token: the request is undone and refused.\<close>

definition syncRefuse :: "nv_sync \<Rightarrow> nv_sync option" where
  "syncRefuse s = do { (r, s) \<leftarrow> syncReset False s; sendPacktRsp False s }"

text \<open>The inner loop of \<open>syncAnalyzer\<close> over the contents of one packet.\<close>

lemma getToken_less:
  assumes "getToken (b, n) s = Some (True, (b', n'), s')" "n \<noteq> 0"
  shows "unat n' < unat n \<or> n' = n \<and> ofst s \<noteq> 0 \<and> ofst s' = 0"
proof -
  let ?need = "SYNC_REQ_SIZE - ofst s"
  have g: "\<not> n < ?need" using assms by (auto simp: getToken_def Let_def bind_eq_Some_conv split: if_splits)
  show ?thesis
  proof (cases "?need = 0")
    case True
    then have "ofst s \<noteq> 0" by (auto simp: SYNC_REQ_SIZE_def)
    then show ?thesis using assms True by (auto simp: getToken_def)
  next
    case False
    then have "n' = n - ?need" using assms(1) g by (auto simp: getToken_def Let_def bind_eq_Some_conv)
    moreover have "?need \<le> n" using g by simp
    then have "unat (n - ?need) = unat n - unat ?need" by (rule unat_sub)
    moreover have "0 < unat ?need" "0 < unat n" using False assms(2) by (simp_all add: unat_gt_0)
    ultimately show ?thesis by simp
  qed
qed

lemma syncGetHead_less:
  assumes "syncGetHead (b, n) s = Some (SYNC_NEXT, (b', n'), s')" "n \<noteq> 0"
  shows "unat n' < unat n \<or> n' = n \<and> ofst s \<noteq> 0 \<and> ofst s' = 0"
proof -
  obtain s1 where "getToken (b, n) s = Some (True, (b', n'), s1)" "ofst s' = ofst s1"
    using assms(1) by (auto simp: syncGetHead_def bind_eq_Some_conv Let_def split: if_splits)
  then show ?thesis using getToken_less [OF _ assms(2)] by metis
qed

lemma syncGetBody_less:
  assumes "syncGetBody (b, n) s = Some (SYNC_NEXT, (b', n'), s')" "n \<noteq> 0"
  shows "unat n' < unat n \<or> n' = n \<and> ofst s \<noteq> 0 \<and> ofst s' = 0"
proof -
  obtain s1 where "getToken (b, n) s = Some (True, (b', n'), s1)" "ofst s' = ofst s1"
    using assms(1) by (auto simp: syncGetBody_def bind_eq_Some_conv split: if_splits)
  then show ?thesis using getToken_less [OF _ assms(2)] by metis
qed

lemma syncGetData_less:
  assumes "syncGetData (b, n) s = Some (SYNC_NEXT, (b', n'), s')"
  shows "unat n' \<le> unat n" "n' = n \<or> unat n' < unat n" "ofst s' = ofst s"
proof -
  have l: "slen s \<le> n" "n' = n - slen s" "ofst s' = ofst s"
    using assms by (auto simp: syncGetData_def bind_eq_Some_conv split: if_splits)
  then have "unat n' = unat n - unat (slen s)" by (simp add: unat_sub)
  then show "unat n' \<le> unat n" "n' = n \<or> unat n' < unat n" "ofst s' = ofst s"
    using l by (auto simp: word_unat_eq_iff)
qed

function sync_loop :: "nat \<times> u32 \<Rightarrow> nv_sync \<Rightarrow> nv_sync option" where
  "sync_loop (buf, n) s =
     (if n = 0 then Some s
      else if syncState s = 0
      then (case syncGetHead (buf, n) s of
              None \<Rightarrow> None
            | Some (SYNC_FAIL, bs, s') \<Rightarrow> syncRefuse s'
            | Some (SYNC_NEXT, bs, s') \<Rightarrow> sync_loop bs (s'\<lparr>syncState := 1\<rparr>)
            | Some (_, bs, s') \<Rightarrow> sendPacktRsp True s')
      else if syncState s = 1
      then (case syncGetBody (buf, n) s of
              None \<Rightarrow> None
            | Some (SYNC_FAIL, bs, s') \<Rightarrow> syncRefuse s'
            | Some (SYNC_NEXT, bs, s') \<Rightarrow> sync_loop bs (s'\<lparr>syncState := 2\<rparr>)
            | Some (SYNC_CONTINUE, bs, s') \<Rightarrow> sendPacktRsp True s'
            | Some (SYNC_DONE, bs, s') \<Rightarrow> do { (r, s'') \<leftarrow> syncReset True s'; sendPacktRsp r s'' })
      else (case syncGetData (buf, n) s of
              None \<Rightarrow> None
            | Some (SYNC_NEXT, bs, s') \<Rightarrow> sync_loop bs (s'\<lparr>syncState := 1\<rparr>)
            | Some (_, bs, s') \<Rightarrow> sendPacktRsp True s'))"
  by pat_completeness auto
termination
proof (relation "measures [\<lambda>((b, n), s). unat n, \<lambda>((b, n), s). if ofst s = 0 then 0 else 1,
                          \<lambda>((b, n), s). if syncState s = 1 then 0 else 1]", goal_cases)
  case (2 buf n s x2 x y bs s')
  then show ?case using syncGetHead_less [of buf n s "fst bs" "snd bs" s'] by (cases bs) auto
next
  case (3 buf n s x2 x y bs s')
  then show ?case using syncGetBody_less [of buf n s "fst bs" "snd bs" s'] by (cases bs) auto
next
  case (4 buf n s x2 x y bs s')
  then show ?case using syncGetData_less [of buf n s "fst bs" "snd bs" s'] by (cases bs) auto
qed simp

declare sync_loop.simps [simp del]

text \<open>One turn of the outer loop of \<open>syncAnalyzer\<close>: whether it goes on, the local \<open>buf\<close> and
  \<open>size\<close>, and the state. A turn that analyses a packet leaves \<open>buf\<close> and \<open>size\<close> to be set again
  by the next packet, and no turn reads them before that.\<close>

definition syncAnalyzer_turn :: "nv_sync \<Rightarrow> (bool \<times> nv_sync) option" where
  "syncAnalyzer_turn s =
     do { (packetState, bs, s) \<leftarrow> getPacket (0, 0) s;
          (if packetState = PACKET_FAIL
           then do { (r, s) \<leftarrow> syncReset False s; Some (False, s) }
           else if packetState = PACKET_CONTINUE \<and> syncBusy s = 0
           then do { s \<leftarrow> sendPacktRsp False s; Some (True, s) }
           else if packetState = PACKET_SKIP then Some (True, s)
           else do { (r, s) \<leftarrow> (if packetState = PACKET_START \<and> syncBusy s \<noteq> 0
                                then syncReset False s else Some (True, s));
                     s \<leftarrow> sync_loop bs (s\<lparr>syncBusy := 1\<rparr>);
                     Some (True, s) }) }"

partial_function (option) syncAnalyzer :: "nv_sync \<Rightarrow> nv_sync option" where
  "syncAnalyzer s =
     do { (more, s) \<leftarrow> syncAnalyzer_turn s; (if more then syncAnalyzer s else Some s) }"

section \<open>The store as a transaction sees it\<close>

text \<open>The abstract store: the committed images and their partition numbers, the open request, and whether packets of a
  group are accepted. An open request has a partition, the image built so far and the number of its last token; it waits for
  a token, or for the rest of the data of a body, with a position and a number of bytes that is not 0.\<close>

datatype request = NoRequest | Await nat bytes u32 | Filling nat bytes u32 u32 u32

record store =
  names :: "u32 list"
  images :: "bytes list"
  request :: request
  engaged :: bool

definition overlay :: "nat \<Rightarrow> bytes \<Rightarrow> bytes \<Rightarrow> bytes" where
  "overlay off d img = map (\<lambda>k. if off \<le> k \<and> k < off + length d then d ! (k - off) else img ! k) [0..<length img]"

definition field_of :: "nat \<Rightarrow> bytes \<Rightarrow> u32" where
  "field_of k p = from_le32 (take 4 (drop (4 * k) p))"

fun name_index :: "u32 \<Rightarrow> u32 list \<Rightarrow> nat \<Rightarrow> nat option" where
  "name_index pid [] i = None"
| "name_index pid (n # ns) i = (if pid = n then Some i else name_index pid ns (Suc i))"

text \<open>A request that is given up leaves the images as they are; a commit puts the image of the request in.\<close>

definition give_up :: "store \<Rightarrow> store" where
  "give_up st = st\<lparr>request := NoRequest, engaged := False\<rparr>"

definition commit :: "nat \<Rightarrow> bytes \<Rightarrow> store \<Rightarrow> store" where
  "commit i img st = give_up (st\<lparr>images := (images st)[i := img]\<rparr>)"

definition expects :: "nat \<Rightarrow> bytes \<Rightarrow> u32 \<Rightarrow> u32 \<Rightarrow> u32 \<Rightarrow> request" where
  "expects i img f off k = (if k = 0 then Await i img f else Filling i img f off k)"

text \<open>What the contents of a packet do. A token has 20 bytes: type, number, partition, first sector and count. Tokens of a
  request are numbered in sequence; only a tail commits, and it ends the packet. Fewer than 20 bytes where a token is expected are dropped.\<close>

function contents :: "bytes \<Rightarrow> store \<Rightarrow> store" where
  "contents p st =
     (if p = [] then st
      else case request st of
        NoRequest \<Rightarrow>
          if length p < 20 then st
          else if field_of 0 p \<noteq> SYNC_REQ_HEAD then give_up st
          else (case name_index (field_of 2 p) (names st) 0 of
                  None \<Rightarrow> give_up st
                | Some i \<Rightarrow> contents (drop 20 p) (st\<lparr>request := Await i (images st ! i) (field_of 1 p)\<rparr>))
      | Await i img f \<Rightarrow>
          if length p < 20 then st
          else if field_of 1 p \<noteq> f + 1 then give_up st
          else if field_of 0 p = SYNC_REQ_BODY
          then contents (drop 20 p)
                 (st\<lparr>request := expects i img (f + 1) (field_of 3 p * word_of_nat RAMNV_SECT_SIZE)
                                  (field_of 4 p * word_of_nat RAMNV_SECT_SIZE)\<rparr>)
          else if field_of 0 p = SYNC_REQ_TAIL then commit i img st
          else give_up st
      | Filling i img f off k \<Rightarrow>
          if k \<noteq> 0 \<and> unat k \<le> length p
          then contents (drop (unat k) p) (st\<lparr>request := Await i (overlay (unat off) (take (unat k) p) img) f\<rparr>)
          else st\<lparr>request := Filling i (overlay (unat off) p img) f (off + word_of_nat (length p)) (k - word_of_nat (length p))\<rparr>)"
  by pat_completeness auto
termination
  by (relation "measure (\<lambda>(p, st). length p)") (auto simp: unat_gt_0)

declare contents.simps [simp del]

text \<open>What arrives: the first packet of a group, which ends a request that is still open, a further packet of the group,
  something that is skipped, or the end of the pipe.\<close>

datatype arrival = First bytes | Further bytes | Skipped | Broken

fun spec_step :: "store \<Rightarrow> arrival \<Rightarrow> store" where
  "spec_step st (First p) = contents p (st\<lparr>request := NoRequest, engaged := True\<rparr>)"
| "spec_step st (Further p) = (if engaged st then contents p st else st)"
| "spec_step st Skipped = st"
| "spec_step st Broken = give_up st"

definition pendings :: "nv_mem \<Rightarrow> bytes list" where
  "pendings m = map pending (parts m)"

definition committeds :: "nv_mem \<Rightarrow> bytes list" where
  "committeds m = map committed (parts m)"

definition part_ids :: "nv_mem \<Rightarrow> u32 list" where
  "part_ids m = map part_id (parts m)"

definition abs_request :: "nv_sync \<Rightarrow> request" where
  "abs_request s =
     (let i = unat (sid s); img = pendings (mem s) ! i
      in if syncState s = 0 then NoRequest
         else if syncState s = 1 then Await i img (syncReqFrame s)
         else expects i img (syncReqFrame s) (sstart s) (slen s))"

definition abs_store :: "nv_sync \<Rightarrow> store" where
  "abs_store s =
     \<lparr>names = part_ids (mem s), images = committeds (mem s), request = abs_request s, engaged = (syncBusy s \<noteq> 0)\<rparr>"

lemma take_overlay:
  assumes "buf_write off d b = Some b'"
  shows "take n b' = overlay off d (take n b)"
proof (rule nth_equalityI)
  show "length (take n b') = length (overlay off d (take n b))"
    using buf_write_length [OF assms] by (simp add: overlay_def)
next
  fix k assume "k < length (take n b')"
  then show "take n b' ! k = overlay off d (take n b) ! k"
    using buf_write_nth [OF assms, of k] buf_write_length [OF assms] by (simp add: overlay_def)
qed

text \<open>Outside the partition of the open request the two buffers agree; between requests they agree
  everywhere.\<close>

definition settled :: "nv_mem \<Rightarrow> (nat \<Rightarrow> bool) \<Rightarrow> bool" where
  "settled m X \<longleftrightarrow> (\<forall>j < length (parts m). \<not> X j \<longrightarrow> pendings m ! j = committeds m ! j)"

definition sync_inv :: "nv_sync \<Rightarrow> bool" where
  "sync_inv s \<longleftrightarrow> wf_mem (mem s) \<and> ofst s = 0 \<and> length (packeBuf s) = PACKET_HEAD_SIZE + PACKETSIZE \<and>
     length (syncReqBuf s) = 80 \<and> (syncState s \<noteq> 0 \<longrightarrow> unat (sid s) < length (parts (mem s))) \<and>
     settled (mem s) (\<lambda>j. syncState s \<noteq> 0 \<and> j = unat (sid s))"

lemma wf_mem_nth: "wf_mem m \<Longrightarrow> get_part i m = Some p \<Longrightarrow> wf_part p"
  by (auto simp: wf_mem_def get_part_def list_all_length split: if_splits)

lemma wf_mem_put: "wf_mem m \<Longrightarrow> wf_part p \<Longrightarrow> wf_mem (put_part i p m)"
  by (cases "unat i < length (parts m)") (auto simp: wf_mem_def list_all_length nth_list_update)

lemma get_part_SomeD: "get_part i m = Some p \<Longrightarrow> unat i < length (parts m) \<and> p = parts m ! unat i"
  by (simp add: get_part_def split: if_splits)

lemma get_part_nth: "unat i < length (parts m) \<Longrightarrow> get_part i m = Some (parts m ! unat i)"
  by (simp add: get_part_def)

lemma find_part_bound: "find_part pid ps k = Some i \<Longrightarrow> k \<le> i \<and> i < k + length ps \<and> part_id (ps ! (i - k)) = pid"
proof (induction ps arbitrary: k)
  case (Cons p ps)
  show ?case
  proof (cases "pid = part_id p")
    case False
    then have "Suc k \<le> i \<and> i < Suc k + length ps \<and> part_id (ps ! (i - Suc k)) = pid"
      using Cons.IH [of "Suc k"] Cons.prems by auto
    moreover from this have "i - k = Suc (i - Suc k)" by linarith
    ultimately show ?thesis by simp
  qed (use Cons.prems in auto)
qed simp

lemma getCtlId_valid:
  assumes "getCtlId pid m \<noteq> -1" "length (parts m) \<le> RAMNV_NUM"
  shows "unat (getCtlId pid m) < length (parts m)" "part_id (parts m ! unat (getCtlId pid m)) = pid"
proof -
  obtain i where i: "find_part pid (parts m) 0 = Some i" using assms(1) by (auto simp: getCtlId_def split: option.splits)
  then have b: "i < length (parts m)" "part_id (parts m ! i) = pid" using find_part_bound [OF i] by auto
  then have "i < 2 ^ 32" using assms(2) by (simp add: RAMNV_NUM_def)
  then have "unat (word_of_nat i :: u32) = i" by (simp add: unat_of_nat take_bit_nat_eq_self)
  then show "unat (getCtlId pid m) < length (parts m)" "part_id (parts m ! unat (getCtlId pid m)) = pid"
    using i b by (simp_all add: getCtlId_def)
qed

subsection \<open>The operations of the buffers on the abstract store\<close>

lemma mark_loop_length: "mark_loop k b n t = Some t' \<Longrightarrow> length t' = length t"
proof (induction k b n t rule: mark_loop.induct)
  case (1 k b n t)
  show ?case
  proof (cases "length t \<le> k \<or> \<not> 32 - b < n")
    case True
    then show ?thesis using "1.prems" by (subst (asm) mark_loop.simps) (auto split: if_splits)
  next
    case False
    then have "mark_loop (Suc k) 0 (n - (32 - b)) (t[k := t ! k OR push_bit b (-1)]) = Some t'"
      using "1.prems" by (subst (asm) mark_loop.simps) (simp split: if_splits)
    then show ?thesis using "1.IH" False by simp
  qed
qed

lemma pendings_put [simp]: "pendings (put_part i p m) = (pendings m)[unat i := pending p]"
  by (simp add: pendings_def map_update)

lemma committeds_put [simp]: "committeds (put_part i p m) = (committeds m)[unat i := committed p]"
  by (simp add: committeds_def map_update)

lemma part_ids_put [simp]: "part_ids (put_part i p m) = (part_ids m)[unat i := part_id p]"
  by (simp add: part_ids_def put_part_def map_update)

lemma lists_at:
  assumes "get_part i m = Some p"
  shows "pendings m ! unat i = pending p" "committeds m ! unat i = committed p" "unat i < length (parts m)"
    "part_ids m ! unat i = part_id p"
  using get_part_SomeD [OF assms] by (simp_all add: pendings_def committeds_def part_ids_def)

lemma list_update_unchanged: "xs ! i = x \<Longrightarrow> xs[i := x] = xs"
  using list_update_id by metis

lemma markDirtyInfo_effect:
  assumes "markDirtyInfo i start n m = Some m'" "wf_mem m"
  shows "wf_mem m' \<and> length (parts m') = length (parts m) \<and> committeds m' = committeds m \<and> pendings m' = pendings m \<and> part_ids m' = part_ids m"
proof -
  obtain p t where p: "get_part i m = Some p"
    "mark_loop (unat start div 32) (unat start mod 32) (unat n) (dirty (fromChannel p)) = Some t"
    "m' = put_part i (p\<lparr>fromChannel := (fromChannel p)\<lparr>dirty := t\<rparr>\<rparr>) m"
    using assms(1) by (auto simp: markDirtyInfo_def bind_eq_Some_conv)
  let ?p = "p\<lparr>fromChannel := (fromChannel p)\<lparr>dirty := t\<rparr>\<rparr>"
  have "wf_part ?p" "pending ?p = pending p" "committed ?p = committed p"
    using wf_mem_nth [OF assms(2) p(1)] mark_loop_length [OF p(2)]
    by (simp_all add: wf_part_def wf_buf_def image_bytes_def pending_def committed_def image_of_def)
  then show ?thesis using wf_mem_put [OF assms(2)] lists_at [OF p(1)] by (simp add: p(3) list_update_unchanged)
qed

lemma writeData_effect:
  assumes "writeData i start d m = Some m'" "wf_mem m" "unat i < length (parts m)"
  shows "wf_mem m' \<and> length (parts m') = length (parts m) \<and> committeds m' = committeds m \<and>
    pendings m' = (pendings m)[unat i := overlay (unat start) d (pendings m ! unat i)] \<and> part_ids m' = part_ids m"
proof (cases "d = []")
  case True
  have "overlay k [] x = x" for k x by (rule nth_equalityI) (auto simp: overlay_def)
  then show ?thesis using True assms by (simp add: writeData_def)
next
  case False
  then obtain p b where p: "get_part i m = Some p" "buf_write (unat start) d (diskbuf (fromChannel p)) = Some b"
    "m' = put_part i (p\<lparr>fromChannel := (fromChannel p)\<lparr>diskbuf := b\<rparr>\<rparr>) m"
    using assms(1) by (auto simp: writeData_def bind_eq_Some_conv)
  let ?p = "p\<lparr>fromChannel := (fromChannel p)\<lparr>diskbuf := b\<rparr>\<rparr>"
  have "wf_part ?p" "pending ?p = overlay (unat start) d (pending p)" "committed ?p = committed p"
    using wf_mem_nth [OF assms(2) p(1)] buf_write_length [OF p(2)] take_overlay [OF p(2)]
    by (simp_all add: wf_part_def wf_buf_def image_bytes_def pending_def committed_def image_of_def)
  then show ?thesis using wf_mem_put [OF assms(2)] lists_at [OF p(1)] by (simp add: p(3) list_update_unchanged)
qed

lemma saveToDisk_effect:
  assumes "saveToDisk m = Some m'" "wf_mem m"
  shows "wf_mem m' \<and> length (parts m') = length (parts m) \<and> committeds m' = committeds m \<and> pendings m' = pendings m \<and>
    part_ids m' = part_ids m"
proof -
  obtain ps d where s: "save_loop (ramdiskCfg m) (parts m) (nvdisk m) = Some (ps, d)" "m' = m\<lparr>parts := ps, nvdisk := d\<rparr>"
    using assms(1) by (auto simp: saveToDisk_def bind_eq_Some_conv)
  have w: "list_all wf_part (parts m)" using assms(2) by (simp add: wf_mem_def)
  have c: "list_all2 same_content (parts m) ps" using save_loop_spec(2) [OF w s(1)] .
  then have "map committed ps = map committed (parts m) \<and> map pending ps = map pending (parts m) \<and> map part_id ps = map part_id (parts m) \<and> length ps = length (parts m)"
    by (induction rule: list_all2_induct)
       (auto simp: same_content_def committed_def pending_def image_of_def image_bytes_def)
  then show ?thesis using save_loop_spec(1) [OF w s(1)] assms(2)
    by (simp add: s(2) wf_mem_def committeds_def pendings_def part_ids_def)
qed

lemma backupData_effect:
  assumes "backupData i m = Some (r, m')" "wf_mem m"
  shows "r \<and> wf_mem m' \<and> length (parts m') = length (parts m) \<and> pendings m' = pendings m \<and>
    committeds m' = (committeds m)[unat i := pendings m ! unat i] \<and> unat i < length (parts m) \<and> part_ids m' = part_ids m"
proof -
  obtain p p' where p: "get_part i m = Some p" "backup_part p = Some p'"
    and m': "(if is_cali_mode m then saveToDisk (put_part i p' m)
              else Some ((put_part i p' m)\<lparr>save_event := True\<rparr>)) = Some m'" "r"
    using assms(1) by (auto simp: backupData_def bind_eq_Some_conv)
  have q: "wf_part p'" "committed p' = pending p" "pending p' = pending p" "part_id p' = part_id p"
    using backup_part_spec [OF wf_mem_nth [OF assms(2) p(1)]] p(2) by auto
  have w: "wf_mem (put_part i p' m)" using wf_mem_put [OF assms(2) q(1)] .
  have e: "wf_mem m' \<and> length (parts m') = length (parts m) \<and> committeds m' = committeds (put_part i p' m) \<and>
      pendings m' = pendings (put_part i p' m) \<and> part_ids m' = part_ids (put_part i p' m)"
  proof (cases "is_cali_mode m")
    case True
    then show ?thesis using m'(1) saveToDisk_effect [OF _ w] by simp
  next
    case False
    then show ?thesis using m'(1) w by (auto simp: wf_mem_def pendings_def committeds_def part_ids_def)
  qed
  then show ?thesis using m'(2) q lists_at [OF p(1)] by (simp add: list_update_unchanged)
qed

lemma restoreData_effect:
  assumes "restoreData i m = Some m'" "wf_mem m"
  shows "wf_mem m' \<and> length (parts m') = length (parts m) \<and> committeds m' = committeds m \<and>
    pendings m' = (pendings m)[unat i := committeds m ! unat i] \<and> unat i < length (parts m) \<and> part_ids m' = part_ids m"
proof -
  obtain p p' where p: "get_part i m = Some p" "restore_part p = Some p'" "m' = put_part i p' m"
    using assms(1) by (auto simp: restoreData_def bind_eq_Some_conv)
  have q: "wf_part p'" "committed p' = committed p" "pending p' = committed p" "part_id p' = part_id p"
    using restore_part_spec [OF wf_mem_nth [OF assms(2) p(1)]] p(2) by auto
  show ?thesis using wf_mem_put [OF assms(2) q(1)] q lists_at [OF p(1)] by (simp add: p(3) list_update_unchanged)
qed

subsection \<open>The operations of the protocol on the abstract store\<close>

text \<open>Changes of the variables that neither the invariant nor the abstract store depends on.\<close>

lemma sync_inv_irrelevant [simp]:
  "sync_inv (s\<lparr>link := c\<rparr>) = sync_inv s" "abs_store (s\<lparr>link := c\<rparr>) = abs_store s"
  "sync_inv (s\<lparr>idxGrp := g\<rparr>) = sync_inv s" "abs_store (s\<lparr>idxGrp := g\<rparr>) = abs_store s"
  "sync_inv (s\<lparr>idxSub := g\<rparr>) = sync_inv s" "abs_store (s\<lparr>idxSub := g\<rparr>) = abs_store s"
  "sync_inv (s\<lparr>syncBusy := g\<rparr>) = sync_inv s" "sync_inv (s\<lparr>syncReqFrame := g\<rparr>) = sync_inv s"
  "sync_inv (s\<lparr>sstart := g\<rparr>) = sync_inv s" "sync_inv (s\<lparr>slen := g\<rparr>) = sync_inv s"
  by (simp_all add: sync_inv_def abs_store_def abs_request_def Let_def)

text \<open>The invariant is kept and what the store looks like is the given function of what it looked like.\<close>

definition becomes :: "nv_sync \<Rightarrow> store \<Rightarrow> bool" where
  "becomes s' st \<longleftrightarrow> sync_inv s' \<and> abs_store s' = st"

lemma becomes_inv: "becomes s' st \<Longrightarrow> sync_inv s'"
  by (simp add: becomes_def)

lemma sendPacktRsp_spec:
  "sendPacktRsp r s = Some s' \<Longrightarrow> becomes s st \<Longrightarrow> becomes s' st \<and> syncState s' = syncState s"
  by (auto simp: sendPacktRsp_def channel_write_def bind_eq_Some_conv becomes_def)

lemma reset_fail_spec:
  assumes "syncReset False s = Some (r, s')" "sync_inv s"
  shows "becomes s' (give_up (abs_store s)) \<and> syncState s' = 0"
proof (cases "syncState s = 0")
  case True
  then have "s' = syncInit s" using assms(1) by (auto simp: syncReset_def syncInit_def)
  then show ?thesis using assms(2) True
    by (auto simp: becomes_def sync_inv_def syncInit_def abs_store_def abs_request_def give_up_def settled_def)
next
  case False
  then obtain m where m: "restoreData (sid s) (mem s) = Some m" "s' = syncInit (s\<lparr>mem := m\<rparr>)"
    using assms(1) by (auto simp: syncReset_def bind_eq_Some_conv)
  have i: "wf_mem (mem s)" "settled (mem s) (\<lambda>j. j = unat (sid s))" using assms(2) False by (simp_all add: sync_inv_def)
  have e: "wf_mem m" "length (parts m) = length (parts (mem s))" "committeds m = committeds (mem s)"
    "pendings m = (pendings (mem s))[unat (sid s) := committeds (mem s) ! unat (sid s)]" "unat (sid s) < length (parts (mem s))"
    "part_ids m = part_ids (mem s)"
    using restoreData_effect [OF m(1) i(1)] by simp_all
  have "settled m (\<lambda>j. False)"
    using i(2) e by (auto simp: settled_def nth_list_update pendings_def)
  then have "sync_inv s'" using e(1) assms(2) by (simp add: m(2) syncInit_def sync_inv_def)
  then show ?thesis using e(3,6) by (simp add: becomes_def m(2) syncInit_def abs_store_def abs_request_def give_up_def)
qed

lemma reset_success_spec:
  assumes "syncReset True s = Some (r, s')" "sync_inv s" "syncState s \<noteq> 0"
  shows "becomes s' (commit (unat (sid s)) (pendings (mem s) ! unat (sid s)) (abs_store s)) \<and> syncState s' = 0 \<and> r"
proof -
  obtain m where m: "backupData (sid s) (mem s) = Some (r, m)" "s' = syncInit (s\<lparr>mem := m\<rparr>)"
    using assms(1) by (auto simp: syncReset_def bind_eq_Some_conv)
  have i: "wf_mem (mem s)" "settled (mem s) (\<lambda>j. j = unat (sid s))" using assms(2,3) by (simp_all add: sync_inv_def)
  have e: "r" "wf_mem m" "length (parts m) = length (parts (mem s))" "pendings m = pendings (mem s)"
    "committeds m = (committeds (mem s))[unat (sid s) := pendings (mem s) ! unat (sid s)]" "unat (sid s) < length (parts (mem s))"
    "part_ids m = part_ids (mem s)"
    using backupData_effect [OF m(1) i(1)] by simp_all
  have "settled m (\<lambda>j. False)"
    using i(2) e by (auto simp: settled_def nth_list_update committeds_def)
  then have "sync_inv s'" using e(2) assms(2) by (simp add: m(2) syncInit_def sync_inv_def)
  then show ?thesis using e(1,5,7)
    by (simp add: becomes_def m(2) syncInit_def abs_store_def abs_request_def commit_def give_up_def)
qed

lemma syncRefuse_spec:
  assumes "syncRefuse s = Some s'" "sync_inv s"
  shows "becomes s' (give_up (abs_store s))"
proof -
  obtain r s1 where r: "syncReset False s = Some (r, s1)" "sendPacktRsp False s1 = Some s'"
    using assms(1) by (auto simp: syncRefuse_def bind_eq_Some_conv)
  then show ?thesis using reset_fail_spec [OF r(1) assms(2)] sendPacktRsp_spec [OF r(2)] by blast
qed

subsection \<open>Tokens\<close>

definition pay :: "nat \<times> u32 \<Rightarrow> bytes \<Rightarrow> bytes" where
  "pay bs p = take (unat (snd bs)) (drop (fst bs) p)"

lemma pay_empty: "pay (b, 0) p = []"
  by (simp add: pay_def)

lemma pay_drop: "k \<le> n \<Longrightarrow> pay (b + unat k, n - k) p = drop (unat k) (pay (b, n) p)"
  by (simp add: pay_def unat_sub drop_take drop_drop add.commute)

text \<open>A token that is complete has been read from the front of the rest of the packet.\<close>

lemma getToken_spec:
  assumes "getToken (b, n) s = Some (g, bs, s')" "sync_inv s" "n \<noteq> 0"
  shows "\<exists>rb. s' = s\<lparr>syncReqBuf := rb\<rparr> \<and> length rb = 80 \<and>
    (if g then 20 \<le> length (pay (b, n) (packeBuf s)) \<and> pay bs (packeBuf s) = drop 20 (pay (b, n) (packeBuf s)) \<and>
               take 20 rb = take 20 (pay (b, n) (packeBuf s))
     else length (pay (b, n) (packeBuf s)) < 20)"
proof -
  have o: "ofst s = 0" "length (syncReqBuf s) = 80" using assms(2) by (simp_all add: sync_inv_def)
  have e: "s\<lparr>ofst := 0\<rparr> = s" "s\<lparr>syncReqBuf := x, ofst := 0\<rparr> = s\<lparr>syncReqBuf := x\<rparr>" for x
    using o(1) by (cases s; simp)+
  show ?thesis
  proof (cases "n < SYNC_REQ_SIZE")
    case True
    then have "s' = s\<lparr>syncReqBuf := syncReqBuf s\<rparr>" "\<not> g" using assms o by (simp_all add: getToken_def)
    moreover have "unat n < 20" using True by (simp add: SYNC_REQ_SIZE_def word_less_nat_alt)
    then have "length (pay (b, n) (packeBuf s)) < 20" by (simp add: pay_def)
    ultimately show ?thesis using o(2) by (intro exI [of _ "syncReqBuf s"]) simp
  next
    case False
    then obtain d x where x: "buf_read b 20 (packeBuf s) = Some d" "buf_write 0 d (syncReqBuf s) = Some x"
        "s' = s\<lparr>syncReqBuf := x\<rparr>" "g" "bs = (b + 20, n - 20)"
      using assms(1) o e by (auto simp: getToken_def Let_def bind_eq_Some_conv SYNC_REQ_SIZE_def)
    have n: "(20 :: u32) \<le> n" "20 \<le> unat n" using False by (simp_all add: SYNC_REQ_SIZE_def word_less_nat_alt not_less word_le_nat_alt)
    have d: "d = take 20 (drop b (packeBuf s))" "b + 20 \<le> length (packeBuf s)"
      using x(1) by (auto simp: buf_read_def split: if_splits)
    have p: "20 \<le> length (pay (b, n) (packeBuf s))" "take 20 (pay (b, n) (packeBuf s)) = d"
      using n(2) d by (simp_all add: pay_def)
    have "take 20 x = d" using x(2) d by (auto simp: buf_write_def split: if_splits)
    moreover have "length x = 80" using buf_write_length [OF x(2)] o(2) by simp
    ultimately show ?thesis using x(3-5) p pay_drop [OF n(1), of b "packeBuf s"] by auto
  qed
qed

lemma list_of_four: "length l = 4 \<Longrightarrow> \<exists>x y z w. l = [x, y, z, w]"
  by (auto simp: length_Suc_conv eval_nat_numeral)

lemma read_field:
  assumes "take 20 rb = take 20 p" "20 \<le> length p" "20 \<le> length rb" "k < 5"
  shows "read_le32 (4 * k) rb = Some (field_of k p)"
proof -
  have k: "4 * k + 4 \<le> 20" using assms(4) by simp
  have "take 4 (drop (4 * k) (take 20 rb)) = take 4 (drop (4 * k) rb)" "take 4 (drop (4 * k) (take 20 p)) = take 4 (drop (4 * k) p)"
    using k by (simp_all add: drop_take)
  then have d: "take 4 (drop (4 * k) rb) = take 4 (drop (4 * k) p)" using assms(1) by simp
  have "length (take 4 (drop (4 * k) p)) = 4" using k assms(2) by simp
  then obtain x y z w where f: "take 4 (drop (4 * k) p) = [x, y, z, w]" using list_of_four by blast
  have "buf_read (4 * k) 4 rb = Some [x, y, z, w]" using d f k assms(3) by (simp add: buf_read_def)
  then show ?thesis by (simp add: read_le32_def field_of_def f from_le32_def)
qed

lemma token_fields_read:
  assumes "take 20 rb = take 20 p" "20 \<le> length p" "length rb = 80"
  shows "read_le32 0 rb = Some (field_of 0 p)" "read_le32 4 rb = Some (field_of 1 p)" "read_le32 8 rb = Some (field_of 2 p)"
    "read_le32 12 rb = Some (field_of 3 p)" "read_le32 16 rb = Some (field_of 4 p)"
  using read_field [OF assms(1,2), of 0] read_field [OF assms(1,2), of 1] read_field [OF assms(1,2), of 2]
    read_field [OF assms(1,2), of 3] read_field [OF assms(1,2), of 4] assms(3) by simp_all

lemma sync_inv_reqBuf [simp]: "length rb = 80 \<Longrightarrow> sync_inv s \<Longrightarrow> sync_inv (s\<lparr>syncReqBuf := rb\<rparr>)"
  "abs_store (s\<lparr>syncReqBuf := rb\<rparr>) = abs_store s"
  by (simp_all add: sync_inv_def abs_store_def abs_request_def Let_def)

lemma name_index_find: "name_index pid (map part_id ps) k = find_part pid ps k"
  by (induction ps arbitrary: k) auto

lemma getCtlId_index:
  assumes "length (parts m) \<le> RAMNV_NUM"
  shows "name_index pid (part_ids m) 0 = (if getCtlId pid m = -1 then None else Some (unat (getCtlId pid m)))"
proof (cases "find_part pid (parts m) 0")
  case None
  then show ?thesis by (simp add: part_ids_def name_index_find getCtlId_def)
next
  case (Some i)
  then have "i < 30" using find_part_bound [OF Some] assms by (simp add: RAMNV_NUM_def)
  then have "unat (word_of_nat i :: u32) = i" by (simp add: unat_of_nat take_bit_nat_eq_self)
  moreover have "unat (word_of_nat (Suc i) :: u32) = Suc i"
    using \<open>i < 30\<close> unat_of_nat [of "Suc i", where 'a = 32] by (simp add: take_bit_nat_eq_self del: of_nat_Suc)
  then have "(word_of_nat i :: u32) \<noteq> -1" by auto
  ultimately show ?thesis using Some by (simp add: part_ids_def name_index_find getCtlId_def)
qed

subsection \<open>The operations of the protocol\<close>

lemma syncGetHead_inv:
  assumes "syncGetHead (b, n) s = Some (r, bs, s')" "sync_inv s" "n \<noteq> 0" "syncState s = 0"
  shows "if r = SYNC_NEXT then sync_inv (s'\<lparr>syncState := 1\<rparr>) else sync_inv s'" "packeBuf s' = packeBuf s"
proof -
  obtain g bs1 s1 where t: "getToken (b, n) s = Some (g, bs1, s1)" using assms(1) by (auto simp: syncGetHead_def bind_eq_Some_conv)
  obtain rb where rb: "s1 = s\<lparr>syncReqBuf := rb\<rparr>" "length rb = 80" using getToken_spec [OF t assms(2,3)] by blast
  have len: "length (parts (mem s)) \<le> RAMNV_NUM" using assms(2) by (simp add: sync_inv_def wf_mem_def)
  consider (plain) "r \<noteq> SYNC_NEXT" "s' = s1"
    | (bad) f i where "r \<noteq> SYNC_NEXT" "s' = s1\<lparr>syncReqFrame := f, sid := i\<rparr>"
    | (good) f pid where "r = SYNC_NEXT" "s' = s1\<lparr>syncReqFrame := f, sid := getCtlId pid (mem s)\<rparr>" "getCtlId pid (mem s) \<noteq> -1"
    using assms(1) t by (auto simp: syncGetHead_def bind_eq_Some_conv Let_def rb(1) split: if_splits)
  then have "(if r = SYNC_NEXT then sync_inv (s'\<lparr>syncState := 1\<rparr>) else sync_inv s') \<and> packeBuf s' = packeBuf s"
  proof cases
    case good
    have v: "unat (getCtlId pid (mem s)) < length (parts (mem s))" using getCtlId_valid(1) [OF good(3) len] .
    then show ?thesis using good assms(2,4) rb by (simp add: sync_inv_def settled_def)
  qed (use assms(2,4) rb in \<open>simp_all add: sync_inv_def\<close>)
  then show "if r = SYNC_NEXT then sync_inv (s'\<lparr>syncState := 1\<rparr>) else sync_inv s'" "packeBuf s' = packeBuf s" by simp_all
qed

lemma settled_at: "settled m (\<lambda>j. False) \<Longrightarrow> i < length (parts m) \<Longrightarrow> pendings m ! i = committeds m ! i"
  by (simp add: settled_def)

lemma syncGetHead_contents:
  assumes "syncGetHead (b, n) s = Some (r, bs, s')" "sync_inv s" "n \<noteq> 0" "syncState s = 0"
  shows "contents (pay (b, n) (packeBuf s)) (abs_store s) =
    (case r of SYNC_NEXT \<Rightarrow> contents (pay bs (packeBuf s)) (abs_store (s'\<lparr>syncState := 1\<rparr>))
     | SYNC_FAIL \<Rightarrow> give_up (abs_store s') | _ \<Rightarrow> abs_store s')"
proof -
  let ?p = "pay (b, n) (packeBuf s)"
  obtain g bs1 s1 where t: "getToken (b, n) s = Some (g, bs1, s1)" using assms(1) by (auto simp: syncGetHead_def bind_eq_Some_conv)
  obtain rb where rb: "s1 = s\<lparr>syncReqBuf := rb\<rparr>" "length rb = 80"
      and tok: "if g then 20 \<le> length ?p \<and> pay bs1 (packeBuf s) = drop 20 ?p \<and> take 20 rb = take 20 ?p else length ?p < 20"
    using getToken_spec [OF t assms(2,3)] by blast
  have req: "request (abs_store s) = NoRequest" by (simp add: abs_store_def abs_request_def Let_def assms(4))
  show ?thesis
  proof (cases g)
    case False
    then have "r = SYNC_CONTINUE" "s' = s1" using assms(1) t by (auto simp: syncGetHead_def)
    then show ?thesis using tok False req rb by (subst contents.simps) simp
  next
    case True
    then have p: "20 \<le> length ?p" "pay bs1 (packeBuf s) = drop 20 ?p" "take 20 rb = take 20 ?p" using tok by simp_all
    have ne: "?p \<noteq> []" using p(1) by auto
    note f = token_fields_read [OF p(3,1) rb(2)]
    have len: "length (parts (mem s)) \<le> RAMNV_NUM" using assms(2) by (simp add: sync_inv_def wf_mem_def)
    have nm: "name_index pid (names (abs_store s)) 0 = (if getCtlId pid (mem s) = -1 then None else Some (unat (getCtlId pid (mem s))))" for pid
      using getCtlId_index [OF len] by (simp add: abs_store_def)
    let ?i = "getCtlId (field_of 2 ?p) (mem s)" let ?s = "s1\<lparr>syncReqFrame := field_of 1 ?p, sid := ?i\<rparr>"
    have e: "Some (r, bs, s') = (if SYNC_REQ_HEAD \<noteq> field_of 0 ?p then Some (SYNC_FAIL, bs1, s1)
        else Some (if ?i = -1 then SYNC_FAIL else SYNC_NEXT, bs1, ?s))"
      using assms(1) unfolding syncGetHead_def t bind.bind_lunit prod.case by (simp add: True rb(1) f Let_def split: if_splits)
    have c: "contents ?p (abs_store s) = (if field_of 0 ?p \<noteq> SYNC_REQ_HEAD then give_up (abs_store s)
        else if ?i = -1 then give_up (abs_store s)
        else contents (drop 20 ?p) ((abs_store s)\<lparr>request := Await (unat ?i) (images (abs_store s) ! unat ?i) (field_of 1 ?p)\<rparr>))"
      using ne p(1) req by (subst contents.simps) (simp add: nm)
    have cl: "give_up (abs_store ?s) = give_up (abs_store s)" by (simp add: give_up_def abs_store_def rb(1))
    have nx: "abs_store (?s\<lparr>syncState := 1\<rparr>) =
        (abs_store s)\<lparr>request := Await (unat ?i) (images (abs_store s) ! unat ?i) (field_of 1 ?p)\<rparr>" if "?i \<noteq> -1"
      using settled_at [of "mem s" "unat ?i"] getCtlId_valid(1) [OF that len] assms(2,4)
      by (simp add: abs_store_def abs_request_def Let_def rb(1) sync_inv_def)
    show ?thesis using e c cl nx p(2) rb by (auto split: if_splits)
  qed
qed

lemma syncGetBody_cases:
  assumes "syncGetBody (b, n) s = Some (r, bs, s')" "sync_inv s" "n \<noteq> 0"
  obtains (short) rb where "r = SYNC_CONTINUE" "s' = s\<lparr>syncReqBuf := rb\<rparr>" "length rb = 80" "length (pay (b, n) (packeBuf s)) < 20"
  | (bad) rb where "r = SYNC_FAIL" "s' = s\<lparr>syncReqBuf := rb\<rparr>" "length rb = 80" "20 \<le> length (pay (b, n) (packeBuf s))"
      "field_of 1 (pay (b, n) (packeBuf s)) \<noteq> syncReqFrame s + 1 \<or>
       field_of 0 (pay (b, n) (packeBuf s)) \<notin> {SYNC_REQ_BODY, SYNC_REQ_TAIL}"
  | (body) rb m where "r = SYNC_NEXT" "length rb = 80" "20 \<le> length (pay (b, n) (packeBuf s))"
      "field_of 1 (pay (b, n) (packeBuf s)) = syncReqFrame s + 1" "field_of 0 (pay (b, n) (packeBuf s)) = SYNC_REQ_BODY"
      "pay bs (packeBuf s) = drop 20 (pay (b, n) (packeBuf s))"
      "markDirtyInfo (sid s) (field_of 3 (pay (b, n) (packeBuf s))) (field_of 4 (pay (b, n) (packeBuf s))) (mem s) = Some m"
      "s' = s\<lparr>syncReqBuf := rb, syncReqFrame := syncReqFrame s + 1, mem := m,
              sstart := field_of 3 (pay (b, n) (packeBuf s)) * word_of_nat RAMNV_SECT_SIZE,
              slen := field_of 4 (pay (b, n) (packeBuf s)) * word_of_nat RAMNV_SECT_SIZE\<rparr>"
  | (tail) rb where "r = SYNC_DONE" "length rb = 80" "20 \<le> length (pay (b, n) (packeBuf s))"
      "field_of 1 (pay (b, n) (packeBuf s)) = syncReqFrame s + 1" "field_of 0 (pay (b, n) (packeBuf s)) = SYNC_REQ_TAIL"
      "s' = s\<lparr>syncReqBuf := rb, syncReqFrame := syncReqFrame s + 1\<rparr>"
proof -
  let ?p = "pay (b, n) (packeBuf s)"
  obtain g bs1 s1 where t: "getToken (b, n) s = Some (g, bs1, s1)" using assms(1) by (auto simp: syncGetBody_def bind_eq_Some_conv)
  obtain rb where rb: "s1 = s\<lparr>syncReqBuf := rb\<rparr>" "length rb = 80"
      and tok: "if g then 20 \<le> length ?p \<and> pay bs1 (packeBuf s) = drop 20 ?p \<and> take 20 rb = take 20 ?p else length ?p < 20"
    using getToken_spec [OF t assms(2,3)] by blast
  show thesis
  proof (cases g)
    case False
    then show thesis using assms(1) t tok rb by (intro short [of rb]) (auto simp: syncGetBody_def)
  next
    case True
    then have p: "20 \<le> length ?p" "pay bs1 (packeBuf s) = drop 20 ?p" "take 20 rb = take 20 ?p" using tok by simp_all
    note f = token_fields_read [OF p(3,1) rb(2)]
    have eq: "Some (r, bs, s') = (if SYNC_REQ_BODY = field_of 0 ?p
        then if syncReqFrame s + 1 \<noteq> field_of 1 ?p then Some (SYNC_FAIL, bs1, s1)
             else do { m \<leftarrow> markDirtyInfo (sid s) (field_of 3 ?p) (field_of 4 ?p) (mem s);
                       Some (SYNC_NEXT, bs1, s1\<lparr>syncReqFrame := syncReqFrame s + 1, mem := m,
                             sstart := field_of 3 ?p * word_of_nat RAMNV_SECT_SIZE, slen := field_of 4 ?p * word_of_nat RAMNV_SECT_SIZE\<rparr>) }
        else if SYNC_REQ_TAIL = field_of 0 ?p
        then if syncReqFrame s + 1 \<noteq> field_of 1 ?p then Some (SYNC_FAIL, bs1, s1)
             else Some (SYNC_DONE, bs1, s1\<lparr>syncReqFrame := syncReqFrame s + 1\<rparr>)
        else Some (SYNC_FAIL, bs1, s1))"
      unfolding assms(1) [symmetric] syncGetBody_def t bind.bind_lunit prod.case by (simp add: True rb(1) f cong: if_cong)
    show thesis
    proof (cases "SYNC_REQ_BODY = field_of 0 ?p \<and> syncReqFrame s + 1 = field_of 1 ?p")
      case True
      then have "do { m \<leftarrow> markDirtyInfo (sid s) (field_of 3 ?p) (field_of 4 ?p) (mem s);
                      Some (SYNC_NEXT, bs1, s1\<lparr>syncReqFrame := syncReqFrame s + 1, mem := m,
                            sstart := field_of 3 ?p * word_of_nat RAMNV_SECT_SIZE, slen := field_of 4 ?p * word_of_nat RAMNV_SECT_SIZE\<rparr>) }
                 = Some (r, bs, s')" using eq by simp
      then obtain m where "markDirtyInfo (sid s) (field_of 3 ?p) (field_of 4 ?p) (mem s) = Some m" "r = SYNC_NEXT" "bs = bs1"
          "s' = s1\<lparr>syncReqFrame := syncReqFrame s + 1, mem := m,
                   sstart := field_of 3 ?p * word_of_nat RAMNV_SECT_SIZE, slen := field_of 4 ?p * word_of_nat RAMNV_SECT_SIZE\<rparr>"
        by (auto simp: bind_eq_Some_conv)
      then show thesis using True p rb by (intro body [of rb m]) simp_all
    next
      case nb: False
      show thesis
      proof (cases "SYNC_REQ_TAIL = field_of 0 ?p \<and> syncReqFrame s + 1 = field_of 1 ?p")
        case True
        moreover have "SYNC_REQ_BODY \<noteq> SYNC_REQ_TAIL" by (simp add: SYNC_REQ_BODY_def SYNC_REQ_TAIL_def)
        ultimately show thesis using eq p rb by (intro tail [of rb]) auto
      next
        case False
        then have "Some (SYNC_FAIL, bs1, s1) = Some (r, bs, s')" using eq nb by (auto split: if_splits)
        moreover have "field_of 1 ?p \<noteq> syncReqFrame s + 1 \<or> field_of 0 ?p \<notin> {SYNC_REQ_BODY, SYNC_REQ_TAIL}" using nb False by auto
        ultimately show thesis using p rb by (intro bad [of rb]) auto
      qed
    qed
  qed
qed

lemma sync_inv_state: "sync_inv s \<Longrightarrow> syncState s \<noteq> 0 \<Longrightarrow> k \<noteq> 0 \<Longrightarrow> sync_inv (s\<lparr>syncState := k\<rparr>)"
  by (simp add: sync_inv_def)

lemma syncGetBody_inv:
  assumes "syncGetBody (b, n) s = Some (r, bs, s')" "sync_inv s" "n \<noteq> 0" "syncState s \<noteq> 0"
  shows "sync_inv s'" "syncState s' = syncState s" "packeBuf s' = packeBuf s" "sync_inv (s'\<lparr>syncState := 2\<rparr>)" "sid s' = sid s"
proof -
  have w: "wf_mem (mem s)" using assms(2) by (simp add: sync_inv_def)
  have "sync_inv s' \<and> syncState s' = syncState s \<and> packeBuf s' = packeBuf s \<and> sid s' = sid s"
    using assms(1-3)
  proof (cases rule: syncGetBody_cases)
    case (body rb m)
    then show ?thesis using markDirtyInfo_effect [OF body(7) w] assms(2,4) by (simp add: sync_inv_def settled_def)
  qed (use assms(2) in simp_all)
  then show "sync_inv s'" "syncState s' = syncState s" "packeBuf s' = packeBuf s" "sync_inv (s'\<lparr>syncState := 2\<rparr>)" "sid s' = sid s"
    using sync_inv_state [of s' 2] assms(4) by simp_all
qed

lemma syncGetBody_contents:
  assumes "syncGetBody (b, n) s = Some (r, bs, s')" "sync_inv s" "n \<noteq> 0" "syncState s = 1"
  shows "contents (pay (b, n) (packeBuf s)) (abs_store s) =
    (case r of SYNC_NEXT \<Rightarrow> contents (pay bs (packeBuf s)) (abs_store (s'\<lparr>syncState := 2\<rparr>))
     | SYNC_FAIL \<Rightarrow> give_up (abs_store s') | SYNC_DONE \<Rightarrow> commit (unat (sid s')) (pendings (mem s') ! unat (sid s')) (abs_store s')
     | SYNC_CONTINUE \<Rightarrow> abs_store s')"
proof -
  let ?p = "pay (b, n) (packeBuf s)"
  have req: "request (abs_store s) = Await (unat (sid s)) (pendings (mem s) ! unat (sid s)) (syncReqFrame s)"
    by (simp add: abs_store_def abs_request_def Let_def assms(4))
  have w: "wf_mem (mem s)" using assms(2) by (simp add: sync_inv_def)
  have ty: "SYNC_REQ_TAIL \<noteq> SYNC_REQ_BODY" by (simp add: SYNC_REQ_BODY_def SYNC_REQ_TAIL_def)
  have ne: "20 \<le> length ?p \<Longrightarrow> ?p \<noteq> []" by auto
  show ?thesis
    using assms(1-3)
  proof (cases rule: syncGetBody_cases)
    case (short rb)
    then show ?thesis using req by (subst contents.simps) simp
  next
    case (bad rb)
    then show ?thesis using req ne by (subst contents.simps) (auto simp: give_up_def)
  next
    case (body rb m)
    have e: "committeds m = committeds (mem s)" "pendings m = pendings (mem s)" "part_ids m = part_ids (mem s)"
      using markDirtyInfo_effect [OF body(7) w] by simp_all
    have "abs_store (s'\<lparr>syncState := 2\<rparr>) = (abs_store s)\<lparr>request := expects (unat (sid s)) (pendings (mem s) ! unat (sid s)) (syncReqFrame s + 1)
        (field_of 3 ?p * word_of_nat RAMNV_SECT_SIZE) (field_of 4 ?p * word_of_nat RAMNV_SECT_SIZE)\<rparr>"
      by (simp add: body(8) abs_store_def abs_request_def Let_def e)
    then show ?thesis using body(1-6) req ne by (subst contents.simps) simp
  next
    case (tail rb)
    then show ?thesis using req ne ty by (subst contents.simps) (simp add: commit_def give_up_def abs_store_def)
  qed
qed

lemma syncGetData_cases:
  assumes "syncGetData (b, n) s = Some (r, bs, s')" "sync_inv s" "syncState s \<noteq> 0"
  obtains (all) m where "r = SYNC_NEXT" "slen s \<le> n" "unat (slen s) \<le> length (pay (b, n) (packeBuf s))"
      "pay bs (packeBuf s) = drop (unat (slen s)) (pay (b, n) (packeBuf s))"
      "writeData (sid s) (sstart s) (take (unat (slen s)) (pay (b, n) (packeBuf s))) (mem s) = Some m"
      "s' = s\<lparr>mem := m, sstart := sstart s + slen s, slen := 0\<rparr>"
  | (part) m where "r = SYNC_CONTINUE" "n < slen s" "length (pay (b, n) (packeBuf s)) = unat n"
      "writeData (sid s) (sstart s) (pay (b, n) (packeBuf s)) (mem s) = Some m"
      "s' = s\<lparr>mem := m, sstart := sstart s + n, slen := slen s - n\<rparr>"
proof (cases "slen s \<le> n")
  case True
  then obtain d m where d: "buf_read b (unat (slen s)) (packeBuf s) = Some d" "writeData (sid s) (sstart s) d (mem s) = Some m"
      "r = SYNC_NEXT" "bs = (b + unat (slen s), n - slen s)" "s' = s\<lparr>mem := m, sstart := sstart s + slen s, slen := 0\<rparr>"
    using assms(1) by (auto simp: syncGetData_def bind_eq_Some_conv)
  have l: "unat (slen s) \<le> unat n" using True by (simp add: word_le_nat_alt)
  have "b + unat (slen s) \<le> length (packeBuf s)" "d = take (unat (slen s)) (drop b (packeBuf s))"
    using d(1) by (auto simp: buf_read_def split: if_splits)
  then have "unat (slen s) \<le> length (pay (b, n) (packeBuf s))" "take (unat (slen s)) (pay (b, n) (packeBuf s)) = d"
    using l by (simp_all add: pay_def)
  then show thesis using d True pay_drop [OF True, of b "packeBuf s"] by (intro all [of m]) simp_all
next
  case False
  then obtain d m where d: "buf_read b (unat n) (packeBuf s) = Some d" "writeData (sid s) (sstart s) d (mem s) = Some m"
      "r = SYNC_CONTINUE" "s' = s\<lparr>mem := m, sstart := sstart s + n, slen := slen s - n\<rparr>"
    using assms(1) by (auto simp: syncGetData_def bind_eq_Some_conv)
  have "b + unat n \<le> length (packeBuf s)" "d = take (unat n) (drop b (packeBuf s))"
    using d(1) by (auto simp: buf_read_def split: if_splits)
  then have "length (pay (b, n) (packeBuf s)) = unat n" "pay (b, n) (packeBuf s) = d" by (simp_all add: pay_def)
  then show thesis using d False by (intro part [of m]) simp_all
qed

lemma syncGetData_inv:
  assumes "syncGetData (b, n) s = Some (r, bs, s')" "sync_inv s" "syncState s \<noteq> 0"
  shows "sync_inv s'" "syncState s' = syncState s" "packeBuf s' = packeBuf s" "sync_inv (s'\<lparr>syncState := 1\<rparr>)"
proof -
  have w: "wf_mem (mem s)" "unat (sid s) < length (parts (mem s))" "settled (mem s) (\<lambda>j. j = unat (sid s))"
    using assms(2,3) by (simp_all add: sync_inv_def)
  obtain d m x y where m: "writeData (sid s) (sstart s) d (mem s) = Some m" "s' = s\<lparr>mem := m, sstart := x, slen := y\<rparr>"
    using assms by (cases rule: syncGetData_cases) auto
  have "sync_inv s'" using writeData_effect [OF m(1) w(1,2)] w(3) assms(2,3) by (simp add: m(2) sync_inv_def settled_def)
  then show "sync_inv s'" "syncState s' = syncState s" "packeBuf s' = packeBuf s" "sync_inv (s'\<lparr>syncState := 1\<rparr>)"
    using sync_inv_state [of s' 1] assms(3) by (simp_all add: m(2))
qed

lemma syncGetData_contents:
  assumes "syncGetData (b, n) s = Some (r, bs, s')" "sync_inv s" "syncState s \<noteq> 0" "syncState s \<noteq> 1" "n \<noteq> 0"
  shows "contents (pay (b, n) (packeBuf s)) (abs_store s) =
    (if r = SYNC_NEXT then contents (pay bs (packeBuf s)) (abs_store (s'\<lparr>syncState := 1\<rparr>)) else abs_store s')"
proof -
  let ?p = "pay (b, n) (packeBuf s)"
  have w: "wf_mem (mem s)" "unat (sid s) < length (parts (mem s))" using assms(2,3) by (simp_all add: sync_inv_def)
  then have i: "unat (sid s) < length (pendings (mem s))" by (simp add: pendings_def)
  have req: "request (abs_store s) = expects (unat (sid s)) (pendings (mem s) ! unat (sid s)) (syncReqFrame s) (sstart s) (slen s)"
    by (simp add: abs_store_def abs_request_def Let_def assms(3,4))
  show ?thesis
    using assms(1-3)
  proof (cases rule: syncGetData_cases)
    case (all m)
    have e: "committeds m = committeds (mem s)" "part_ids m = part_ids (mem s)"
      "pendings m ! unat (sid s) = overlay (unat (sstart s)) (take (unat (slen s)) ?p) (pendings (mem s) ! unat (sid s))"
      using writeData_effect [OF all(5) w] i by simp_all
    have a: "abs_store (s'\<lparr>syncState := 1\<rparr>) = (abs_store s)\<lparr>request := Await (unat (sid s))
        (overlay (unat (sstart s)) (take (unat (slen s)) ?p) (pendings (mem s) ! unat (sid s))) (syncReqFrame s)\<rparr>"
      by (simp add: all(6) abs_store_def abs_request_def Let_def e)
    show ?thesis
    proof (cases "slen s = 0")
      case True
      have "overlay k [] x = x" for k x by (rule nth_equalityI) (auto simp: overlay_def)
      then have "abs_store (s'\<lparr>syncState := 1\<rparr>) = abs_store s"
        using a req True by (simp add: abs_store_def expects_def)
      then show ?thesis using all(1,4) True by simp
    next
      case False
      then have "0 < length ?p" using all(3) by (metis gr0I le_zero_eq unat_eq_zero)
      then have "?p \<noteq> []" by auto
      then show ?thesis using all(1,3,4) a req False by (subst contents.simps) (simp add: expects_def)
    qed
  next
    case (part m)
    have e: "committeds m = committeds (mem s)" "part_ids m = part_ids (mem s)"
      "pendings m ! unat (sid s) = overlay (unat (sstart s)) ?p (pendings (mem s) ! unat (sid s))"
      using writeData_effect [OF part(4) w] i by simp_all
    have n: "unat n < unat (slen s)" "slen s \<noteq> 0" "slen s - n \<noteq> 0" "word_of_nat (unat n) = n" using part(2) by (auto simp: word_less_nat_alt)
    have "0 < unat n" using assms(5) by (simp add: unat_gt_0)
    then have "?p \<noteq> []" using part(3) by auto
    then have "contents ?p (abs_store s) = (abs_store s)\<lparr>request := Filling (unat (sid s)) (overlay (unat (sstart s)) ?p (pendings (mem s) ! unat (sid s)))
        (syncReqFrame s) (sstart s + n) (slen s - n)\<rparr>"
      using req n part(3) by (subst contents.simps) (simp add: expects_def)
    moreover have "abs_store s' = (abs_store s)\<lparr>request := Filling (unat (sid s)) (overlay (unat (sstart s)) ?p (pendings (mem s) ! unat (sid s)))
        (syncReqFrame s) (sstart s + n) (slen s - n)\<rparr>"
      using n(3) assms(3,4) by (simp add: part(5) abs_store_def abs_request_def Let_def e expects_def)
    ultimately show ?thesis using part(1) by simp
  qed
qed

lemma sync_loop_spec:
  "sync_loop bs s = Some s' \<Longrightarrow> sync_inv s \<Longrightarrow> becomes s' (contents (pay bs (packeBuf s)) (abs_store s))"
proof (induction bs s arbitrary: s' rule: sync_loop.induct)
  case (1 buf n s)
  note step = "1.prems"(1) [unfolded sync_loop.simps [of buf n s]]
  consider (empty) "n = 0" | (head) "n \<noteq> 0" "syncState s = 0" | (body) "n \<noteq> 0" "syncState s = 1"
    | (data) "n \<noteq> 0" "syncState s \<noteq> 0" "syncState s \<noteq> 1" by blast
  then show ?case
  proof cases
    case empty
    then show ?thesis using step "1.prems"(2) by (simp add: pay_empty becomes_def contents.simps)
  next
    case head
    then obtain r bs1 s1 where r: "syncGetHead (buf, n) s = Some (r, bs1, s1)" using step by (auto split: option.splits)
    note h = syncGetHead_inv [OF r "1.prems"(2) head] and c = syncGetHead_contents [OF r "1.prems"(2) head]
    show ?thesis
    proof (cases r)
      case SYNC_NEXT
      then show ?thesis using "1.IH"(1) [OF head r _ SYNC_NEXT, of "(bs1, s1)" bs1 s1 s'] step head r h c by simp
    next
      case SYNC_FAIL
      then show ?thesis using step head r h c syncRefuse_spec [of s1 s'] by simp
    qed (use step head r h c sendPacktRsp_spec [of True s1 s'] in \<open>auto simp: becomes_def\<close>)
  next
    case body
    then obtain r bs1 s1 where r: "syncGetBody (buf, n) s = Some (r, bs1, s1)" using step by (auto split: option.splits)
    have nz: "syncState s \<noteq> 0" using body by simp
    note h = syncGetBody_inv [OF r "1.prems"(2) body(1) nz] and c = syncGetBody_contents [OF r "1.prems"(2) body]
    show ?thesis
    proof (cases r)
      case SYNC_NEXT
      then show ?thesis using "1.IH"(2) [OF body(1) nz body(2) r _ SYNC_NEXT, of "(bs1, s1)" bs1 s1 s'] step body r h c by simp
    next
      case SYNC_FAIL
      then show ?thesis using step body r h c syncRefuse_spec [of s1 s'] by simp
    next
      case SYNC_DONE
      then obtain k s2 where k: "syncReset True s1 = Some (k, s2)" "sendPacktRsp k s2 = Some s'"
        using step body r by (auto simp: bind_eq_Some_conv)
      have "becomes s2 (commit (unat (sid s1)) (pendings (mem s1) ! unat (sid s1)) (abs_store s1))"
        using reset_success_spec [OF k(1)] h nz by simp
      then show ?thesis using sendPacktRsp_spec [OF k(2)] c SYNC_DONE by simp
    qed (use step body r h c sendPacktRsp_spec [of True s1 s'] in \<open>auto simp: becomes_def\<close>)
  next
    case data
    then obtain r bs1 s1 where r: "syncGetData (buf, n) s = Some (r, bs1, s1)" using step by (auto split: option.splits)
    note h = syncGetData_inv [OF r "1.prems"(2) data(2)] and c = syncGetData_contents [OF r "1.prems"(2) data(2,3,1)]
    show ?thesis
    proof (cases "r = SYNC_NEXT")
      case True
      then show ?thesis using "1.IH"(3) [OF data r _ True, of "(bs1, s1)" bs1 s1 s'] step data r h c by simp
    next
      case False
      then have "sendPacktRsp True s1 = Some s'" using step data r by (cases r) auto
      then show ?thesis using h c False sendPacktRsp_spec [of True s1 s'] by (auto simp: becomes_def)
    qed
  qed
qed

section \<open>The daemon\<close>

text \<open>The loop at the end of \<open>main\<close> in \<open>nvitem_server.c\<close>: when \<open>syncAnalyzer\<close> returns, the pipe is
  closed and opened again; \<open>c\<close> is the new connection.\<close>

definition server_round :: "chan \<Rightarrow> nv_sync \<Rightarrow> nv_sync option" where
  "server_round c s =
     do { (go, s) \<leftarrow> syncAnalyzer_turn s;
          Some (if go then s else syncInit (initPacket (s\<lparr>link := c\<rparr>))) }"

text \<open>The save task works on one partition at a time: it takes the image under the mutex, and only
  this task uses \<open>toDisk\<close> and the files outside of the calibration mode.\<close>

definition save_step :: "nat \<Rightarrow> nv_sync \<Rightarrow> nv_sync option" where
  "save_step i s =
     (if i < length (parts (mem s))
      then do { (p, d) \<leftarrow> save_part (ramdiskCfg (mem s)) (parts (mem s) ! i) (nvdisk (mem s));
                Some (s\<lparr>mem := (mem s)\<lparr>parts := (parts (mem s))[i := p], nvdisk := d\<rparr>\<rparr>) }
      else Some s)"

datatype nv_event = Round chan | SavePart nat

fun nv_step :: "nv_sync \<Rightarrow> nv_event \<Rightarrow> nv_sync option" where
  "nv_step s (Round c) = server_round c s"
| "nv_step s (SavePart i) = save_step i s"

text \<open>The state in which \<open>main\<close> enters the loop: the static arrays are zero.\<close>

definition server_start :: "nv_mem \<Rightarrow> chan \<Rightarrow> nv_sync" where
  "server_start m c =
     syncInit (initPacket
       \<lparr>mem = m, link = c, packeBuf = replicate (PACKET_HEAD_SIZE + PACKETSIZE) 0, idxGrp = 0, idxSub = 0,
        syncState = 0, syncBusy = 0, syncReqFrame = 0, syncReqBuf = replicate 80 0, ofst = 0, sid = -1,
        sstart = 0, slen = 0\<rparr>)"

subsection \<open>Rounds keep the invariant and follow the abstract store\<close>

text \<open>What the next round finds in the pipe, and what the rounds of a run find.\<close>

definition arriving :: "nv_sync \<Rightarrow> arrival" where
  "arriving s =
     (case getPacket (0, 0) s of
        None \<Rightarrow> Skipped
      | Some (ps, bs, s1) \<Rightarrow>
          (case ps of PACKET_FAIL \<Rightarrow> Broken | PACKET_SKIP \<Rightarrow> Skipped
           | PACKET_START \<Rightarrow> First (pay bs (packeBuf s1)) | PACKET_CONTINUE \<Rightarrow> Further (pay bs (packeBuf s1))))"

fun arrivals :: "nv_sync \<Rightarrow> nv_event list \<Rightarrow> arrival list" where
  "arrivals s [] = []"
| "arrivals s (SavePart i # es) = (case save_step i s of None \<Rightarrow> [] | Some s' \<Rightarrow> arrivals s' es)"
| "arrivals s (Round c # es) = arriving s # (case server_round c s of None \<Rightarrow> [] | Some s' \<Rightarrow> arrivals s' es)"

text \<open>No request is open while packets of the group are not accepted.\<close>

definition orderly :: "store \<Rightarrow> bool" where
  "orderly st \<longleftrightarrow> (\<not> engaged st \<longrightarrow> request st = NoRequest)"

lemma contents_orderly: "engaged st \<Longrightarrow> orderly (contents p st)"
proof (induction p st rule: contents.induct)
  case (1 p st)
  show ?case
  proof (cases "request st")
    case NoRequest
    then show ?thesis using "1.IH"(1) "1.prems"
      by (subst contents.simps) (auto simp: orderly_def give_up_def split: option.splits)
  next
    case (Await i img f)
    then show ?thesis using "1.IH"(2) "1.prems" by (subst contents.simps) (auto simp: orderly_def give_up_def commit_def)
  next
    case (Filling i img f off k)
    then show ?thesis using "1.IH"(3) "1.prems" by (subst contents.simps) (auto simp: orderly_def give_up_def)
  qed
qed

lemma spec_step_orderly: "orderly st \<Longrightarrow> orderly (spec_step st a)"
  by (cases a) (simp_all add: contents_orderly, simp add: orderly_def give_up_def)

lemma getPacket_effect:
  assumes "getPacket bs s = Some (ps, bs', s')" "sync_inv s"
  shows "sync_inv s' \<and> abs_store s' = abs_store s \<and> syncState s' = syncState s \<and> syncBusy s' = syncBusy s"
proof -
  obtain ok r s1 where c: "channel_read s = Some (ok, r, s1)" using assms(1) by (auto simp: getPacket_def bind_eq_Some_conv)
  then obtain x b l where x: "sys_read (PACKET_HEAD_SIZE + PACKETSIZE) (link s) = Some (x, b, l)"
      "s1 = s\<lparr>link := l, packeBuf := b @ drop (length b) (packeBuf s)\<rparr>"
    by (auto simp: channel_read_def bind_eq_Some_conv)
  have "length b \<le> PACKET_HEAD_SIZE + PACKETSIZE" using sys_read_props(1,2) [OF x(1)] by linarith
  with x(2) have 1: "sync_inv s1" "abs_store s1 = abs_store s" "syncState s1 = syncState s" "syncBusy s1 = syncBusy s"
    using assms(2) by (auto simp: sync_inv_def abs_store_def abs_request_def Let_def)
  consider "s' = s1" | k where "s' = s1\<lparr>idxSub := k\<rparr>" | g where "s' = s1\<lparr>idxGrp := g, idxSub := 0\<rparr>"
  proof (cases "\<not> ok \<or> r < word_of_nat PACKET_HEAD_SIZE")
    case True
    then show ?thesis using that(1) assms(1) by (auto simp: getPacket_def c split: if_splits)
  next
    case False
    have "20 \<le> length (packeBuf s1)" using 1(1) by (simp add: sync_inv_def PACKET_HEAD_SIZE_def)
    then obtain a1 a2 a3 a4 where f: "read_le32 0 (packeBuf s1) = Some a1" "read_le32 8 (packeBuf s1) = Some a2"
        "read_le32 12 (packeBuf s1) = Some a3" "read_le32 16 (packeBuf s1) = Some a4"
      using read_le32_defined [of 0 "packeBuf s1"] read_le32_defined [of 8 "packeBuf s1"]
        read_le32_defined [of 12 "packeBuf s1"] read_le32_defined [of 16 "packeBuf s1"] by auto
    show ?thesis using assms(1) unfolding getPacket_def c bind.bind_lunit prod.case f
      using False that by (auto split: if_splits)
  qed
  then show ?thesis by cases (simp_all add: 1)
qed

lemma engage:
  assumes "becomes s st" "syncState s = 0"
  shows "becomes (s\<lparr>syncBusy := 1\<rparr>) (st\<lparr>request := NoRequest, engaged := True\<rparr>)"
  using assms by (auto simp: becomes_def abs_store_def abs_request_def Let_def)

lemma turn_spec:
  assumes "syncAnalyzer_turn s = Some (go, s')" "sync_inv s" "orderly (abs_store s)"
  shows "becomes s' (spec_step (abs_store s) (arriving s)) \<and> (\<not> go \<longrightarrow> syncState s' = 0)"
proof -
  obtain ps bs s1 where g: "getPacket (0, 0) s = Some (ps, bs, s1)" using assms(1) by (auto simp: syncAnalyzer_turn_def bind_eq_Some_conv)
  have 1: "sync_inv s1" "abs_store s1 = abs_store s" "syncState s1 = syncState s" "syncBusy s1 = syncBusy s"
    using getPacket_effect [OF g assms(2)] by simp_all
  have en: "engaged (abs_store s) \<longleftrightarrow> syncBusy s1 \<noteq> 0" using 1(4) by (simp add: abs_store_def)
  note t = assms(1) [unfolded syncAnalyzer_turn_def g bind.bind_lunit prod.case]
  show ?thesis
  proof (cases ps)
    case PACKET_FAIL
    then obtain r where "syncReset False s1 = Some (r, s')" using t by (auto simp: bind_eq_Some_conv)
    then show ?thesis using reset_fail_spec [OF _ 1(1)] 1(2) PACKET_FAIL by (simp add: arriving_def g)
  next
    case PACKET_SKIP
    then show ?thesis using t 1 by (simp add: arriving_def g becomes_def)
  next
    case PACKET_CONTINUE
    show ?thesis
    proof (cases "syncBusy s1 = 0")
      case True
      then show ?thesis using t PACKET_CONTINUE en sendPacktRsp_spec [of False s1 s' "abs_store s"] 1
        by (auto simp: bind_eq_Some_conv arriving_def g becomes_def)
    next
      case False
      then have l: "sync_loop bs (s1\<lparr>syncBusy := 1\<rparr>) = Some s'" "go" using t PACKET_CONTINUE by (auto simp: bind_eq_Some_conv)
      have "abs_store (s1\<lparr>syncBusy := 1\<rparr>) = abs_store s" using 1(2) False by (auto simp: abs_store_def abs_request_def Let_def)
      then show ?thesis using sync_loop_spec [OF l(1)] 1(1) PACKET_CONTINUE en False l(2) by (simp add: arriving_def g)
    qed
  next
    case PACKET_START
    then obtain r s2 where r: "(if syncBusy s1 \<noteq> 0 then syncReset False s1 else Some (True, s1)) = Some (r, s2)"
        "sync_loop bs (s2\<lparr>syncBusy := 1\<rparr>) = Some s'" "go"
      using t by (auto simp: bind_eq_Some_conv)
    have s2: "becomes (s2\<lparr>syncBusy := 1\<rparr>) ((abs_store s)\<lparr>request := NoRequest, engaged := True\<rparr>) \<and> packeBuf s2 = packeBuf s1"
    proof (cases "syncBusy s1 = 0")
      case True
      then have "request (abs_store s) = NoRequest" using assms(3) en by (simp add: orderly_def)
      then have "syncState s1 = 0" using 1(3) by (simp add: abs_store_def abs_request_def expects_def Let_def split: if_splits)
      then show ?thesis using engage [of s1 "abs_store s"] r(1) True 1 by (simp add: becomes_def)
    next
      case False
      then have "becomes s2 (give_up (abs_store s))" "syncState s2 = 0" using r(1) reset_fail_spec [OF _ 1(1)] 1(2) by simp_all
      moreover have "packeBuf s2 = packeBuf s1" using r(1) False by (auto simp: syncReset_def syncInit_def bind_eq_Some_conv)
      ultimately show ?thesis using engage [of s2 "give_up (abs_store s)"] by (simp add: give_up_def)
    qed
    then show ?thesis using sync_loop_spec [OF r(2)] PACKET_START r(3) by (simp add: becomes_def arriving_def g)
  qed
qed

lemma server_round_spec:
  assumes "server_round c s = Some s'" "sync_inv s" "orderly (abs_store s)"
  shows "becomes s' (spec_step (abs_store s) (arriving s))"
proof -
  obtain go s1 where t: "syncAnalyzer_turn s = Some (go, s1)" "s' = (if go then s1 else syncInit (initPacket (s1\<lparr>link := c\<rparr>)))"
    using assms(1) by (auto simp: server_round_def bind_eq_Some_conv)
  have 1: "becomes s1 (spec_step (abs_store s) (arriving s))" using turn_spec [OF t(1) assms(2,3)] by simp
  show ?thesis
  proof (cases go)
    case False
    obtain ps bs s2 where g: "getPacket (0, 0) s = Some (ps, bs, s2)" using t(1) by (auto simp: syncAnalyzer_turn_def bind_eq_Some_conv)
    then have "ps = PACKET_FAIL" using t(1) False by (auto simp: syncAnalyzer_turn_def bind_eq_Some_conv split: if_splits)
    then have "spec_step (abs_store s) (arriving s) = give_up (abs_store s)" by (simp add: arriving_def g)
    moreover have "syncState s1 = 0" using turn_spec [OF t(1) assms(2,3)] False by simp
    ultimately show ?thesis using 1 t(2) False
      by (auto simp: becomes_def sync_inv_def abs_store_def abs_request_def give_up_def syncInit_def initPacket_def settled_def)
  qed (use 1 t(2) in simp)
qed

lemma save_step_spec:
  assumes "save_step i s = Some s'" "sync_inv s"
  shows "becomes s' (abs_store s)"
proof (cases "i < length (parts (mem s))")
  case True
  then obtain p d where p: "save_part (ramdiskCfg (mem s)) (parts (mem s) ! i) (nvdisk (mem s)) = Some (p, d)"
    "s' = s\<lparr>mem := (mem s)\<lparr>parts := (parts (mem s))[i := p], nvdisk := d\<rparr>\<rparr>"
    using assms(1) by (auto simp: save_step_def bind_eq_Some_conv)
  have w: "list_all wf_part (parts (mem s))" "wf_part (parts (mem s) ! i)"
    using assms(2) True by (simp_all add: sync_inv_def wf_mem_def list_all_length)
  have q: "wf_part p" "committed p = committed (parts (mem s) ! i)" "pending p = pending (parts (mem s) ! i)"
    "part_id p = part_id (parts (mem s) ! i)"
    using save_part_spec [OF w(2) p(1)]
    by (simp_all add: same_content_def committed_def pending_def image_of_def image_bytes_def)
  have "committeds (mem s') = committeds (mem s)" "pendings (mem s') = pendings (mem s)" "part_ids (mem s') = part_ids (mem s)"
    using True q(2-4) by (simp_all add: p(2) committeds_def pendings_def part_ids_def map_update list_update_unchanged)
  moreover have "list_all wf_part (parts (mem s'))"
    using w(1) q(1) True by (simp add: p(2) list_all_length nth_list_update)
  ultimately show ?thesis using assms(2) p(2)
    by (simp add: becomes_def sync_inv_def abs_store_def abs_request_def Let_def settled_def wf_mem_def)
next
  case False
  then show ?thesis using assms by (simp add: save_step_def becomes_def)
qed

definition daemon_inv :: "nv_sync \<Rightarrow> bool" where
  "daemon_inv s \<longleftrightarrow> sync_inv s \<and> orderly (abs_store s)"

lemma nv_step_spec:
  assumes "nv_step s e = Some s'" "daemon_inv s"
  shows "daemon_inv s'"
    "abs_store s' = (case e of Round c \<Rightarrow> spec_step (abs_store s) (arriving s) | SavePart i \<Rightarrow> abs_store s)"
  using assms server_round_spec [of _ s s'] save_step_spec [of _ s s'] spec_step_orderly [of "abs_store s" "arriving s"]
  by (cases e; simp add: daemon_inv_def becomes_def)+

interpretation nvd: invariant_machine nv_step daemon_inv
  by unfold_locales (rule nv_step_spec(1))

lemma nv_run_spec:
  "run_steps nv_step s es = Some s' \<Longrightarrow> daemon_inv s \<Longrightarrow> abs_store s' = foldl spec_step (abs_store s) (arrivals s es)"
proof (induction es arbitrary: s)
  case (Cons e es)
  then obtain s1 where s1: "nv_step s e = Some s1" "run_steps nv_step s1 es = Some s'" by (auto simp: bind_eq_Some_conv)
  then show ?case using Cons.IH [OF s1(2)] nv_step_spec [OF s1(1) Cons.prems(2)] by (cases e) simp_all
qed simp

lemma server_start_inv:
  assumes "initBuf cfg cali rnd junk d = Some m"
  shows "daemon_inv (server_start m c)"
    "abs_store (server_start m c) = \<lparr>names = part_ids m, images = committeds m, request = NoRequest, engaged = False\<rparr>"
proof -
  obtain ps d' where i: "initBuf_loop cfg rnd junk cfg d [] = Some (ps, d')"
    "m = \<lparr>parts = ps, ramdiskCfg = cfg, is_cali_mode = cali, save_event = False, nvdisk = d'\<rparr>"
    using assms by (auto simp: initBuf_def bind_eq_Some_conv)
  have "list_all (\<lambda>p. wf_part p \<and> pending p = committed p) ps \<and> length ps \<le> RAMNV_NUM"
    using initBuf_loop_fresh [OF i(1)] by simp
  then show "daemon_inv (server_start m c)"
    "abs_store (server_start m c) = \<lparr>names = part_ids m, images = committeds m, request = NoRequest, engaged = False\<rparr>"
    by (auto simp: server_start_def syncInit_def initPacket_def daemon_inv_def orderly_def sync_inv_def abs_store_def abs_request_def
        wf_mem_def i(2) settled_def list_all_length pendings_def committeds_def PACKET_HEAD_SIZE_def PACKETSIZE_def)
qed

end
