(* ===== verification/Nv_Request.thy ===== *)
theory Nv_Request
  imports Nv_Sync
begin

text \<open>
  What the NV daemon does with a well-formed request: the format in which the modem sends one,
  spread over packets, and the proof that the daemon takes it, stage by stage, into the
  committed image.
\<close>

section \<open>Requests as their sender builds them\<close>

text \<open>The pieces of a request: the three kinds of tokens, each of the size of the union
  \<open>SYNC_REQ\<close>, and data.\<close>

datatype piece = Head u32 u32 | Body u32 u32 u32 | Data bytes | Tail u32

definition token :: "u32 \<Rightarrow> u32 \<Rightarrow> u32 \<Rightarrow> u32 \<Rightarrow> u32 \<Rightarrow> bytes" where
  "token a b c d e = to_le32 a @ to_le32 b @ to_le32 c @ to_le32 d @ to_le32 e"

fun piece_bytes :: "piece \<Rightarrow> bytes" where
  "piece_bytes (Head idx pid) = token SYNC_REQ_HEAD idx pid (word_of_nat RAMNV_SECT_SIZE) 0"
| "piece_bytes (Body idx start num) = token SYNC_REQ_BODY idx 0 start num"
| "piece_bytes (Data d) = d"
| "piece_bytes (Tail idx) = token SYNC_REQ_TAIL idx 0 0 0"

definition payload :: "piece list \<Rightarrow> bytes" where
  "payload ps = concat (map piece_bytes ps)"

text \<open>How far a request has come: before the head, between tokens, inside the data of a body, done.
  A stage carries the number of the last token, the image built so far, and whether a body has
  been seen.\<close>

datatype stage = Idle | Token u32 bytes bool | Fill u32 nat nat bytes | Finished bytes bool

text \<open>One packet of a well-formed request: indices count up, runs lie inside the image, tokens do
  not cross a packet boundary, data may.\<close>

fun accept :: "u32 \<Rightarrow> bytes \<Rightarrow> stage \<Rightarrow> piece list \<Rightarrow> stage option" where
  "accept pid base g [] = Some g"
| "accept pid base Idle (Head idx pid' # ps) =
     (if pid' = pid then accept pid base (Token idx base False) ps else None)"
| "accept pid base (Token f img t) (Body idx start num # ps) =
     (if idx = f + 1 \<and> 0 < num \<and> unat start + unat num \<le> 1024 \<and>
         RAMNV_SECT_SIZE * (unat start + unat num) \<le> length img
      then accept pid base (Fill idx (RAMNV_SECT_SIZE * unat start) (RAMNV_SECT_SIZE * unat num) img) ps
      else None)"
| "accept pid base (Token f img t) (Tail idx # ps) =
     (if idx = f + 1 \<and> ps = [] then Some (Finished img t) else None)"
| "accept pid base (Fill f off k img) (Data d # ps) =
     (if length d = k then accept pid base (Token f (overlay off d img) True) ps
      else if ps = [] \<and> d \<noteq> [] \<and> length d < k
      then Some (Fill f (off + length d) (k - length d) (overlay off d img))
      else None)"
| "accept pid base _ (_ # ps) = None"

fun accept_all :: "u32 \<Rightarrow> bytes \<Rightarrow> stage \<Rightarrow> piece list list \<Rightarrow> stage option" where
  "accept_all pid base g [] = Some g"
| "accept_all pid base g (ps # pks) = do { g' \<leftarrow> accept pid base g ps; accept_all pid base g' pks }"

lemma length_token [simp]: "length (token a b c d e) = 20"
  by (simp add: token_def)

lemma length_overlay [simp]: "length (overlay off d img) = length img"
  by (simp add: overlay_def)

lemma token_fields:
  assumes "buf_write 0 (token a b c d e) x = Some y"
  shows "read_le32 0 y = Some a" "read_le32 4 y = Some b" "read_le32 8 y = Some c" "read_le32 12 y = Some d"
    "read_le32 16 y = Some e"
proof -
  have y: "y = token a b c d e @ drop 20 x" using assms by (simp add: buf_simps)
  have "read_le32 off (u @ to_le32 w @ v) = Some w" if "length u = off" for off u v w
  proof -
    have "buf_write off (to_le32 w) (u @ replicate 4 0 @ v) = Some (u @ to_le32 w @ v)"
      using that by (simp add: buf_write_def)
    then show ?thesis by (rule read_le32_write)
  qed
  note r = this
  show "read_le32 0 y = Some a" using r [of "[]" 0 a] by (simp add: y token_def)
  show "read_le32 4 y = Some b" using r [of "to_le32 a" 4 b] by (simp add: y token_def)
  show "read_le32 8 y = Some c" using r [of "to_le32 a @ to_le32 b" 8 c] by (simp add: y token_def)
  show "read_le32 12 y = Some d" using r [of "to_le32 a @ to_le32 b @ to_le32 c" 12 d] by (simp add: y token_def)
  show "read_le32 16 y = Some e"
    using r [of "to_le32 a @ to_le32 b @ to_le32 c @ to_le32 d" 16 e "drop 20 x"] by (simp add: y token_def)
qed

text \<open>What a request leaves alone.\<close>

definition setup_of :: "RAMNV_PART_CTRL \<Rightarrow> u32 \<times> nat \<times> u32" where
  "setup_of p = (part_id p, sctNum p, fdhandle p)"

definition same_setup :: "nv_mem \<Rightarrow> nv_mem \<Rightarrow> bool" where
  "same_setup m m' \<longleftrightarrow> ramdiskCfg m' = ramdiskCfg m \<and> nvdisk m' = nvdisk m \<and> is_cali_mode m' = is_cali_mode m \<and>
     map setup_of (parts m') = map setup_of (parts m)"

lemma same_setup_refl [simp]: "same_setup m m"
  by (simp add: same_setup_def)

lemma same_setup_trans: "same_setup m m1 \<Longrightarrow> same_setup m1 m2 \<Longrightarrow> same_setup m m2"
  by (simp add: same_setup_def)

lemma same_setup_put:
  "get_part i m = Some p \<Longrightarrow> setup_of p' = setup_of p \<Longrightarrow> same_setup m (put_part i p' m)"
  by (auto simp: same_setup_def map_update dest!: get_part_SomeD intro!: list_update_unchanged)

lemma same_setup_getCtlId: "same_setup m m' \<Longrightarrow> getCtlId pid m' = getCtlId pid m"
proof -
  have *: "map setup_of ps = map setup_of qs \<Longrightarrow> find_part pid ps k = find_part pid qs k" for ps qs k
  proof (induction ps arbitrary: qs k)
    case (Cons p ps)
    then obtain q qs' where "qs = q # qs'" "setup_of p = setup_of q" "map setup_of ps = map setup_of qs'" by (cases qs) auto
    moreover from this have "part_id p = part_id q" by (simp add: setup_of_def)
    ultimately show ?case using Cons.IH [of qs' "Suc k"] by simp
  qed simp
  show "same_setup m m' \<Longrightarrow> ?thesis" using *[of "parts m'" "parts m" 0] by (simp add: same_setup_def getCtlId_def)
qed

section \<open>The operations on a well-formed request\<close>

definition touched :: "RAMNV_PART_CTRL \<Rightarrow> bool" where
  "touched p \<longleftrightarrow> (\<exists>b. sector_dirty (dirty (fromChannel p)) b)"

lemma markDirtyInfo_ok:
  assumes "wf_mem m" "unat i < length (parts m)" "0 < num" "unat start + unat num \<le> 1024"
  shows "\<exists>m'. markDirtyInfo i start num m = Some m' \<and> wf_mem m' \<and> length (parts m') = length (parts m) \<and>
    committeds m' = committeds m \<and> pendings m' = pendings m \<and> same_setup m m' \<and> touched (parts m' ! unat i)"
proof -
  let ?p = "parts m ! unat i"
  have p: "get_part i m = Some ?p" using assms(2) by (rule get_part_nth)
  have wf: "wf_part ?p" using wf_mem_nth [OF assms(1) p] .
  have l: "32 * (unat start div 32) + unat start mod 32 + unat num \<le> 32 * length (dirty (fromChannel ?p))"
    using assms(4) wf by (simp add: wf_part_def wf_buf_def RAMNV_DIRTYTABLE_MAXSIZE_def)
  obtain t where t: "mark_loop (unat start div 32) (unat start mod 32) (unat num) (dirty (fromChannel ?p)) = Some t"
    "\<forall>b. sector_dirty t b \<longleftrightarrow> sector_dirty (dirty (fromChannel ?p)) b \<or>
        32 * (unat start div 32) + unat start mod 32 \<le> b \<and> b < 32 * (unat start div 32) + unat start mod 32 + unat num"
    using mark_loop_spec [OF _ _ l] assms(3) by (auto simp: unat_gt_0 word_gt_0)
  let ?p' = "?p\<lparr>fromChannel := (fromChannel ?p)\<lparr>dirty := t\<rparr>\<rparr>"
  have m: "markDirtyInfo i start num m = Some (put_part i ?p' m)" by (simp add: markDirtyInfo_def p t(1))
  have e: "32 * (unat start div 32) + unat start mod 32 = unat start" by simp
  have "sector_dirty t (unat start)"
    using t(2) [unfolded e, rule_format, of "unat start"] assms(3) by (simp add: unat_gt_0 word_gt_0)
  then have "touched ?p'" unfolding touched_def by (intro exI [of _ "unat start"]) simp
  then show ?thesis
    using m markDirtyInfo_effect [OF m assms(1)] same_setup_put [OF p, of ?p'] assms(2) by (simp add: setup_of_def)
qed

lemma writeData_ok:
  assumes "wf_mem m" "unat i < length (parts m)" "unat start + length d \<le> length (pendings m ! unat i)"
  shows "\<exists>m'. writeData i start d m = Some m' \<and> wf_mem m' \<and> length (parts m') = length (parts m) \<and>
    committeds m' = committeds m \<and> pendings m' = (pendings m)[unat i := overlay (unat start) d (pendings m ! unat i)] \<and>
    same_setup m m' \<and> touched (parts m' ! unat i) = touched (parts m ! unat i)"
proof -
  let ?p = "parts m ! unat i"
  have p: "get_part i m = Some ?p" using assms(2) by (rule get_part_nth)
  have "length (pendings m ! unat i) \<le> length (diskbuf (fromChannel ?p))"
    using lists_at(1) [OF p] by (simp add: pending_def image_of_def)
  then obtain b where b: "buf_write (unat start) d (diskbuf (fromChannel ?p)) = Some b"
    using assms(3) buf_write_defined by (metis order_trans)
  have "\<exists>m'. writeData i start d m = Some m' \<and> same_setup m m' \<and> touched (parts m' ! unat i) = touched ?p"
    using p b assms(2)
    by (cases "d = []") (auto simp: writeData_def setup_of_def touched_def intro!: same_setup_put)
  then show ?thesis using writeData_effect [OF _ assms(1,2)] by blast
qed

lemma backupData_ok:
  assumes "wf_mem m" "unat i < length (parts m)" "\<not> is_cali_mode m"
  shows "\<exists>m'. backupData i m = Some (True, m') \<and> wf_mem m' \<and> length (parts m') = length (parts m) \<and>
    pendings m' = pendings m \<and> committeds m' = (committeds m)[unat i := pendings m ! unat i] \<and> same_setup m m' \<and>
    (touched (parts m ! unat i) \<longrightarrow> ifHasDirty (parts m' ! unat i))"
proof -
  let ?p = "parts m ! unat i"
  have p: "get_part i m = Some ?p" using assms(2) by (rule get_part_nth)
  have wf: "wf_part ?p" using wf_mem_nth [OF assms(1) p] .
  obtain q where q: "backup_part ?p = Some q" "wf_part q" "setup_of q = setup_of ?p"
    "dirty (backup q) = or_table (dirty (backup ?p)) (dirty (fromChannel ?p))"
    using backup_part_spec [OF wf] unfolding setup_of_def by metis
  have "touched ?p \<longrightarrow> ifHasDirty q"
    using wf q(2,4) by (auto simp: touched_def ifHasDirty_iff wf_part_def wf_buf_def sector_dirty_or_table)
  moreover have e: "backupData i m = Some (True, (put_part i q m)\<lparr>save_event := True\<rparr>)"
    using assms(3) p q(1) by (simp add: backupData_def)
  moreover have "same_setup m ((put_part i q m)\<lparr>save_event := True\<rparr>)"
    using same_setup_put [OF p q(3)] by (simp add: same_setup_def)
  ultimately show ?thesis using backupData_effect [OF e assms(1)] assms(2) by simp
qed

section \<open>Stages of a request in the state of the daemon\<close>

definition req_inv :: "nv_mem \<Rightarrow> u32 \<Rightarrow> nv_sync \<Rightarrow> bool" where
  "req_inv m0 pid s \<longleftrightarrow> sync_inv s \<and> same_setup m0 (mem s) \<and> \<not> is_cali_mode m0 \<and> getCtlId pid m0 \<noteq> -1"

definition slot :: "nv_mem \<Rightarrow> u32 \<Rightarrow> nat" where
  "slot m pid = unat (getCtlId pid m)"

definition open_at :: "nv_mem \<Rightarrow> u32 \<Rightarrow> nv_sync \<Rightarrow> u32 \<Rightarrow> bytes \<Rightarrow> bool" where
  "open_at m0 pid s f img \<longleftrightarrow> syncReqFrame s = f \<and> sid s = getCtlId pid m0 \<and> committeds (mem s) = committeds m0 \<and>
     pendings (mem s) ! slot m0 pid = img"

fun at_stage :: "nv_mem \<Rightarrow> u32 \<Rightarrow> nv_sync \<Rightarrow> stage \<Rightarrow> bool" where
  "at_stage m0 pid s Idle \<longleftrightarrow> req_inv m0 pid s \<and> syncState s = 0 \<and> committeds (mem s) = committeds m0"
| "at_stage m0 pid s (Token f img t) \<longleftrightarrow> req_inv m0 pid s \<and> syncState s = 1 \<and> open_at m0 pid s f img \<and>
     (t \<longrightarrow> touched (parts (mem s) ! slot m0 pid))"
| "at_stage m0 pid s (Fill f off k img) \<longleftrightarrow> req_inv m0 pid s \<and> syncState s = 2 \<and> open_at m0 pid s f img \<and>
     touched (parts (mem s) ! slot m0 pid) \<and> unat (sstart s) = off \<and> unat (slen s) = k \<and> 0 < k \<and>
     off + k \<le> length img \<and> off + k < 2 ^ 32"
| "at_stage m0 pid s (Finished img t) \<longleftrightarrow> req_inv m0 pid s \<and> syncState s = 0 \<and>
     committeds (mem s) = (committeds m0)[slot m0 pid := img] \<and>
     (t \<longrightarrow> ifHasDirty (parts (mem s) ! slot m0 pid))"

text \<open>The variables of the packet layer.\<close>

definition io_same :: "nv_sync \<Rightarrow> nv_sync \<Rightarrow> bool" where
  "io_same s s' \<longleftrightarrow> link s' = link s \<and> packeBuf s' = packeBuf s \<and> idxGrp s' = idxGrp s \<and> idxSub s' = idxSub s \<and>
     syncBusy s' = syncBusy s"

lemma io_same_trans: "io_same s s1 \<Longrightarrow> io_same s1 s2 \<Longrightarrow> io_same s s2"
  by (simp add: io_same_def)

lemma slot_bound:
  assumes "req_inv m0 pid s"
  shows "slot m0 pid < length (parts (mem s))" "getCtlId pid (mem s) = getCtlId pid m0"
proof -
  have r: "same_setup m0 (mem s)" "getCtlId pid m0 \<noteq> -1" "length (parts (mem s)) \<le> RAMNV_NUM"
    using assms by (simp_all add: req_inv_def sync_inv_def wf_mem_def)
  show c: "getCtlId pid (mem s) = getCtlId pid m0" using same_setup_getCtlId [OF r(1)] .
  show "slot m0 pid < length (parts (mem s))" using getCtlId_valid(1) [of pid "mem s"] r c by (simp add: slot_def)
qed

lemma getToken_ok:
  assumes "sync_inv s" "buf_read buf 20 (packeBuf s) = Some (token a b c d e)" "20 \<le> unat n"
  shows "\<exists>y. getToken (buf, n) s = Some (True, (buf + 20, n - 20), s\<lparr>syncReqBuf := y\<rparr>) \<and> length y = 80 \<and>
    read_le32 0 y = Some a \<and> read_le32 4 y = Some b \<and> read_le32 8 y = Some c \<and> read_le32 12 y = Some d \<and>
    read_le32 16 y = Some e"
proof -
  have o: "ofst s = 0" "length (syncReqBuf s) = 80" using assms(1) by (simp_all add: sync_inv_def)
  obtain y where y: "buf_write 0 (token a b c d e) (syncReqBuf s) = Some y"
    using buf_write_defined [of 0 "token a b c d e" "syncReqBuf s"] o(2) by auto
  have n: "\<not> n < 20" using assms(3) by (simp add: word_less_nat_alt)
  have "s\<lparr>syncReqBuf := y, ofst := 0\<rparr> = s\<lparr>syncReqBuf := y\<rparr>" using o(1) by (cases s) simp
  then have "getToken (buf, n) s = Some (True, (buf + 20, n - 20), s\<lparr>syncReqBuf := y\<rparr>)"
    using n assms(2) y by (simp add: getToken_def o(1) SYNC_REQ_SIZE_def)
  then show ?thesis using token_fields [OF y] buf_write_length [OF y] o(2) by auto
qed

lemma head_step:
  assumes "at_stage m0 pid s Idle" "buf_read buf 20 (packeBuf s) = Some (piece_bytes (Head idx pid))" "20 \<le> unat n"
  shows "\<exists>s'. syncGetHead (buf, n) s = Some (SYNC_NEXT, (buf + 20, n - 20), s') \<and>
    at_stage m0 pid (s'\<lparr>syncState := 1\<rparr>) (Token idx (committeds m0 ! slot m0 pid) False) \<and> io_same s s'"
proof -
  have r: "req_inv m0 pid s" "syncState s = 0" "committeds (mem s) = committeds m0" "sync_inv s"
    using assms(1) by (simp_all add: req_inv_def)
  obtain y where y: "getToken (buf, n) s = Some (True, (buf + 20, n - 20), s\<lparr>syncReqBuf := y\<rparr>)" "length y = 80"
      "read_le32 0 y = Some SYNC_REQ_HEAD" "read_le32 4 y = Some idx" "read_le32 8 y = Some pid"
    using getToken_ok [OF r(4) assms(2) [simplified] assms(3)] by blast
  let ?s = "s\<lparr>syncReqBuf := y, syncReqFrame := idx, sid := getCtlId pid m0\<rparr>"
  have e: "syncGetHead (buf, n) s = Some (SYNC_NEXT, (buf + 20, n - 20), ?s)"
    using r(1) y slot_bound(2) [OF r(1)] by (simp add: syncGetHead_def Let_def req_inv_def)
  have n: "n \<noteq> 0" using assms(3) by auto
  have "sync_inv (?s\<lparr>syncState := 1\<rparr>)" using syncGetHead_inv(1) [OF e r(4) n r(2)] by simp
  moreover have "pendings (mem s) ! slot m0 pid = committeds m0 ! slot m0 pid"
    using r slot_bound(1) [OF r(1)] by (simp add: sync_inv_def settled_def)
  ultimately show ?thesis using e r by (simp add: req_inv_def open_at_def io_same_def)
qed

lemma mult_sect:
  assumes "unat (w :: u32) \<le> 1024"
  shows "unat (w * word_of_nat RAMNV_SECT_SIZE) = RAMNV_SECT_SIZE * unat w"
proof -
  have "unat w * 512 < 2 ^ 32" using mult_le_mono1 [OF assms, of 512] by simp
  then show ?thesis by (simp add: RAMNV_SECT_SIZE_def unat_word_ariths mult.commute)
qed

lemma body_step:
  assumes "at_stage m0 pid s (Token f img t)" "buf_read buf 20 (packeBuf s) = Some (piece_bytes (Body (f + 1) start num))"
    "20 \<le> unat n" "0 < num" "unat start + unat num \<le> 1024" "RAMNV_SECT_SIZE * (unat start + unat num) \<le> length img"
  shows "\<exists>s'. syncGetBody (buf, n) s = Some (SYNC_NEXT, (buf + 20, n - 20), s') \<and>
    at_stage m0 pid (s'\<lparr>syncState := 2\<rparr>) (Fill (f + 1) (RAMNV_SECT_SIZE * unat start) (RAMNV_SECT_SIZE * unat num) img) \<and>
    io_same s s'"
proof -
  have r: "req_inv m0 pid s" "syncState s = 1" "open_at m0 pid s f img" "sync_inv s"
    using assms(1) by (simp_all add: req_inv_def)
  obtain y where y: "getToken (buf, n) s = Some (True, (buf + 20, n - 20), s\<lparr>syncReqBuf := y\<rparr>)" "length y = 80"
      "read_le32 0 y = Some SYNC_REQ_BODY" "read_le32 4 y = Some (f + 1)" "read_le32 12 y = Some start"
      "read_le32 16 y = Some num"
    using getToken_ok [OF r(4) assms(2) [simplified] assms(3)] by blast
  have w: "wf_mem (mem s)" "unat (sid s) < length (parts (mem s))" "unat (sid s) = slot m0 pid"
    using r slot_bound(1) [OF r(1)] by (simp_all add: sync_inv_def open_at_def slot_def)
  obtain m where m: "markDirtyInfo (sid s) start num (mem s) = Some m" "committeds m = committeds (mem s)"
      "pendings m = pendings (mem s)" "same_setup (mem s) m" "touched (parts m ! slot m0 pid)"
    using markDirtyInfo_ok [OF w(1,2) assms(4,5)] w(3) by auto
  let ?s = "s\<lparr>syncReqBuf := y, syncReqFrame := f + 1, mem := m, sstart := start * word_of_nat RAMNV_SECT_SIZE,
    slen := num * word_of_nat RAMNV_SECT_SIZE\<rparr>"
  have f: "syncReqFrame s = f" using r(3) by (simp add: open_at_def)
  have e: "syncGetBody (buf, n) s = Some (SYNC_NEXT, (buf + 20, n - 20), ?s)"
    by (simp add: syncGetBody_def y m(1) f SYNC_REQ_BODY_def SYNC_REQ_TAIL_def)
  have nz: "n \<noteq> 0" "syncState s \<noteq> 0" using assms(3) r(2) by auto
  have i: "sync_inv (?s\<lparr>syncState := 2\<rparr>)" using syncGetBody_inv(4) [OF e r(4) nz] .
  have l: "unat (start * word_of_nat RAMNV_SECT_SIZE) = RAMNV_SECT_SIZE * unat start"
      "unat (num * word_of_nat RAMNV_SECT_SIZE) = RAMNV_SECT_SIZE * unat num"
    using mult_sect [of start] mult_sect [of num] assms(5) by simp_all
  have "RAMNV_SECT_SIZE * unat start + RAMNV_SECT_SIZE * unat num < 2 ^ 32"
    using mult_le_mono2 [OF assms(5), of 512] by (simp add: RAMNV_SECT_SIZE_def)
  moreover have "0 < RAMNV_SECT_SIZE * unat num" using assms(4) by (simp add: RAMNV_SECT_SIZE_def unat_gt_0 word_gt_0)
  moreover have "same_setup m0 m" using r(1) m(4) same_setup_trans by (auto simp: req_inv_def)
  moreover have "RAMNV_SECT_SIZE * unat start + RAMNV_SECT_SIZE * unat num \<le> length img"
    using assms(6) by (simp add: add_mult_distrib2)
  ultimately show ?thesis using e i l m r by (simp add: req_inv_def open_at_def io_same_def)
qed

lemma data_step_full:
  assumes "at_stage m0 pid s (Fill f off k img)" "buf_read buf k (packeBuf s) = Some d" "k \<le> unat n"
  shows "\<exists>s'. syncGetData (buf, n) s = Some (SYNC_NEXT, (buf + k, n - word_of_nat k), s') \<and>
    at_stage m0 pid (s'\<lparr>syncState := 1\<rparr>) (Token f (overlay off d img) True) \<and> io_same s s'"
proof -
  have r: "req_inv m0 pid s" "syncState s = 2" "open_at m0 pid s f img" "sync_inv s" "unat (sstart s) = off"
      "unat (slen s) = k" "off + k \<le> length img" "touched (parts (mem s) ! slot m0 pid)"
    using assms(1) by (simp_all add: req_inv_def)
  have d: "length d = k" using assms(2) by (auto simp: buf_simps)
  have w: "wf_mem (mem s)" "unat (sid s) < length (parts (mem s))" "unat (sid s) = slot m0 pid"
      "pendings (mem s) ! slot m0 pid = img" "slot m0 pid < length (pendings (mem s))"
    using r slot_bound(1) [OF r(1)] by (simp_all add: sync_inv_def open_at_def slot_def pendings_def)
  have b: "unat (sstart s) + length d \<le> length (pendings (mem s) ! unat (sid s))" using w r d by simp
  obtain m where m: "writeData (sid s) (sstart s) d (mem s) = Some m" "committeds m = committeds (mem s)"
      "pendings m = (pendings (mem s))[slot m0 pid := overlay off d img]" "same_setup (mem s) m"
      "touched (parts m ! slot m0 pid)"
    using writeData_ok [OF w(1,2) b] w(3,4) r(5,8) by auto
  have k: "slen s = word_of_nat k" using r(6) by auto
  let ?s = "s\<lparr>mem := m, sstart := sstart s + slen s, slen := 0\<rparr>"
  have "slen s \<le> n" using r(6) assms(3) by (simp add: word_le_nat_alt)
  then have e: "syncGetData (buf, n) s = Some (SYNC_NEXT, (buf + k, n - word_of_nat k), ?s)"
    using assms(2) r(6) by (simp add: syncGetData_def m(1) k [symmetric])
  have nz: "syncState s \<noteq> 0" using r(2) by simp
  have "sync_inv (?s\<lparr>syncState := 1\<rparr>)" using syncGetData_inv(4) [OF e r(4) nz] .
  moreover have "same_setup m0 m" using r(1) m(4) same_setup_trans by (auto simp: req_inv_def)
  ultimately show ?thesis using e m r w(5) by (simp add: req_inv_def open_at_def io_same_def)
qed

lemma data_step_partial:
  assumes "at_stage m0 pid s (Fill f off k img)" "buf_read buf (length d) (packeBuf s) = Some d" "length d < k"
    "unat n = length d"
  shows "\<exists>s'. syncGetData (buf, n) s = Some (SYNC_CONTINUE, (buf + length d, 0), s') \<and>
    at_stage m0 pid s' (Fill f (off + length d) (k - length d) (overlay off d img)) \<and> io_same s s'"
proof -
  have r: "req_inv m0 pid s" "syncState s = 2" "open_at m0 pid s f img" "sync_inv s" "unat (sstart s) = off"
      "unat (slen s) = k" "off + k \<le> length img" "touched (parts (mem s) ! slot m0 pid)" "off + k < 2 ^ 32"
    using assms(1) by (simp_all add: req_inv_def)
  have w: "wf_mem (mem s)" "unat (sid s) < length (parts (mem s))" "unat (sid s) = slot m0 pid"
      "pendings (mem s) ! slot m0 pid = img" "slot m0 pid < length (pendings (mem s))"
    using r slot_bound(1) [OF r(1)] by (simp_all add: sync_inv_def open_at_def slot_def pendings_def)
  have b: "unat (sstart s) + length d \<le> length (pendings (mem s) ! unat (sid s))" using w r assms(3) by simp
  obtain m where m: "writeData (sid s) (sstart s) d (mem s) = Some m" "committeds m = committeds (mem s)"
      "pendings m = (pendings (mem s))[slot m0 pid := overlay off d img]" "same_setup (mem s) m"
      "touched (parts m ! slot m0 pid)"
    using writeData_ok [OF w(1,2) b] w(3,4) r(5,8) by auto
  let ?s = "s\<lparr>mem := m, sstart := sstart s + n, slen := slen s - n\<rparr>"
  have "\<not> slen s \<le> n" using r(6) assms(3,4) by (simp add: word_le_nat_alt)
  then have e: "syncGetData (buf, n) s = Some (SYNC_CONTINUE, (buf + length d, 0), ?s)"
    using assms(2,4) by (simp add: syncGetData_def m(1))
  have nz: "syncState s \<noteq> 0" using r(2) by simp
  have "sync_inv ?s" using syncGetData_inv(1) [OF e r(4) nz] .
  moreover have "same_setup m0 m" using r(1) m(4) same_setup_trans by (auto simp: req_inv_def)
  moreover have "unat (slen s - n) = k - length d" using r(6) assms(3,4) by (subst unat_sub) (simp_all add: word_le_nat_alt)
  moreover have "unat (sstart s + n) = off + length d"
    using r(5,9) assms(3,4) by (simp add: unat_word_ariths)
  ultimately show ?thesis using e m r w(5) assms(3) by (simp add: req_inv_def open_at_def io_same_def)
qed

lemma tail_step:
  assumes "at_stage m0 pid s (Token f img t)" "buf_read buf 20 (packeBuf s) = Some (piece_bytes (Tail (f + 1)))"
    "20 \<le> unat n"
  shows "\<exists>s1 s2. syncGetBody (buf, n) s = Some (SYNC_DONE, (buf + 20, n - 20), s1) \<and> syncReset True s1 = Some (True, s2) \<and>
    at_stage m0 pid s2 (Finished img t) \<and> io_same s (s2\<lparr>syncBusy := syncBusy s\<rparr>) \<and> syncBusy s2 = 0"
proof -
  have r: "req_inv m0 pid s" "syncState s = 1" "open_at m0 pid s f img" "sync_inv s"
    using assms(1) by (simp_all add: req_inv_def)
  obtain y where y: "getToken (buf, n) s = Some (True, (buf + 20, n - 20), s\<lparr>syncReqBuf := y\<rparr>)" "length y = 80"
      "read_le32 0 y = Some SYNC_REQ_TAIL" "read_le32 4 y = Some (f + 1)" "read_le32 12 y = Some 0"
      "read_le32 16 y = Some 0"
    using getToken_ok [OF r(4) assms(2) [simplified] assms(3)] by blast
  have w: "wf_mem (mem s)" "unat (sid s) < length (parts (mem s))" "unat (sid s) = slot m0 pid" "\<not> is_cali_mode (mem s)"
    using r slot_bound(1) [OF r(1)] by (auto simp: sync_inv_def open_at_def slot_def req_inv_def same_setup_def)
  let ?s = "s\<lparr>syncReqBuf := y, syncReqFrame := f + 1\<rparr>"
  have f: "syncReqFrame s = f" using r(3) by (simp add: open_at_def)
  have e: "syncGetBody (buf, n) s = Some (SYNC_DONE, (buf + 20, n - 20), ?s)"
    by (simp add: syncGetBody_def y f SYNC_REQ_BODY_def SYNC_REQ_TAIL_def)
  obtain m where m: "backupData (sid s) (mem s) = Some (True, m)" "same_setup (mem s) m"
      "committeds m = (committeds (mem s))[slot m0 pid := pendings (mem s) ! slot m0 pid]"
      "touched (parts (mem s) ! slot m0 pid) \<longrightarrow> ifHasDirty (parts m ! slot m0 pid)"
    using backupData_ok [OF w(1,2,4)] w(3) by auto
  have x: "syncReset True ?s = Some (True, syncInit (?s\<lparr>mem := m\<rparr>))" by (simp add: syncReset_def m(1))
  have nz: "syncState ?s \<noteq> 0" "sync_inv ?s" using r(2,4) y(2) by simp_all
  have "sync_inv (syncInit (?s\<lparr>mem := m\<rparr>))" using reset_success_spec [OF x nz(2,1)] becomes_inv by blast
  moreover have "same_setup m0 m" using r(1) m(2) same_setup_trans by (auto simp: req_inv_def)
  ultimately have "at_stage m0 pid (syncInit (?s\<lparr>mem := m\<rparr>)) (Finished img t)"
    using m r assms(1) by (simp add: req_inv_def open_at_def syncInit_def)
  then show ?thesis using e x by (auto simp: io_same_def syncInit_def)
qed

section \<open>A packet of a request\<close>

lemma at_stage_link [simp]: "at_stage m0 pid (s\<lparr>link := c\<rparr>) g = at_stage m0 pid s g"
  by (cases g) (simp_all add: req_inv_def open_at_def)

definition delivered :: "nv_sync \<Rightarrow> nv_sync \<Rightarrow> stage \<Rightarrow> bool" where
  "delivered s s' g \<longleftrightarrow> packeBuf s' = packeBuf s \<and> idxGrp s' = idxGrp s \<and> idxSub s' = idxSub s \<and>
     rx (link s') = rx (link s) \<and> rd_sched (link s') = rd_sched (link s) \<and>
     (wr_sched (link s') = wr_sched (link s) \<or> wr_sched (link s') = tl (wr_sched (link s))) \<and>
     (case g of
        Finished _ _ \<Rightarrow> syncBusy s' = 0 \<and> tx (link s') = tx (link s) @ packet_rsp (take PACKET_HEAD_SIZE (packeBuf s)) True
      | _ \<Rightarrow> syncBusy s' = syncBusy s)"

lemma delivered_io: "io_same s s1 \<Longrightarrow> delivered s1 s' g \<Longrightarrow> delivered s s' g"
  by (auto simp: delivered_def io_same_def split: stage.splits)

lemma io_same_state [simp]: "io_same s (s'\<lparr>syncState := k\<rparr>) = io_same s s'"
  by (simp add: io_same_def)

definition writable :: "nv_sync \<Rightarrow> bool" where
  "writable s \<longleftrightarrow> wr_sched (link s) \<noteq> [] \<and> 36 \<le> hd (wr_sched (link s))"

lemma writable_io: "io_same s s1 \<Longrightarrow> writable s1 = writable s"
  by (simp add: writable_def io_same_def)

lemma respond_ok:
  assumes "writable s" "sync_inv s"
  shows "sendPacktRsp r s = Some (s\<lparr>link := (link s)\<lparr>wr_sched := tl (wr_sched (link s)),
    tx := tx (link s) @ packet_rsp (take PACKET_HEAD_SIZE (packeBuf s)) r\<rparr>\<rparr>)"
proof -
  obtain w ws where w: "wr_sched (link s) = w # ws" "36 \<le> w" using assms(1) by (cases "wr_sched (link s)") (auto simp: writable_def)
  have l: "PACKET_HEAD_SIZE \<le> length (packeBuf s)" using assms(2) by (simp add: sync_inv_def)
  then have "length (packet_rsp (take PACKET_HEAD_SIZE (packeBuf s)) r) = 36"
    by (simp add: packet_rsp_def PACKETRSP_SIZE_def PACKET_HEAD_SIZE_def)
  then show ?thesis using l w sys_write_full [OF w(1), of "packet_rsp (take PACKET_HEAD_SIZE (packeBuf s)) r"]
    by (simp add: sendPacktRsp_def channel_write_def buf_read_def)
qed

lemma buf_read_append:
  "buf_read off (length a + k) b = Some (a @ c) \<longleftrightarrow> buf_read off (length a) b = Some a \<and> buf_read (off + length a) k b = Some c"
proof -
  have "take (length a + k) (drop off b) = a @ c \<longleftrightarrow> take (length a) (drop off b) = a \<and> take k (drop (off + length a) b) = c"
    if "off + length a \<le> length b"
    unfolding take_add drop_drop using that by (subst append_eq_append_conv) (auto simp: add.commute)
  then show ?thesis by (auto simp: buf_read_def)
qed

lemma payload_simps [simp]: "payload [] = []" "payload (p # ps) = piece_bytes p @ payload ps"
  by (simp_all add: payload_def)

text \<open>What is left of the packet after its first piece.\<close>

lemma after_piece:
  assumes "buf_read buf (length (payload (p # ps))) b = Some (payload (p # ps))" "unat (n :: u32) = length (payload (p # ps))"
    "length (piece_bytes p) = k"
  shows "buf_read buf k b = Some (piece_bytes p)" "buf_read (buf + k) (length (payload ps)) b = Some (payload ps)"
    "unat (n - word_of_nat k) = length (payload ps)" "k \<le> unat n"
proof -
  show "buf_read buf k b = Some (piece_bytes p)" "buf_read (buf + k) (length (payload ps)) b = Some (payload ps)"
    using assms buf_read_append [of buf "piece_bytes p" "length (payload ps)" b "payload ps"] by simp_all
  show k: "k \<le> unat n" using assms(2,3) by simp
  then have "k < 2 ^ 32" using unsigned_less [of n, where 'a = nat] by simp
  then have u: "unat (word_of_nat k :: u32) = k" by (simp add: unat_of_nat take_bit_nat_eq_self)
  then have "unat (n - word_of_nat k) = unat n - k" using k by (subst unat_sub) (simp_all add: word_le_nat_alt)
  then show "unat (n - word_of_nat k) = length (payload ps)" using assms(2,3) by simp
qed

lemma next_piece:
  assumes "sync_loop (buf, n) s = sync_loop bs s1" "io_same s s1"
    "\<exists>s'. sync_loop bs s1 = Some s' \<and> at_stage m0 pid s' g \<and> delivered s1 s' g"
  shows "\<exists>s'. sync_loop (buf, n) s = Some s' \<and> at_stage m0 pid s' g \<and> delivered s s' g"
  using assms delivered_io by metis

lemma loop_ok:
  assumes "accept pid (committeds m0 ! slot m0 pid) g ps = Some g'" "at_stage m0 pid s g" "writable s"
    "buf_read buf (length (payload ps)) (packeBuf s) = Some (payload ps)" "unat n = length (payload ps)"
    "case g of Finished _ _ \<Rightarrow> False | _ \<Rightarrow> True"
  shows "\<exists>s'. sync_loop (buf, n) s = Some s' \<and> at_stage m0 pid s' g' \<and> delivered s s' g'"
  using assms
proof (induction pid "committeds m0 ! slot m0 pid" g ps arbitrary: buf n s rule: accept.induct)
  case (1 pid g)
  then have "n = 0" by (simp add: unat_eq_0)
  then show ?case using 1 by (auto simp: sync_loop.simps delivered_def split: stage.splits)
next
  case (2 pid idx pid' ps)
  have p: "pid' = pid" "accept pid (committeds m0 ! slot m0 pid) (Token idx (committeds m0 ! slot m0 pid) False) ps = Some g'"
    using "2.prems"(1) by (simp_all split: if_splits)
  note a = after_piece [OF "2.prems"(4,5), of 20, simplified p(1), simplified]
  have n: "20 \<le> unat n" using "2.prems"(5) by simp
  obtain s1 where s1: "syncGetHead (buf, n) s = Some (SYNC_NEXT, (buf + 20, n - 20), s1)"
    "at_stage m0 pid (s1\<lparr>syncState := 1\<rparr>) (Token idx (committeds m0 ! slot m0 pid) False)" "io_same s s1"
    using head_step [OF "2.prems"(2) _ n, of buf idx] a(1) by auto
  have b: "buf_read (buf + 20) (length (payload ps)) (packeBuf (s1\<lparr>syncState := 1\<rparr>)) = Some (payload ps)"
    using a(2) s1(3) by (simp add: io_same_def)
  have w: "writable (s1\<lparr>syncState := 1\<rparr>)" using "2.prems"(3) writable_io [of s "s1\<lparr>syncState := 1\<rparr>"] s1(3) by simp
  have "n \<noteq> 0" "syncState s = 0" using n "2.prems"(2) by auto
  then have "sync_loop (buf, n) s = sync_loop (buf + 20, n - 20) (s1\<lparr>syncState := 1\<rparr>)"
    using s1(1) by (subst sync_loop.simps) simp
  then show ?case by (rule next_piece) (use s1(3) "2.hyps" [OF p(1) p(2) s1(2) w b a(3)] in auto)
next
  case (3 pid f img t idx start num ps)
  have p: "idx = f + 1" "0 < num" "unat start + unat num \<le> 1024" "RAMNV_SECT_SIZE * (unat start + unat num) \<le> length img"
    "accept pid (committeds m0 ! slot m0 pid) (Fill idx (RAMNV_SECT_SIZE * unat start) (RAMNV_SECT_SIZE * unat num) img) ps = Some g'"
    using "3.prems"(1) by (simp_all split: if_splits)
  note a = after_piece [OF "3.prems"(4,5), of 20, simplified p(1), simplified]
  have n: "20 \<le> unat n" using "3.prems"(5) by simp
  obtain s1 where s1: "syncGetBody (buf, n) s = Some (SYNC_NEXT, (buf + 20, n - 20), s1)"
    "at_stage m0 pid (s1\<lparr>syncState := 2\<rparr>) (Fill idx (RAMNV_SECT_SIZE * unat start) (RAMNV_SECT_SIZE * unat num) img)" "io_same s s1"
    using body_step [OF "3.prems"(2) _ n p(2-4), of buf] a(1) p(1) by auto
  have b: "buf_read (buf + 20) (length (payload ps)) (packeBuf (s1\<lparr>syncState := 2\<rparr>)) = Some (payload ps)"
    using a(2) s1(3) by (simp add: io_same_def)
  have w: "writable (s1\<lparr>syncState := 2\<rparr>)" using "3.prems"(3) writable_io [of s "s1\<lparr>syncState := 2\<rparr>"] s1(3) by simp
  have "n \<noteq> 0" "syncState s = 1" using n "3.prems"(2) by auto
  then have "sync_loop (buf, n) s = sync_loop (buf + 20, n - 20) (s1\<lparr>syncState := 2\<rparr>)"
    using s1(1) by (subst sync_loop.simps) simp
  then show ?case by (rule next_piece) (use s1(3) "3.hyps" [OF _ p(5) s1(2) w b a(3)] p in auto)
next
  case (4 pid f img t idx ps)
  have p: "idx = f + 1" "ps = []" "g' = Finished img t" using "4.prems"(1) by (simp_all split: if_splits)
  note a = after_piece [OF "4.prems"(4,5), of 20, simplified p(1), simplified]
  have n: "20 \<le> unat n" using "4.prems"(5) by simp
  obtain s1 s2 where s1: "syncGetBody (buf, n) s = Some (SYNC_DONE, (buf + 20, n - 20), s1)" "syncReset True s1 = Some (True, s2)"
    "at_stage m0 pid s2 (Finished img t)" "io_same s (s2\<lparr>syncBusy := syncBusy s\<rparr>)" "syncBusy s2 = 0"
    using tail_step [OF "4.prems"(2) _ n, of buf] a(1) by auto
  have w: "writable s2" using "4.prems"(3) s1(4) by (simp add: writable_def io_same_def)
  have i: "sync_inv s2" using s1(3) by (simp add: req_inv_def)
  have "n \<noteq> 0" "syncState s = 1" using n "4.prems"(2) by auto
  then have "sync_loop (buf, n) s = sendPacktRsp True s2" using s1(1,2) by (subst sync_loop.simps) simp
  then show ?case using respond_ok [OF w i] s1(3,4,5) p(3)
    by (simp add: delivered_def io_same_def del: at_stage.simps)
next
  case (5 pid f off k img d ps)
  have k: "0 < k" "syncState s = 2" using "5.prems"(2) by simp_all
  note a = after_piece [OF "5.prems"(4,5), of "length d", simplified]
  show ?case
  proof (cases "length d = k")
    case True
    then have p: "accept pid (committeds m0 ! slot m0 pid) (Token f (overlay off d img) True) ps = Some g'"
      using "5.prems"(1) by simp
    obtain s1 where s1: "syncGetData (buf, n) s = Some (SYNC_NEXT, (buf + k, n - word_of_nat k), s1)"
      "at_stage m0 pid (s1\<lparr>syncState := 1\<rparr>) (Token f (overlay off d img) True)" "io_same s s1"
      using data_step_full [OF "5.prems"(2), of buf d n] a(1,4) True by auto
    have b: "buf_read (buf + k) (length (payload ps)) (packeBuf (s1\<lparr>syncState := 1\<rparr>)) = Some (payload ps)"
      using a(2) s1(3) True by (simp add: io_same_def)
    have w: "writable (s1\<lparr>syncState := 1\<rparr>)" using "5.prems"(3) writable_io [of s "s1\<lparr>syncState := 1\<rparr>"] s1(3) by simp
    have "n \<noteq> 0" using k a(4) True by auto
    then have "sync_loop (buf, n) s = sync_loop (buf + k, n - word_of_nat k) (s1\<lparr>syncState := 1\<rparr>)"
      using s1(1) k(2) by (subst sync_loop.simps) simp
    then show ?thesis by (rule next_piece) (use s1(3) "5.hyps" [OF True p s1(2) w b] a(3) True in auto)
  next
    case False
    then have p: "ps = []" "d \<noteq> []" "length d < k" "g' = Fill f (off + length d) (k - length d) (overlay off d img)"
      using "5.prems"(1) by (simp_all split: if_splits)
    obtain s1 where s1: "syncGetData (buf, n) s = Some (SYNC_CONTINUE, (buf + length d, 0), s1)" "at_stage m0 pid s1 g'" "io_same s s1"
      using data_step_partial [OF "5.prems"(2), of buf d n] a(1) p "5.prems"(5) by auto
    have w: "writable s1" using "5.prems"(3) writable_io [OF s1(3)] by simp
    have i: "sync_inv s1" using s1(2) p(4) by (simp add: req_inv_def)
    have "n \<noteq> 0" using p(2) a(4) by auto
    then have "sync_loop (buf, n) s = sendPacktRsp True s1" using s1(1) k(2) by (subst sync_loop.simps) simp
    then show ?thesis using respond_ok [OF w i] s1(2,3) p(4)
      by (simp add: delivered_def io_same_def del: at_stage.simps)
  qed
qed simp_all

section \<open>The packets of a request\<close>

definition packet :: "u32 \<Rightarrow> u32 \<Rightarrow> piece list \<Rightarrow> bytes" where
  "packet grp sub ps =
     token MAGICNUM 0 grp sub (word_of_nat (length (payload ps))) @ payload ps @
     replicate (PACKETSIZE - length (payload ps)) 0"

fun packets :: "u32 \<Rightarrow> u32 \<Rightarrow> piece list list \<Rightarrow> bytes" where
  "packets grp sub [] = []"
| "packets grp sub (ps # pks) = packet grp sub ps @ packets grp (sub + 1) pks"

text \<open>Reads that return a whole packet and writes that take a whole response.\<close>

definition good_link :: "nat \<Rightarrow> chan \<Rightarrow> bool" where
  "good_link k c \<longleftrightarrow> k \<le> length (rd_sched c) \<and> (\<forall>r \<in> set (rd_sched c). 1044 \<le> r) \<and>
     k \<le> length (wr_sched c) \<and> (\<forall>w \<in> set (wr_sched c). 36 \<le> w)"

lemma length_packet: "length (payload ps) \<le> PACKETSIZE \<Longrightarrow> length (packet grp sub ps) = 1044"
  by (simp add: packet_def PACKETSIZE_def)

lemma token_at:
  "read_le32 0 (token a b c d e @ x) = Some a" "read_le32 8 (token a b c d e @ x) = Some c"
  "read_le32 12 (token a b c d e @ x) = Some d" "read_le32 16 (token a b c d e @ x) = Some e"
proof -
  have w: "buf_write 0 (token a b c d e) (replicate 20 0 @ x) = Some (token a b c d e @ x)" by (simp add: buf_write_def)
  show "read_le32 0 (token a b c d e @ x) = Some a" "read_le32 8 (token a b c d e @ x) = Some c"
    "read_le32 12 (token a b c d e @ x) = Some d" "read_le32 16 (token a b c d e @ x) = Some e"
    using token_fields [OF w] by simp_all
qed

definition follows :: "nv_sync \<Rightarrow> u32 \<Rightarrow> u32 \<Rightarrow> stage \<Rightarrow> bool" where
  "follows s grp sub g \<longleftrightarrow>
     (if g = Idle then idxGrp s \<noteq> grp \<and> sub = 0 \<and> syncBusy s = 0
      else idxGrp s = grp \<and> sub = idxSub s + 1 \<and> syncBusy s \<noteq> 0)"

lemma getPacket_ok:
  assumes "length (payload ps) \<le> PACKETSIZE" "rx (link s) = packet grp sub ps @ rest" "good_link (Suc k) (link s)"
    "sync_inv s" "follows s grp sub g"
  shows "getPacket bs s = Some (if g = Idle then PACKET_START else PACKET_CONTINUE,
      (PACKET_HEAD_SIZE, word_of_nat (length (payload ps))),
      s\<lparr>link := (link s)\<lparr>rd_sched := tl (rd_sched (link s)), rx := rest\<rparr>, packeBuf := packet grp sub ps,
        idxGrp := grp, idxSub := sub\<rparr>)"
proof -
  obtain r rs where r: "rd_sched (link s) = r # rs" "1044 \<le> r"
    using assms(3) by (cases "rd_sched (link s)") (auto simp: good_link_def)
  have l: "length (packet grp sub ps) = 1044" using length_packet [OF assms(1)] .
  have f: "sys_read 1044 (link s) = Some (int 1044, packet grp sub ps, (link s)\<lparr>rd_sched := rs, rx := rest\<rparr>)"
    using sys_read_full [OF r(1), of 1044] r(2) l assms(2) by simp
  have p: "length (packeBuf s) = 1044" using assms(4) by (simp add: sync_inv_def PACKET_HEAD_SIZE_def PACKETSIZE_def)
  let ?s1 = "s\<lparr>link := (link s)\<lparr>rd_sched := rs, rx := rest\<rparr>, packeBuf := packet grp sub ps\<rparr>"
  have c: "channel_read s = Some (True, 1044, ?s1)"
    using f l p by (simp add: channel_read_def PACKET_HEAD_SIZE_def PACKETSIZE_def)
  let ?n = "word_of_nat (length (payload ps)) :: u32"
  have "unat ?n = length (payload ps)"
    using assms(1) by (simp add: PACKETSIZE_def unat_of_nat take_bit_nat_eq_self)
  then have n: "\<not> 1044 < 20 + ?n"
    using assms(1) by (simp add: word_less_nat_alt unat_word_ariths PACKETSIZE_def)
  have h: "read_le32 0 (packet grp sub ps) = Some MAGICNUM" "read_le32 8 (packet grp sub ps) = Some grp"
    "read_le32 12 (packet grp sub ps) = Some sub" "read_le32 16 (packet grp sub ps) = Some ?n"
    unfolding packet_def by (rule token_at)+
  show ?thesis
  proof (cases "g = Idle")
    case True
    then show ?thesis using c h n r(1) assms(5) by (simp add: getPacket_def PACKET_HEAD_SIZE_def follows_def)
  next
    case False
    then have "s\<lparr>idxGrp := grp\<rparr> = s" using assms(5) by (cases s) (simp add: follows_def)
    then show ?thesis using c h n r(1) assms(5) False
      by (cases s) (auto simp: getPacket_def PACKET_HEAD_SIZE_def follows_def)
  qed
qed

lemma at_stage_io [simp]:
  "at_stage m0 pid (s\<lparr>idxGrp := x\<rparr>) g = at_stage m0 pid s g" "at_stage m0 pid (s\<lparr>idxSub := x\<rparr>) g = at_stage m0 pid s g"
  "at_stage m0 pid (s\<lparr>syncBusy := x\<rparr>) g = at_stage m0 pid s g"
  by (cases g; simp add: req_inv_def open_at_def)+

lemma at_stage_packeBuf:
  "length b = 1044 \<Longrightarrow> at_stage m0 pid s g \<Longrightarrow> at_stage m0 pid (s\<lparr>packeBuf := b\<rparr>) g"
  by (cases g) (auto simp: req_inv_def open_at_def sync_inv_def PACKET_HEAD_SIZE_def PACKETSIZE_def)

lemma at_stage_inv: "at_stage m0 pid s g \<Longrightarrow> sync_inv s"
  by (cases g) (simp_all add: req_inv_def)

lemma turn_ok:
  assumes "accept pid (committeds m0 ! slot m0 pid) g ps = Some g'" "at_stage m0 pid s g"
    "length (payload ps) \<le> PACKETSIZE" "rx (link s) = packet grp sub ps @ rest" "good_link (Suc k) (link s)"
    "follows s grp sub g" "case g of Finished _ _ \<Rightarrow> False | _ \<Rightarrow> True"
  shows "\<exists>s'. syncAnalyzer_turn s = Some (True, s') \<and> at_stage m0 pid s' g' \<and> rx (link s') = rest \<and> good_link k (link s') \<and>
    idxGrp s' = grp \<and> idxSub s' = sub \<and>
    (case g' of
       Finished _ _ \<Rightarrow> tx (link s') = tx (link s) @ packet_rsp (take PACKET_HEAD_SIZE (packet grp sub ps)) True
     | _ \<Rightarrow> syncBusy s' = 1)"
proof -
  let ?s = "s\<lparr>link := (link s)\<lparr>rd_sched := tl (rd_sched (link s)), rx := rest\<rparr>, packeBuf := packet grp sub ps,
        idxGrp := grp, idxSub := sub\<rparr>"
  let ?n = "word_of_nat (length (payload ps)) :: u32"
  have i: "sync_inv s" using at_stage_inv [OF assms(2)] .
  have g: "getPacket (0, 0) s = Some (if g = Idle then PACKET_START else PACKET_CONTINUE, (PACKET_HEAD_SIZE, ?n), ?s)"
    using getPacket_ok [OF assms(3-5) i assms(6)] .
  have l: "length (packet grp sub ps) = 1044" using length_packet [OF assms(3)] .
  have a: "at_stage m0 pid (?s\<lparr>syncBusy := 1\<rparr>) g" 
    using at_stage_packeBuf [OF l, of m0 pid "s\<lparr>link := (link s)\<lparr>rd_sched := tl (rd_sched (link s)), rx := rest\<rparr>\<rparr>" g] assms(2)
    by (simp del: at_stage.simps)
  have w: "wr_sched (link s) \<noteq> []" "36 \<le> hd (wr_sched (link s))"
    using assms(5) by (cases "wr_sched (link s)"; simp add: good_link_def)+
  then have wr: "writable (?s\<lparr>syncBusy := 1\<rparr>)" by (simp add: writable_def)
  have b: "buf_read PACKET_HEAD_SIZE (length (payload ps)) (packeBuf (?s\<lparr>syncBusy := 1\<rparr>)) = Some (payload ps)"
    using l by (simp add: buf_read_def packet_def PACKET_HEAD_SIZE_def)
  have n: "unat ?n = length (payload ps)"
    using assms(3) by (simp add: PACKETSIZE_def unat_of_nat take_bit_nat_eq_self)
  obtain s' where s': "sync_loop (PACKET_HEAD_SIZE, ?n) (?s\<lparr>syncBusy := 1\<rparr>) = Some s'" "at_stage m0 pid s' g'"
      "delivered (?s\<lparr>syncBusy := 1\<rparr>) s' g'"
    using loop_ok [OF assms(1) a wr b n assms(7)] by blast
  have t: "syncAnalyzer_turn s = Some (True, s')"
    using assms(6) s'(1) by (auto simp: syncAnalyzer_turn_def g follows_def)
  have "good_link k (link s')"
    using assms(5) s'(3) by (cases "rd_sched (link s)"; cases "wr_sched (link s)") (auto simp: delivered_def good_link_def)
  then show ?thesis using t s' by (auto simp: delivered_def split: stage.splits)
qed

lemma round_ok:
  assumes "accept pid (committeds m0 ! slot m0 pid) g ps = Some g'" "at_stage m0 pid s g"
    "length (payload ps) \<le> PACKETSIZE" "rx (link s) = packet grp sub ps @ rest" "good_link (Suc k) (link s)"
    "follows s grp sub g" "case g of Finished _ _ \<Rightarrow> False | _ \<Rightarrow> True"
  shows "\<exists>s'. server_round c s = Some s' \<and> at_stage m0 pid s' g' \<and> rx (link s') = rest \<and> good_link k (link s') \<and>
    idxGrp s' = grp \<and> idxSub s' = sub \<and>
    (case g' of
       Finished _ _ \<Rightarrow> tx (link s') = tx (link s) @ packet_rsp (take PACKET_HEAD_SIZE (packet grp sub ps)) True
     | _ \<Rightarrow> syncBusy s' = 1)"
  using turn_ok [OF assms] by (auto simp: server_round_def)

lemma accept_not_idle: "accept pid base g ps = Some g' \<Longrightarrow> ps \<noteq> [] \<or> g \<noteq> Idle \<Longrightarrow> g' \<noteq> Idle"
  by (induction pid base g ps rule: accept.induct) (auto split: if_splits)

lemma request_run:
  assumes "accept_all pid (committeds m0 ! slot m0 pid) g pks = Some (Finished img t)" "at_stage m0 pid s g" "pks \<noteq> []"
    "\<forall>ps \<in> set pks. ps \<noteq> [] \<and> length (payload ps) \<le> PACKETSIZE" "rx (link s) = packets grp sub pks @ rest"
    "good_link (length pks) (link s)" "follows s grp sub g"
  shows "\<exists>s' h pre. run_steps nv_step s (replicate (length pks) (Round c)) = Some s' \<and> at_stage m0 pid s' (Finished img t) \<and>
    rx (link s') = rest \<and> tx (link s') = pre @ packet_rsp h True"
  using assms
proof (induction pks arbitrary: g sub s)
  case (Cons ps pks)
  obtain g' where g': "accept pid (committeds m0 ! slot m0 pid) g ps = Some g'"
    "accept_all pid (committeds m0 ! slot m0 pid) g' pks = Some (Finished img t)"
    using Cons.prems(1) by (auto simp: bind_eq_Some_conv)
  have ps: "ps \<noteq> []" "length (payload ps) \<le> PACKETSIZE" using Cons.prems(4) by simp_all
  have nf: "case g of Finished _ _ \<Rightarrow> False | _ \<Rightarrow> True" using g'(1) ps(1) by (cases ps; cases g) auto
  have r: "rx (link s) = packet grp sub ps @ packets grp (sub + 1) pks @ rest" using Cons.prems(5) by simp
  obtain s1 where s1: "server_round c s = Some s1" "at_stage m0 pid s1 g'" "rx (link s1) = packets grp (sub + 1) pks @ rest"
      "good_link (length pks) (link s1)" "idxGrp s1 = grp" "idxSub s1 = sub"
      "case g' of Finished _ _ \<Rightarrow> tx (link s1) = tx (link s) @ packet_rsp (take PACKET_HEAD_SIZE (packet grp sub ps)) True
       | _ \<Rightarrow> syncBusy s1 = 1"
    using round_ok [OF g'(1) Cons.prems(2) ps(2) r _ Cons.prems(7) nf, of "length pks" c] Cons.prems(6) by auto
  show ?case
  proof (cases "pks = []")
    case True
    then show ?thesis using g'(2) s1 by auto
  next
    case False
    then obtain q qs pks' where q: "pks = (q # qs) # pks'" using Cons.prems(4) by (cases pks; cases "hd pks") auto
    have "\<not> (case g' of Finished _ _ \<Rightarrow> True | _ \<Rightarrow> False)" using g'(2) q by (cases g') auto
    then have "syncBusy s1 = 1" using s1(7) by (cases g') auto
    moreover have "g' \<noteq> Idle" using accept_not_idle [OF g'(1)] ps(1) by simp
    ultimately have "follows s1 grp (sub + 1) g'" using s1(5,6) by (simp add: follows_def)
    then show ?thesis using Cons.IH [OF g'(2) s1(2) False _ s1(3,4)] Cons.prems(4) s1(1) by simp
  qed
qed simp

section \<open>Properties of requests\<close>

text \<open>C6: A well-formed request for a known partition, sent in the packets of one group with its data
  split over them in any way, is applied: after as many rounds as it has packets the committed
  image is the one with its runs written in order, all other partitions are as before, the
  last response says success, and the daemon is ready for the next request.\<close>

theorem nv_request_applied:
  assumes "initBuf cfg False rnd junk d = Some m" and "run_steps nv_step (server_start m c0) es = Some s"
    and "syncState s = 0" and "syncBusy s = 0" and "is_cali_mode (mem s) = False" and "getCtlId pid (mem s) \<noteq> -1"
    and "accept_all pid (committeds (mem s) ! unat (getCtlId pid (mem s))) Idle pks = Some (Finished img t)"
    and "pks \<noteq> []" and "\<forall>ps \<in> set pks. ps \<noteq> [] \<and> length (payload ps) \<le> PACKETSIZE"
    and "rx (link s) = packets grp 0 pks @ rest" and "good_link (length pks) (link s)" and "idxGrp s \<noteq> grp"
  shows "\<exists>s' h pre. run_steps nv_step s (replicate (length pks) (Round c)) = Some s' \<and>
    committeds (mem s') = (committeds (mem s))[unat (getCtlId pid (mem s)) := img] \<and> syncState s' = 0 \<and>
    rx (link s') = rest \<and> tx (link s') = pre @ packet_rsp h True"
proof -
  have "sync_inv s" using nvd.inv_run [OF server_start_inv(1) [OF assms(1)] assms(2)] by (simp add: daemon_inv_def)
  then have "at_stage (mem s) pid s Idle" using assms(3,5,6) by (simp add: req_inv_def)
  moreover have "follows s grp 0 Idle" using assms(4,12) by (simp add: follows_def)
  ultimately show ?thesis
    using request_run [of pid "mem s" Idle pks img t s grp 0 rest c] assms(7-11) by (simp add: slot_def) blast
qed

text \<open>A request in two packets on a fresh pair of partitions.\<close>

definition w_cfg :: "RAM_NV_CONFIG list" where
  "w_cfg = ramDisk_Init ''/a1'' ''/a2'' 512 ''/b1'' ''/b2'' 512"

definition w_disk :: disk where
  "w_disk = demo_disk\<lparr>rd_out := replicate 12 2000, wr_out := replicate 12 2000\<rparr>"

definition w_part :: "u32 \<Rightarrow> RAMNV_PART_CTRL" where
  "w_part k = (let b = \<lparr>diskbuf = replicate 512 0xFF @ [0, 0, 0, 0], dirty = clean_table\<rparr>
               in \<lparr>part_id = k, sctNum = 1, fromChannel = b, backup = b, toDisk = b, fdhandle = k\<rparr>)"

definition w_mem :: nv_mem where
  "w_mem = \<lparr>parts = [w_part 1, w_part 2], ramdiskCfg = w_cfg, is_cali_mode = False, save_event = False, nvdisk = w_disk\<rparr>"

definition w_request :: "piece list list" where
  "w_request = [[Head 5 1, Body 6 0 1, Data (replicate 300 7)], [Data (replicate 212 7), Tail 7]]"

definition w_image :: bytes where
  "w_image = overlay 300 (replicate 212 7) (overlay 0 (replicate 300 7) (replicate 512 0xFF))"

definition w_link :: chan where
  "w_link = \<lparr>rx = packets 3 0 w_request, tx = [], rd_sched = [2000, 2000], wr_sched = [100, 100]\<rparr>"

lemma w_init: "initBuf w_cfg False (\<lambda>_. True) [0, 0, 0, 0] w_disk = Some w_mem"
proof -
  have r: "ramDisk_Read w_cfg True h 512 old w_disk = Some (True, replicate 512 0xFF, w_disk)" if "h = 1 \<or> h = 2" for h old
    using that by (auto simp: ramDisk_Read_def Let_def open_rd_def w_disk_def demo_disk_def w_cfg_def ramDisk_Init_def)
  have c: "w_cfg = [\<lparr>partId = 1, image_path = ''/a1'', imageBak_path = ''/a2'', image_size = 512\<rparr>,
      \<lparr>partId = 2, image_path = ''/b1'', imageBak_path = ''/b2'', image_size = 512\<rparr>] @ empty_config # replicate 13 empty_config"
    by (simp add: w_cfg_def ramDisk_Init_def RAMNV_NUM_def numeral_eq_Suc)
  have "initBuf_loop w_cfg (\<lambda>_. True) [0, 0, 0, 0] w_cfg w_disk [] = Some ([w_part 1, w_part 2], w_disk)"
    apply (subst (2) c)
    apply (simp add: r ramDisk_Open_def RAMNV_NUM_def empty_config_def w_part_def RAMNV_SECT_SIZE_def Let_def)
    done
  then show ?thesis by (simp add: initBuf_def w_mem_def)
qed

lemma w_committed: "committeds w_mem = [replicate 512 0xFF, replicate 512 0xFF]" "getCtlId 1 w_mem = 0"
  by (simp_all add: w_mem_def committeds_def w_part_def committed_def image_of_def image_bytes_def RAMNV_SECT_SIZE_def
      getCtlId_def Let_def)

lemma w_accept: "accept_all 1 (replicate 512 0xFF) Idle w_request = Some (Finished w_image True)"
  by (simp add: w_request_def RAMNV_SECT_SIZE_def w_image_def)

lemma w_sizes: "\<forall>ps \<in> set w_request. ps \<noteq> [] \<and> length (payload ps) \<le> PACKETSIZE"
  by (simp add: w_request_def PACKETSIZE_def)

lemma w_start:
  "syncState (server_start w_mem w_link) = 0" "syncBusy (server_start w_mem w_link) = 0" "mem (server_start w_mem w_link) = w_mem"
  "link (server_start w_mem w_link) = w_link" "idxGrp (server_start w_mem w_link) \<noteq> 3" "good_link 2 w_link" "length w_request = 2"
  by (simp_all add: server_start_def syncInit_def initPacket_def w_link_def good_link_def w_request_def)

lemma w_run:
  "\<exists>s. run_steps nv_step (server_start w_mem w_link) [Round w_link, Round w_link] = Some s \<and> syncState s = 0 \<and>
     committeds (mem s) = [w_image, replicate 512 0xFF]"
proof -
  have "at_stage w_mem 1 (server_start w_mem w_link) Idle"
    using server_start_inv(1) [OF w_init] w_start w_committed by (simp add: daemon_inv_def req_inv_def w_mem_def)
  moreover have "follows (server_start w_mem w_link) 3 0 Idle" using w_start by (simp add: follows_def)
  ultimately show ?thesis
    using request_run [of 1 w_mem Idle w_request w_image True "server_start w_mem w_link" 3 0 "[]" w_link] w_accept w_sizes w_start
      w_committed
    by (auto simp: slot_def w_request_def w_link_def numeral_2_eq_2)
qed

theorem nv_request_applied_witness:
  "\<exists>s' h pre. run_steps nv_step (server_start w_mem w_link) (replicate (length w_request) (Round w_link)) = Some s' \<and>
    committeds (mem s') = (committeds (mem (server_start w_mem w_link)))[unat (getCtlId 1 (mem (server_start w_mem w_link))) := w_image] \<and>
    syncState s' = 0 \<and> rx (link s') = [] \<and> tx (link s') = pre @ packet_rsp h True"
  by (rule nv_request_applied [OF w_init, where es = "[]" and ?c0.0 = w_link and grp = 3 and t = True and pks = w_request])
     (use w_start w_committed w_accept w_sizes in \<open>simp_all add: w_mem_def w_link_def, simp_all add: w_request_def\<close>)

text \<open>C4: From its start on, whatever packets arrive, however reads and writes fail, the pipe breaks and saves interleave, the
  daemon does to its images exactly what the abstract store does with the packets that arrived. There an image changes only
  by the tail of a request that was opened by a head for a known partition and numbered without a gap; it then becomes the image
  the request began with, overwritten by the data of its bodies. A request that ends otherwise (a wrong token or number, a new group, the
  end of the pipe) changes nothing. A run in which a body makes the daemon write outside of its buffers, which the code does not
  check, is undefined and not covered.\<close>

theorem nv_requests_are_transactions:
  assumes "initBuf cfg cali rnd junk d = Some m" and "run_steps nv_step (server_start m c) es = Some s"
  shows "abs_store s =
    foldl spec_step \<lparr>names = part_ids m, images = committeds m, request = NoRequest, engaged = False\<rparr> (arrivals (server_start m c) es)"
  using nv_run_spec [OF assms(2) server_start_inv(1) [OF assms(1)]] server_start_inv(2) [OF assms(1), of c] by simp

theorem nv_requests_are_transactions_witness:
  "\<exists>s. run_steps nv_step (server_start w_mem w_link) [Round w_link, Round w_link] = Some s \<and>
     abs_store s = foldl spec_step \<lparr>names = part_ids w_mem, images = committeds w_mem, request = NoRequest, engaged = False\<rparr>
       (arrivals (server_start w_mem w_link) [Round w_link, Round w_link]) \<and>
     committeds w_mem = [replicate 512 0xFF, replicate 512 0xFF] \<and> images (abs_store s) = [w_image, replicate 512 0xFF]"
proof -
  obtain s where s: "run_steps nv_step (server_start w_mem w_link) [Round w_link, Round w_link] = Some s"
    "committeds (mem s) = [w_image, replicate 512 0xFF]" using w_run by blast
  moreover have "images (abs_store s) = committeds (mem s)" by (simp add: abs_store_def)
  ultimately show ?thesis using nv_requests_are_transactions [OF w_init s(1)] w_committed(1) by simp
qed

text \<open>C15: Whenever no request is open the working copy of every partition equals the committed
  one, so the next request starts from committed data.\<close>

theorem nv_idle_buffers_agree:
  assumes "initBuf cfg cali rnd junk d = Some m" and "run_steps nv_step (server_start m c) es = Some s"
    and "syncState s = 0"
  shows "pendings (mem s) = committeds (mem s)"
proof -
  have "sync_inv s" using nvd.inv_run [OF server_start_inv(1) [OF assms(1)] assms(2)] by (simp add: daemon_inv_def)
  then show ?thesis using assms(3)
    by (intro nth_equalityI) (auto simp: sync_inv_def settled_def pendings_def committeds_def)
qed

theorem nv_idle_buffers_agree_witness:
  "\<exists>s. run_steps nv_step (server_start w_mem w_link) [Round w_link, Round w_link] = Some s \<and>
     pendings (mem s) = committeds (mem s)"
  using w_run nv_idle_buffers_agree [OF w_init] by blast

section \<open>From the request to the disk\<close>

lemma finished_saved:
  assumes "at_stage m0 pid s (Finished img True)"
    "usable (ramdiskCfg m0) (fdhandle (parts m0 ! slot m0 pid)) (image_bytes (parts m0 ! slot m0 pid)) (Suc (Suc k)) (nvdisk m0)"
  shows "\<exists>s'. save_step (slot m0 pid) s = Some s' \<and>
    (\<exists>d'. ramDisk_Read (ramdiskCfg m0) order (fdhandle (parts m0 ! slot m0 pid)) (image_bytes (parts m0 ! slot m0 pid)) old
       (nvdisk (mem s')) = Some (True, img, d'))"
proof -
  let ?i = "slot m0 pid"
  have r: "req_inv m0 pid s" "committeds (mem s) = (committeds m0)[?i := img]" "ifHasDirty (parts (mem s) ! ?i)" "sync_inv s"
    using assms(1) by (simp_all add: req_inv_def)
  have i: "?i < length (parts (mem s))" using slot_bound(1) [OF r(1)] .
  have s: "ramdiskCfg (mem s) = ramdiskCfg m0" "nvdisk (mem s) = nvdisk m0" "map setup_of (parts (mem s)) = map setup_of (parts m0)"
    using r(1) by (auto simp: req_inv_def same_setup_def)
  then have l: "length (parts m0) = length (parts (mem s))" by (metis length_map)
  then have "setup_of (parts (mem s) ! ?i) = setup_of (parts m0 ! ?i)" using s(3) i by (metis nth_map)
  then have e: "fdhandle (parts (mem s) ! ?i) = fdhandle (parts m0 ! ?i)" "image_bytes (parts (mem s) ! ?i) = image_bytes (parts m0 ! ?i)"
    by (simp_all add: setup_of_def image_bytes_def)
  have w: "wf_part (parts (mem s) ! ?i)" using r(4) i by (simp add: sync_inv_def wf_mem_def list_all_length)
  have c: "committed (parts (mem s) ! ?i) = img"
    using arg_cong [OF r(2), of "\<lambda>x. x ! ?i"] i l by (simp add: committeds_def)
  obtain p d where p: "save_part (ramdiskCfg m0) (parts (mem s) ! ?i) (nvdisk m0) = Some (p, d)"
      "holds (ramdiskCfg m0) (fdhandle (parts m0 ! ?i)) (image_bytes (parts m0 ! ?i)) img d"
      "usable (ramdiskCfg m0) (fdhandle (parts m0 ! ?i)) (image_bytes (parts m0 ! ?i)) (Suc k) d"
    using save_part_stored [OF w r(3), of "ramdiskCfg m0" "Suc k" "nvdisk m0"] assms(2) e c by auto
  then have "save_step ?i s = Some (s\<lparr>mem := (mem s)\<lparr>parts := (parts (mem s))[?i := p], nvdisk := d\<rparr>\<rparr>)"
    using i s by (simp add: save_step_def)
  then show ?thesis using ramdisk.load_stored [OF p(2,3)] by auto
qed

lemma request_saved:
  assumes "sync_inv s" "syncState s = 0" "syncBusy s = 0" "\<not> is_cali_mode (mem s)" "getCtlId pid (mem s) \<noteq> -1"
    "accept_all pid (committeds (mem s) ! slot (mem s) pid) Idle pks = Some (Finished img True)"
    "pks \<noteq> []" "\<forall>ps \<in> set pks. ps \<noteq> [] \<and> length (payload ps) \<le> PACKETSIZE"
    "rx (link s) = packets grp 0 pks @ rest" "good_link (length pks) (link s)" "idxGrp s \<noteq> grp"
    "usable (ramdiskCfg (mem s)) (fdhandle (parts (mem s) ! slot (mem s) pid))
       (image_bytes (parts (mem s) ! slot (mem s) pid)) (Suc (Suc k)) (nvdisk (mem s))"
  shows "\<exists>s'. run_steps nv_step s (replicate (length pks) (Round c) @ [SavePart (slot (mem s) pid)]) = Some s' \<and>
    (\<exists>d'. ramDisk_Read (ramdiskCfg (mem s)) order (fdhandle (parts (mem s) ! slot (mem s) pid))
       (image_bytes (parts (mem s) ! slot (mem s) pid)) old (nvdisk (mem s')) = Some (True, img, d'))"
proof -
  have "at_stage (mem s) pid s Idle" using assms(1,2,4,5) by (simp add: req_inv_def)
  moreover have "follows s grp 0 Idle" using assms(3,11) by (simp add: follows_def)
  ultimately obtain s1 where s1: "run_steps nv_step s (replicate (length pks) (Round c)) = Some s1"
      "at_stage (mem s) pid s1 (Finished img True)"
    using request_run [of pid "mem s" Idle pks img True s grp 0 rest c] assms(6-10) by blast
  show ?thesis using finished_saved [OF s1(2) assms(12), of order old] s1(1) by (auto simp: run_steps_append)
qed

section \<open>The end of a connection\<close>

lemma short_turn:
  assumes "sync_inv s" "length (rx (link s)) < 1044" "good_link (Suc k) (link s)"
  shows "\<exists>s'. syncAnalyzer_turn s = Some (False, s') \<and> committeds (mem s') = committeds (mem s) \<and>
    syncState s' = 0 \<and> syncBusy s' = 0 \<and> sync_inv s' \<and> tx (link s') = tx (link s)"
proof -
  obtain r rs where r: "rd_sched (link s) = r # rs" "1044 \<le> r"
    using assms(3) by (cases "rd_sched (link s)") (auto simp: good_link_def)
  let ?n = "length (rx (link s))"
  have "min (nat r) (min 1044 ?n) = ?n" using r(2) assms(2) by linarith
  then have f: "sys_read 1044 (link s) = Some (int ?n, rx (link s), (link s)\<lparr>rd_sched := rs, rx := []\<rparr>)"
    using r by (simp add: sys_read_def Let_def)
  have p: "length (packeBuf s) = 1044" using assms(1) by (simp add: sync_inv_def PACKET_HEAD_SIZE_def PACKETSIZE_def)
  let ?s1 = "s\<lparr>link := (link s)\<lparr>rd_sched := rs, rx := []\<rparr>, packeBuf := rx (link s) @ drop ?n (packeBuf s)\<rparr>"
  have "unat (word_of_int (int ?n) :: u32) = ?n" using assms(2) by (simp add: unat_of_nat take_bit_nat_eq_self)
  then have "(word_of_int (int ?n) :: u32) < 1044" using assms(2) by (simp add: word_less_nat_alt)
  then have c: "getPacket (0, 0) s = Some (PACKET_FAIL, (0, 0), ?s1)"
    using f by (simp add: getPacket_def channel_read_def PACKET_HEAD_SIZE_def PACKETSIZE_def)
  have i: "sync_inv ?s1" using assms(1,2) p by (simp add: sync_inv_def PACKET_HEAD_SIZE_def PACKETSIZE_def)
  have "\<exists>m. (if syncState s \<noteq> 0 then map_option (Pair True) (restoreData (sid s) (mem s)) else Some (True, mem s)) = Some (True, m) \<and>
      committeds m = committeds (mem s)"
  proof (cases "syncState s = 0")
    case False
    then have g: "get_part (sid s) (mem s) = Some (parts (mem s) ! unat (sid s))"
      using assms(1) by (intro get_part_nth) (simp add: sync_inv_def)
    have w: "wf_mem (mem s)" using assms(1) by (simp add: sync_inv_def)
    obtain m where "restoreData (sid s) (mem s) = Some m"
      using g restore_part_spec [OF wf_mem_nth [OF w g]] by (auto simp: restoreData_def)
    then show ?thesis using False restoreData_effect [OF _ w] by auto
  qed simp
  then obtain m where e: "(if syncState s \<noteq> 0 then map_option (Pair True) (restoreData (sid s) (mem s)) else Some (True, mem s)) =
      Some (True, m)" and m0: "committeds m = committeds (mem s)" by blast
  have "syncReset False ?s1 = Some (True, syncInit (?s1\<lparr>mem := m\<rparr>))"
    unfolding syncReset_def using e by (cases "syncState s = 0") auto
  note m = this m0
  have "sync_inv (syncInit (?s1\<lparr>mem := m\<rparr>))" using reset_fail_spec [OF m(1) i] by (simp add: becomes_def)
  then show ?thesis using c m by (simp add: syncAnalyzer_turn_def syncInit_def)
qed

text \<open>The committed images after a connection that ended in a stage of the request.\<close>

definition outcome :: "nv_mem \<Rightarrow> u32 \<Rightarrow> stage \<Rightarrow> bytes list" where
  "outcome m pid g = (case g of Finished img t \<Rightarrow> (committeds m)[slot m pid := img] | _ \<Rightarrow> committeds m)"

lemma at_stage_outcome: "at_stage m0 pid s g \<Longrightarrow> committeds (mem s) = outcome m0 pid g"
  by (cases g) (auto simp: outcome_def open_at_def)

lemma analyzer_run:
  assumes "accept_all pid (committeds m0 ! slot m0 pid) g pks = Some g'" "at_stage m0 pid s g"
    "\<forall>ps \<in> set pks. ps \<noteq> [] \<and> length (payload ps) \<le> PACKETSIZE" "rx (link s) = packets grp sub pks @ rest"
    "length rest < 1044" "good_link (Suc (length pks)) (link s)" "pks = [] \<or> follows s grp sub g"
  shows "\<exists>s'. syncAnalyzer s = Some s' \<and> committeds (mem s') = outcome m0 pid g' \<and> syncState s' = 0 \<and> syncBusy s' = 0 \<and> sync_inv s'"
  using assms
proof (induction pks arbitrary: g sub s)
  case Nil
  have "length (rx (link s)) < 1044" using Nil.prems(4,5) by simp
  then obtain s' where s': "syncAnalyzer_turn s = Some (False, s')" "committeds (mem s') = committeds (mem s)"
      "syncState s' = 0" "syncBusy s' = 0" "sync_inv s'"
    using short_turn [OF at_stage_inv [OF Nil.prems(2)] _ Nil.prems(6)] by auto
  have "syncAnalyzer s = Some s'" by (subst syncAnalyzer.simps) (simp add: s'(1))
  then show ?case using s' at_stage_outcome [OF Nil.prems(2)] Nil.prems(1) by simp
next
  case (Cons ps pks)
  obtain h where h: "accept pid (committeds m0 ! slot m0 pid) g ps = Some h"
    "accept_all pid (committeds m0 ! slot m0 pid) h pks = Some g'"
    using Cons.prems(1) by (auto simp: bind_eq_Some_conv)
  have ps: "ps \<noteq> []" "length (payload ps) \<le> PACKETSIZE" using Cons.prems(3) by simp_all
  have nf: "case g of Finished _ _ \<Rightarrow> False | _ \<Rightarrow> True" using h(1) ps(1) by (cases ps; cases g) auto
  have r: "rx (link s) = packet grp sub ps @ packets grp (sub + 1) pks @ rest" using Cons.prems(4) by simp
  have fo: "follows s grp sub g" using Cons.prems(7) by simp
  obtain s1 where s1: "syncAnalyzer_turn s = Some (True, s1)" "at_stage m0 pid s1 h" "rx (link s1) = packets grp (sub + 1) pks @ rest"
      "good_link (Suc (length pks)) (link s1)" "idxGrp s1 = grp" "idxSub s1 = sub"
      "case h of Finished _ _ \<Rightarrow> tx (link s1) = tx (link s) @ packet_rsp (take PACKET_HEAD_SIZE (packet grp sub ps)) True
       | _ \<Rightarrow> syncBusy s1 = 1"
    using turn_ok [OF h(1) Cons.prems(2) ps(2) r _ fo nf, of "Suc (length pks)"] Cons.prems(6) by auto
  have "pks = [] \<or> follows s1 grp (sub + 1) h"
  proof (cases "pks = []")
    case False
    then obtain q qs pks' where q: "pks = (q # qs) # pks'" using Cons.prems(3) by (cases pks; cases "hd pks") auto
    have "\<not> (case h of Finished _ _ \<Rightarrow> True | _ \<Rightarrow> False)" using h(2) q by (cases h) auto
    then have "syncBusy s1 = 1" using s1(7) by (cases h) auto
    moreover have "h \<noteq> Idle" using accept_not_idle [OF h(1)] ps(1) by simp
    ultimately show ?thesis using s1(5,6) by (simp add: follows_def)
  qed simp
  then obtain s' where s': "syncAnalyzer s1 = Some s'" "committeds (mem s') = outcome m0 pid g'" "syncState s' = 0" "syncBusy s' = 0" "sync_inv s'"
    using Cons.IH [OF h(2) s1(2) _ s1(3) Cons.prems(5) s1(4)] Cons.prems(3) by auto
  moreover have "syncAnalyzer s = syncAnalyzer s1" by (subst syncAnalyzer.simps) (simp add: s1(1))
  ultimately show ?case by auto
qed

text \<open>C13: The endless loop of \<open>syncAnalyzer\<close> is left when the pipe ends: after the packets of a
  request, complete or broken off, and a last read that is too short, it returns with the daemon idle,
  and the committed images are those of the complete request or those before a broken one.\<close>

theorem analyzer_returns:
  assumes "initBuf cfg False rnd junk d = Some m" and "run_steps nv_step (server_start m c0) es = Some s"
    and "syncState s = 0" and "syncBusy s = 0" and "is_cali_mode (mem s) = False" and "getCtlId pid (mem s) \<noteq> -1"
    and "accept_all pid (committeds (mem s) ! slot (mem s) pid) Idle pks = Some g"
    and "\<forall>ps \<in> set pks. ps \<noteq> [] \<and> length (payload ps) \<le> PACKETSIZE"
    and "rx (link s) = packets grp 0 pks @ rest" and "length rest < 1044"
    and "good_link (Suc (length pks)) (link s)" and "idxGrp s \<noteq> grp"
  shows "\<exists>s'. syncAnalyzer s = Some s' \<and> committeds (mem s') = outcome (mem s) pid g \<and> syncState s' = 0 \<and> syncBusy s' = 0"
proof -
  have "sync_inv s" using nvd.inv_run [OF server_start_inv(1) [OF assms(1)] assms(2)] by (simp add: daemon_inv_def)
  then have "at_stage (mem s) pid s Idle" using assms(3,5,6) by (simp add: req_inv_def)
  moreover have "follows s grp 0 Idle" using assms(4,12) by (simp add: follows_def)
  ultimately show ?thesis using analyzer_run [OF assms(7) _ assms(8-11)] by blast
qed

text \<open>The pipe of the request above with a third read, which meets its end after two bytes.\<close>

definition w_end :: chan where
  "w_end = \<lparr>rx = packets 3 0 w_request @ [1, 2], tx = [], rd_sched = [2000, 2000, 2000], wr_sched = [100, 100, 100]\<rparr>"

theorem analyzer_returns_witness:
  "\<exists>s'. syncAnalyzer (server_start w_mem w_end) = Some s' \<and> committeds (mem s') = outcome (mem (server_start w_mem w_end)) 1 (Finished w_image True) \<and>
     syncState s' = 0 \<and> syncBusy s' = 0"
proof (rule analyzer_returns [OF w_init, where es = "[]" and ?c0.0 = w_end and grp = 3 and pks = w_request])
  have m: "mem (server_start w_mem w_end) = w_mem" "link (server_start w_mem w_end) = w_end"
    by (simp_all add: server_start_def syncInit_def initPacket_def)
  show "accept_all 1 (committeds (mem (server_start w_mem w_end)) ! slot (mem (server_start w_mem w_end)) 1) Idle w_request = Some (Finished w_image True)"
    using w_accept w_committed m by (simp add: slot_def)
  show "is_cali_mode (mem (server_start w_mem w_end)) = False" "getCtlId 1 (mem (server_start w_mem w_end)) \<noteq> - 1"
    using m w_committed by (simp_all add: w_mem_def)
  show "rx (link (server_start w_mem w_end)) = packets 3 0 w_request @ [1, 2]" "good_link (Suc (length w_request)) (link (server_start w_mem w_end))"
    unfolding m by (simp_all add: w_end_def good_link_def w_request_def)
qed (use w_sizes in \<open>simp_all add: server_start_def syncInit_def initPacket_def\<close>)

end
