(* ===== verification/Nv_Server.thy ===== *)
theory Nv_Server
  imports Nv_Request C_Text
begin

text \<open>
  \<open>main\<close> of \<open>apps/nvitem/nvitem_server.c\<close>: the arguments and system properties from which the
  daemon builds the names and sizes of its files, and its start. \<open>prop\<close> is \<open>property_get\<close> with
  an empty default. A string that the code leaves uninitialised is \<open>None\<close>.
\<close>

definition PRODUCT_PARTITION_PATH :: string where "PRODUCT_PARTITION_PATH = ''ro.product.partitionpath''"
definition RO_MODEM_CHAR :: string where "RO_MODEM_CHAR = ''ro.modem.''"
definition RO_MODEM_FIXNVSIZE :: string where "RO_MODEM_FIXNVSIZE = ''.fixnv_size''"
definition RO_MODEM_RUNNVSIZE :: string where "RO_MODEM_RUNNVSIZE = ''.runnv_size''"
definition RO_MODEM_NV_PATH :: string where "RO_MODEM_NV_PATH = ''.nvp''"
definition NV_TAIL :: string where "NV_TAIL = ''.nv''"

record nv_setup =
  channel_path :: string
  fixnv_ori_path :: string
  fixnv_bak_path :: string
  fixnv_size :: u32
  runnv_ori_path :: string
  runnv_bak_path :: string
  runnv_size :: u32
  cali :: bool

text \<open>A name of a property: the modem's prefix and a suffix, in an array of 50 characters.\<close>

definition modem_prop :: "string \<Rightarrow> string \<Rightarrow> string option" where
  "modem_prop system_prop suffix =
     (if length system_prop + length suffix < 50 then Some (system_prop @ suffix) else None)"

text \<open>The two paths of a partition; they stay empty when they would not fit.\<close>

definition nv_path :: "string \<Rightarrow> string \<Rightarrow> string \<Rightarrow> string \<Rightarrow> string" where
  "nv_path partition_path path_char name i =
     (if length partition_path + length path_char + length (name @ ''1'') < 100
      then partition_path @ path_char @ name @ i else [])"

text \<open>\<open>main\<close> up to the call of \<open>initEvent\<close>. The inner \<open>None\<close> is the exit with the usage message.\<close>

definition main_setup :: "(string \<Rightarrow> string) \<Rightarrow> string list \<Rightarrow> nv_setup option option" where
  "main_setup prop argv =
     (if length argv \<noteq> 3 then Some None
      else do {
        system_prop \<leftarrow> (if length RO_MODEM_CHAR + length (argv ! 1) < 20 then Some (RO_MODEM_CHAR @ argv ! 1) else None);
        channel_char \<leftarrow> modem_prop system_prop NV_TAIL;
        fixnv_property \<leftarrow> modem_prop system_prop RO_MODEM_FIXNVSIZE;
        runnv_property \<leftarrow> modem_prop system_prop RO_MODEM_RUNNVSIZE;
        nvp \<leftarrow> modem_prop system_prop RO_MODEM_NV_PATH;
        (let partition_path = prop PRODUCT_PARTITION_PATH; path_char = prop nvp
         in Some (Some
              \<lparr>channel_path = prop channel_char,
               fixnv_ori_path = nv_path partition_path path_char ''fixnv'' ''1'',
               fixnv_bak_path = nv_path partition_path path_char ''fixnv'' ''2'',
               fixnv_size = word_of_int (strtol16 (prop fixnv_property)),
               runnv_ori_path = nv_path partition_path path_char ''runtimenv'' ''1'',
               runnv_bak_path = nv_path partition_path path_char ''runtimenv'' ''2'',
               runnv_size = word_of_int (strtol16 (prop runnv_property)),
               cali = ((word_of_int (atoi (argv ! 2)) :: u8) \<noteq> 0)\<rparr>)) })"

definition setup_config :: "nv_setup \<Rightarrow> RAM_NV_CONFIG list" where
  "setup_config u =
     ramDisk_Init (fixnv_ori_path u) (fixnv_bak_path u) (fixnv_size u)
       (runnv_ori_path u) (runnv_bak_path u) (runnv_size u)"

text \<open>The rest of \<open>main\<close> up to its loop; \<open>c\<close> is the first connection.\<close>

definition nv_main_start :: "nv_setup \<Rightarrow> (nat \<Rightarrow> bool) \<Rightarrow> bytes \<Rightarrow> disk \<Rightarrow> chan \<Rightarrow> nv_sync option" where
  "nv_main_start u rnd junk d c =
     do { m \<leftarrow> initBuf (setup_config u) (cali u) rnd junk d; Some (server_start m c) }"

lemma length_nv_path: "length i = 1 \<Longrightarrow> length (nv_path a b n i) < 100"
  by (simp add: nv_path_def)

lemma main_setup_paths:
  assumes "main_setup prop argv = Some (Some u)"
  shows "length (fixnv_ori_path u) < 100" "length (fixnv_bak_path u) < 100" "length (runnv_ori_path u) < 100"
    "length (runnv_bak_path u) < 100"
  using assms by (auto simp: main_setup_def bind_eq_Some_conv Let_def length_nv_path split: if_splits)

lemma setup_config_table:
  assumes "main_setup prop argv = Some (Some u)"
  shows "setup_config u =
    [\<lparr>partId = 1, image_path = fixnv_ori_path u, imageBak_path = fixnv_bak_path u, image_size = fixnv_size u\<rparr>,
     \<lparr>partId = 2, image_path = runnv_ori_path u, imageBak_path = runnv_bak_path u, image_size = runnv_size u\<rparr>] @
    replicate (RAMNV_NUM + 1 - 2) empty_config"
  using main_setup_paths [OF assms] by (simp add: setup_config_def ramDisk_Init_def)

section \<open>Properties of the start\<close>

text \<open>Whatever the properties hold, a daemon that starts has a table of the two partitions with
  all four paths inside their arrays, and these are the partitions its handles find.\<close>

theorem main_table_complete:
  assumes "main_setup prop argv = Some (Some u)"
  shows "getIdx (setup_config u) 1 = Some 0 \<and> getIdx (setup_config u) 2 = Some 1 \<and>
    (h \<noteq> 1 \<and> h \<noteq> 2 \<longrightarrow> getIdx (setup_config u) h = None) \<and> length (setup_config u) = RAMNV_NUM + 1 \<and>
    list_all (\<lambda>e. length (image_path e) < 100 \<and> length (imageBak_path e) < 100) (setup_config u)"
proof -
  have "replicate (RAMNV_NUM + 1 - 2) empty_config = empty_config # replicate (RAMNV_NUM - 2) empty_config"
    by (simp add: RAMNV_NUM_def numeral_eq_Suc)
  moreover have "list_all (\<lambda>e. length (image_path e) < 100 \<and> length (imageBak_path e) < 100)
      (replicate (RAMNV_NUM + 1 - 2) empty_config)"
    by (simp add: list_all_iff empty_config_def)
  ultimately show ?thesis using main_setup_paths [OF assms]
    by (auto simp: setup_config_table [OF assms] empty_config_def RAMNV_NUM_def)
qed

definition demo_prop :: "string \<Rightarrow> string" where
  "demo_prop k =
     (if k = ''ro.product.partitionpath'' then ''/dev/block/''
      else if k = ''ro.modem.t.nvp'' then ''td''
      else if k = ''ro.modem.t.fixnv_size'' then ''0x200''
      else if k = ''ro.modem.t.runnv_size'' then ''0x400'' else [])"

definition demo_setup :: nv_setup where
  "demo_setup = \<lparr>channel_path = [], fixnv_ori_path = ''/dev/block/tdfixnv1'', fixnv_bak_path = ''/dev/block/tdfixnv2'',
     fixnv_size = 0x200, runnv_ori_path = ''/dev/block/tdruntimenv1'', runnv_bak_path = ''/dev/block/tdruntimenv2'',
     runnv_size = 0x400, cali = False\<rparr>"

lemma demo_main: "main_setup demo_prop [''nvitemd'', ''t'', ''0''] = Some (Some demo_setup)"
  by (simp add: main_setup_def modem_prop_def demo_prop_def demo_setup_def nv_path_def strtol16_def atoi_def signed_part_def
      isspace_def skip_0x_def hex_digit_def isdigit_def clamp_long_def RO_MODEM_CHAR_def RO_MODEM_FIXNVSIZE_def
      RO_MODEM_RUNNVSIZE_def RO_MODEM_NV_PATH_def NV_TAIL_def PRODUCT_PARTITION_PATH_def)

theorem main_table_complete_witness:
  "getIdx (setup_config demo_setup) 1 = Some 0 \<and> getIdx (setup_config demo_setup) 7 = None"
  using main_table_complete [OF demo_main, of 7] by simp

end
