(* ===== verification/Cmr_Msg.thy ===== *)
theory Cmr_Msg
  imports Sprd_Prelude
begin

text \<open>
  \<open>libs/libcamera/sc8830/src/cmr_msg.c\<close>: the message queues of the camera threads, a ring of
  \<open>count\<close> cells with a mutex and a semaphore that counts the messages.

  A queue is the record \<open>cmr_msg_cxt\<close>; the pointers into the ring are indices. Each function is
  split where it enters and leaves the critical section, so that the functions compose from the
  same parts as the interleaved steps of several threads below. \<open>None\<close> is a call that blocks for
  ever or an access outside the ring.
\<close>

section \<open>State\<close>

record cmr_msg =
  msg_type :: u32
  sub_msg_type :: u32
  data :: u32
  alloc_flag :: u32

record cmr_msg_cxt =
  locked :: bool
  msg_sem :: nat
  msg_count :: u32
  msg_number :: u32
  msg_magic :: u32
  cells :: "cmr_msg list"
  msg_write :: nat
  msg_read :: nat

definition CMR_MSG_MAGIC_CODE :: u32 where "CMR_MSG_MAGIC_CODE = 0xEFFEA55A"
definition CMR_MSG_POLLING_PERIOD :: int where "CMR_MSG_POLLING_PERIOD = 200000000"

definition CMR_MSG_SUCCESS :: int where "CMR_MSG_SUCCESS = 0"
definition CMR_MSG_PARAM_ERR :: int where "CMR_MSG_PARAM_ERR = 1"
definition CMR_MSG_INVALID_HANDLE :: int where "CMR_MSG_INVALID_HANDLE = 2"
definition CMR_MSG_NO_OTHER_MSG :: int where "CMR_MSG_NO_OTHER_MSG = 3"
definition CMR_MSG_NO_MEM :: int where "CMR_MSG_NO_MEM = 4"
definition CMR_MSG_OVERFLOW :: int where "CMR_MSG_OVERFLOW = 5"
definition CMR_MSG_UNDERFLOW :: int where "CMR_MSG_UNDERFLOW = 6"

lemmas cmr_codes = CMR_MSG_SUCCESS_def CMR_MSG_PARAM_ERR_def CMR_MSG_INVALID_HANDLE_def CMR_MSG_NO_OTHER_MSG_def
  CMR_MSG_NO_MEM_def CMR_MSG_OVERFLOW_def CMR_MSG_UNDERFLOW_def

definition zero_msg :: cmr_msg where
  "zero_msg = \<lparr>msg_type = 0, sub_msg_type = 0, data = 0, alloc_flag = 0\<rparr>"

text \<open>A semaphore whose value is 0 blocks, a mutex that is held blocks.\<close>

definition sem_wait :: "cmr_msg_cxt \<Rightarrow> cmr_msg_cxt option" where
  "sem_wait q = (if msg_sem q = 0 then None else Some (q\<lparr>msg_sem := msg_sem q - 1\<rparr>))"

definition sem_post :: "cmr_msg_cxt \<Rightarrow> cmr_msg_cxt" where
  "sem_post q = q\<lparr>msg_sem := msg_sem q + 1\<rparr>"

definition mutex_lock :: "cmr_msg_cxt \<Rightarrow> cmr_msg_cxt option" where
  "mutex_lock q = (if locked q then None else Some (q\<lparr>locked := True\<rparr>))"

definition mutex_unlock :: "cmr_msg_cxt \<Rightarrow> cmr_msg_cxt" where
  "mutex_unlock q = q\<lparr>locked := False\<rparr>"

section \<open>Creation and destruction\<close>

text \<open>\<open>mem1\<close> and \<open>mem2\<close> say whether the two allocations succeed, \<open>junk\<close> what the new cells hold.
  The size of the ring in bytes is an unsigned product, a message has 16 bytes.\<close>

definition cmr_msg_queue_create ::
  "u32 \<Rightarrow> bool \<Rightarrow> bool \<Rightarrow> (nat \<Rightarrow> cmr_msg) \<Rightarrow> int \<times> cmr_msg_cxt option" where
  "cmr_msg_queue_create count mem1 mem2 junk =
     (if count = 0 then (- CMR_MSG_PARAM_ERR, None)
      else if \<not> mem1 then (- CMR_MSG_NO_MEM, None)
      else if \<not> mem2 then (- CMR_MSG_NO_MEM, None)
      else (CMR_MSG_SUCCESS,
            Some \<lparr>locked = False, msg_sem = 0, msg_count = count, msg_number = 0, msg_magic = CMR_MSG_MAGIC_CODE,
                  cells = map junk [0..<unat (count * 16) div 16], msg_write = 0, msg_read = 0\<rparr>))"

text \<open>A queue handle is 0 (\<open>None\<close>) or points to a queue. Destruction frees it.\<close>

definition cmr_msg_queue_destroy :: "cmr_msg_cxt option \<Rightarrow> int \<times> cmr_msg_cxt option" where
  "cmr_msg_queue_destroy h =
     (case h of
        None \<Rightarrow> (- CMR_MSG_PARAM_ERR, None)
      | Some q \<Rightarrow> if msg_magic q \<noteq> CMR_MSG_MAGIC_CODE then (CMR_MSG_INVALID_HANDLE, Some q)
                  else (CMR_MSG_SUCCESS, None))"

section \<open>The critical sections\<close>

text \<open>The index after \<open>i\<close>: back to the head behind the last cell.\<close>

definition ring_next :: "cmr_msg_cxt \<Rightarrow> nat \<Rightarrow> nat" where
  "ring_next q i = (if Suc i > unat (msg_count q) - 1 then 0 else Suc i)"

definition post_critical :: "cmr_msg \<Rightarrow> cmr_msg_cxt \<Rightarrow> (int \<times> cmr_msg_cxt) option" where
  "post_critical message q =
     do { q \<leftarrow> mutex_lock q;
          (if msg_number q + 1 \<ge> msg_count q then Some (CMR_MSG_OVERFLOW, mutex_unlock q)
           else if length (cells q) \<le> msg_write q then None
           else (let ori_node = msg_write q;
                     w = ring_next q (msg_write q);
                     w = (if w = msg_read q then ori_node else w)
                 in Some (CMR_MSG_SUCCESS,
                      mutex_unlock (q\<lparr>cells := (cells q)[ori_node := message], msg_write := w,
                                      msg_number := msg_number q + 1\<rparr>)))) }"

text \<open>The message is only assigned when one is taken out.\<close>

definition get_critical :: "cmr_msg \<Rightarrow> cmr_msg_cxt \<Rightarrow> (int \<times> cmr_msg \<times> cmr_msg_cxt) option" where
  "get_critical message q =
     do { q \<leftarrow> mutex_lock q;
          (if msg_number q = 0 then Some (CMR_MSG_UNDERFLOW, message, mutex_unlock q)
           else if msg_read q \<noteq> msg_write q
           then if length (cells q) \<le> msg_read q then None
                else Some (CMR_MSG_SUCCESS, cells q ! msg_read q,
                       mutex_unlock (q\<lparr>cells := (cells q)[msg_read q := zero_msg],
                                       msg_read := ring_next q (msg_read q), msg_number := msg_number q - 1\<rparr>))
           else Some (CMR_MSG_SUCCESS, message, mutex_unlock (q\<lparr>msg_number := msg_number q - 1\<rparr>))) }"

text \<open>\<open>cmr_msg_peak\<close> returns from its last branch with the mutex held.\<close>

definition peak_critical :: "cmr_msg \<Rightarrow> cmr_msg_cxt \<Rightarrow> (int \<times> cmr_msg \<times> cmr_msg_cxt) option" where
  "peak_critical message q =
     do { q \<leftarrow> mutex_lock q;
          (if msg_read q \<noteq> msg_write q
           then if length (cells q) \<le> msg_read q then None
                else Some (CMR_MSG_SUCCESS, cells q ! msg_read q,
                       mutex_unlock (q\<lparr>msg_read := ring_next q (msg_read q), msg_number := msg_number q - 1\<rparr>))
           else Some (- CMR_MSG_NO_OTHER_MSG, message, q)) }"

section \<open>The functions\<close>

text \<open>\<open>message\<close> is \<open>None\<close> for a null pointer, else what it points to.\<close>

definition cmr_msg_get ::
  "cmr_msg_cxt option \<Rightarrow> cmr_msg option \<Rightarrow> (int \<times> cmr_msg option \<times> cmr_msg_cxt option) option" where
  "cmr_msg_get h message =
     (case (h, message) of
        (Some q, Some m) \<Rightarrow>
          if msg_magic q \<noteq> CMR_MSG_MAGIC_CODE then Some (CMR_MSG_INVALID_HANDLE, message, h)
          else do { q \<leftarrow> sem_wait q; (r, m, q) \<leftarrow> get_critical m q; Some (r, Some m, Some q) }
      | _ \<Rightarrow> Some (- CMR_MSG_PARAM_ERR, message, h))"

text \<open>\<open>sec\<close> and \<open>nsec\<close> are the time of day; a wait that would block ends with the timeout.\<close>

definition cmr_msg_timedget ::
  "int \<Rightarrow> int \<Rightarrow> cmr_msg_cxt option \<Rightarrow> cmr_msg option \<Rightarrow> (int \<times> cmr_msg option \<times> cmr_msg_cxt option) option" where
  "cmr_msg_timedget sec nsec h message =
     (case (h, message) of
        (Some q, Some m) \<Rightarrow>
          if msg_magic q \<noteq> CMR_MSG_MAGIC_CODE then Some (CMR_MSG_INVALID_HANDLE, message, h)
          else if sec < 0 \<or> nsec < 0 \<or> nsec \<ge> 1000000000 then Some (- CMR_MSG_PARAM_ERR, message, h)
          else (case sem_wait q of
                  None \<Rightarrow> Some (CMR_MSG_NO_OTHER_MSG, message, h)
                | Some q \<Rightarrow> do { (r, m, q) \<leftarrow> get_critical m q; Some (r, Some m, Some q) })
      | _ \<Rightarrow> Some (- CMR_MSG_PARAM_ERR, message, h))"

text \<open>The deadline that \<open>cmr_msg_timedget\<close> passes to \<open>sem_timedwait\<close>.\<close>

definition timedget_deadline :: "int \<Rightarrow> int \<Rightarrow> int \<times> int" where
  "timedget_deadline sec nsec =
     (let nsec = nsec + CMR_MSG_POLLING_PERIOD
      in if nsec > 1000000000 then (sec + 1, nsec - 1000000000) else (sec, nsec))"

definition cmr_msg_post ::
  "cmr_msg_cxt option \<Rightarrow> cmr_msg option \<Rightarrow> (int \<times> cmr_msg_cxt option) option" where
  "cmr_msg_post h message =
     (case (h, message) of
        (Some q, Some m) \<Rightarrow>
          if msg_magic q \<noteq> CMR_MSG_MAGIC_CODE then Some (CMR_MSG_INVALID_HANDLE, h)
          else do { (r, q) \<leftarrow> post_critical m q;
                    Some (r, Some (if r = CMR_MSG_SUCCESS then sem_post q else q)) }
      | _ \<Rightarrow> Some (- CMR_MSG_PARAM_ERR, h))"

definition cmr_msg_peak ::
  "cmr_msg_cxt option \<Rightarrow> cmr_msg option \<Rightarrow> (int \<times> cmr_msg option \<times> cmr_msg_cxt option) option" where
  "cmr_msg_peak h message =
     (case (h, message) of
        (Some q, Some m) \<Rightarrow>
          if msg_magic q \<noteq> CMR_MSG_MAGIC_CODE then Some (CMR_MSG_INVALID_HANDLE, message, h)
          else (case sem_wait q of
                  None \<Rightarrow> Some (- CMR_MSG_NO_OTHER_MSG, message, h)
                | Some q \<Rightarrow> do { (r, m, q) \<leftarrow> peak_critical m q; Some (r, Some m, Some q) })
      | _ \<Rightarrow> Some (- CMR_MSG_PARAM_ERR, message, h))"

section \<open>The ring holds a queue\<close>

definition ring_inv :: "cmr_msg_cxt \<Rightarrow> bool" where
  "ring_inv q \<longleftrightarrow> \<not> locked q \<and> msg_magic q = CMR_MSG_MAGIC_CODE \<and> 0 < unat (msg_count q) \<and>
     length (cells q) = unat (msg_count q) \<and> msg_read q < unat (msg_count q) \<and>
     unat (msg_number q) < unat (msg_count q) \<and>
     msg_write q = (msg_read q + unat (msg_number q)) mod unat (msg_count q)"

text \<open>The messages in the order in which they will be taken.\<close>

definition contents :: "cmr_msg_cxt \<Rightarrow> cmr_msg list" where
  "contents q = map (\<lambda>i. cells q ! ((msg_read q + i) mod unat (msg_count q))) [0..<unat (msg_number q)]"

definition room :: "cmr_msg_cxt \<Rightarrow> bool" where
  "room q \<longleftrightarrow> length (contents q) + 1 < unat (msg_count q)"

lemma ring_next_mod: "i < unat (msg_count q) \<Longrightarrow> ring_next q i = Suc i mod unat (msg_count q)"
  by (auto simp: ring_next_def mod_Suc)

lemma length_contents [simp]: "length (contents q) = unat (msg_number q)"
  by (simp add: contents_def)

lemma mod_add_inj:
  assumes "(r + i) mod n = (r + j) mod n" "i < n" "j < (n :: nat)"
  shows "i = j"
  using mod_add_left_cancel_nat [OF assms(1)] assms(2,3) by simp

lemma unat_Suc_number:
  assumes "unat (k :: u32) + 1 < unat (n :: u32)"
  shows "unat (k + 1) = unat k + 1"
  using assms unsigned_less [of n, where 'a = nat] by (simp add: unat_word_ariths)

lemma post_critical_full:
  assumes "ring_inv q" "\<not> room q"
  shows "post_critical m q = Some (CMR_MSG_OVERFLOW, q)"
proof -
  have "unat (msg_number q) + 1 = unat (msg_count q)" using assms by (simp add: ring_inv_def room_def)
  moreover from this have "unat (msg_number q + 1) = unat (msg_count q)"
    using unsigned_less [of "msg_count q", where 'a = nat] by (simp add: unat_word_ariths)
  ultimately have "msg_count q \<le> msg_number q + 1" by (simp add: word_le_nat_alt)
  moreover have "q\<lparr>locked := False\<rparr> = q" using assms(1) by (cases q) (simp add: ring_inv_def)
  ultimately show ?thesis using assms(1) by (simp add: post_critical_def mutex_lock_def mutex_unlock_def ring_inv_def)
qed

lemma post_critical_room:
  assumes "ring_inv q" "room q"
  shows "\<exists>q'. post_critical m q = Some (CMR_MSG_SUCCESS, q') \<and> ring_inv q' \<and> contents q' = contents q @ [m] \<and>
    msg_sem q' = msg_sem q \<and> msg_count q' = msg_count q"
proof -
  let ?n = "unat (msg_count q)" and ?k = "unat (msg_number q)" and ?r = "msg_read q" and ?w = "msg_write q"
  have r: "?k + 1 < ?n" using assms(2) by (simp add: room_def)
  have i: "\<not> locked q" "0 < ?n" "length (cells q) = ?n" "?r < ?n" "?w = (?r + ?k) mod ?n"
    using assms(1) by (simp_all add: ring_inv_def)
  have w: "?w < ?n" using i by simp
  have k: "unat (msg_number q + 1) = ?k + 1" using unat_Suc_number [OF r] .
  have nf: "\<not> msg_count q \<le> msg_number q + 1" using r k by (simp add: word_le_nat_alt)
  have nx: "ring_next q ?w = (?r + (?k + 1)) mod ?n" using ring_next_mod [OF w] i(5) by (simp add: mod_Suc_eq)
  have ne: "ring_next q ?w \<noteq> ?r"
  proof
    assume "ring_next q ?w = ?r"
    then have "(?r + (?k + 1)) mod ?n = (?r + 0) mod ?n" using nx i(4) by simp
    then show False using mod_add_inj [of ?r "?k + 1" ?n 0] r by simp
  qed
  let ?q = "q\<lparr>locked := False, cells := (cells q)[?w := m], msg_write := ring_next q ?w, msg_number := msg_number q + 1\<rparr>"
  have ln: "ring_next (q\<lparr>locked := True\<rparr>) x = ring_next q x" for x by (simp add: ring_next_def)
  have "post_critical m q = Some (CMR_MSG_SUCCESS, ?q)"
    using i(1,3) w nf ne ln by (simp add: post_critical_def mutex_lock_def mutex_unlock_def Let_def)
  moreover have "ring_inv ?q" using assms(1) r k nx by (simp add: ring_inv_def)
  moreover have "contents ?q = contents q @ [m]"
  proof -
    have "(cells q)[?w := m] ! ((?r + j) mod ?n) = cells q ! ((?r + j) mod ?n)" if "j < ?k" for j
    proof -
      have "(?r + j) mod ?n \<noteq> ?w" using mod_add_inj [of ?r j ?n ?k] i(5) r that by auto
      then show ?thesis by simp
    qed
    moreover have "(cells q)[?w := m] ! ((?r + ?k) mod ?n) = m" using i(3,5) w by simp
    ultimately show ?thesis by (simp add: contents_def k)
  qed
  ultimately show ?thesis by simp
qed

text \<open>Taking the first message, with or without clearing its cell.\<close>

lemma take_first:
  assumes "ring_inv q" "contents q = m # ms" "length xs = unat (msg_count q)"
    "\<And>j. j < unat (msg_count q) \<Longrightarrow> j \<noteq> msg_read q \<Longrightarrow> xs ! j = cells q ! j"
  shows "cells q ! msg_read q = m" "msg_read q \<noteq> msg_write q" "0 < unat (msg_number q)" "msg_read q < length (cells q)"
    "ring_inv (q\<lparr>cells := xs, msg_read := ring_next q (msg_read q), msg_number := msg_number q - 1\<rparr>)"
    "contents (q\<lparr>cells := xs, msg_read := ring_next q (msg_read q), msg_number := msg_number q - 1\<rparr>) = ms"
proof -
  let ?n = "unat (msg_count q)" and ?k = "unat (msg_number q)" and ?r = "msg_read q" and ?w = "msg_write q"
  have i: "0 < ?n" "length (cells q) = ?n" "?r < ?n" "?k < ?n" "?w = (?r + ?k) mod ?n"
    using assms(1) by (simp_all add: ring_inv_def)
  show k: "0 < ?k" using assms(2) length_contents [of q] by simp
  show "?r < length (cells q)" using i by simp
  have h: "m # ms = map (\<lambda>i. cells q ! ((?r + i) mod ?n)) (0 # [1..<?k])"
    using assms(2) k by (simp add: contents_def upt_conv_Cons)
  then show "cells q ! ?r = m" using i(3) by simp
  show ne: "?r \<noteq> ?w"
  proof
    assume "?r = ?w"
    then have "(?r + ?k) mod ?n = (?r + 0) mod ?n" using i(3,5) by simp
    then show False using mod_add_inj [of ?r ?k ?n 0] i(1,4) k by simp
  qed
  have u: "unat (msg_number q - 1) = ?k - 1" using k by (subst unat_sub) (simp_all add: word_le_nat_alt)
  have nx: "ring_next q ?r = Suc ?r mod ?n" using ring_next_mod i(3) by simp
  have e: "(Suc ?r mod ?n + j) mod ?n = (?r + Suc j) mod ?n" for j by (simp add: mod_add_left_eq)
  show "ring_inv (q\<lparr>cells := xs, msg_read := ring_next q ?r, msg_number := msg_number q - 1\<rparr>)"
    using assms(1,3) i k u nx e [of "?k - 1"] by (simp add: ring_inv_def)
  have "xs ! ((?r + Suc j) mod ?n) = cells q ! ((?r + Suc j) mod ?n)" if "Suc j < ?k" for j
  proof (rule assms(4))
    show "(?r + Suc j) mod ?n \<noteq> ?r"
      using mod_add_inj [of ?r "Suc j" ?n 0] i(3,4) that by auto
  qed (use i(1) in simp)
  moreover have "ms = map (\<lambda>j. cells q ! ((?r + Suc j) mod ?n)) [0..<?k - 1]"
  proof -
    have "[1..<?k] = map Suc [0..<?k - 1]" using k by (simp add: map_Suc_upt)
    then show ?thesis using h by simp
  qed
  ultimately show "contents (q\<lparr>cells := xs, msg_read := ring_next q ?r, msg_number := msg_number q - 1\<rparr>) = ms"
    using u nx e by (simp add: contents_def)
qed

lemma get_critical_some:
  assumes "ring_inv q" "contents q = m # ms"
  shows "\<exists>q'. get_critical x q = Some (CMR_MSG_SUCCESS, m, q') \<and> ring_inv q' \<and> contents q' = ms \<and>
    msg_sem q' = msg_sem q \<and> msg_count q' = msg_count q"
proof -
  let ?xs = "(cells q)[msg_read q := zero_msg]"
  let ?q = "q\<lparr>cells := ?xs, msg_read := ring_next q (msg_read q), msg_number := msg_number q - 1\<rparr>"
  have l: "\<not> locked q" "length ?xs = unat (msg_count q)" using assms(1) by (simp_all add: ring_inv_def)
  note t = take_first [OF assms l(2)]
  have z: "msg_number q \<noteq> 0" using t(3) by (auto)
  have u: "?q\<lparr>locked := False\<rparr> = ?q" using l(1) by (cases q) simp
  have ln: "ring_next (q\<lparr>locked := True\<rparr>) y = ring_next q y" for y by (simp add: ring_next_def)
  have "get_critical x q = Some (CMR_MSG_SUCCESS, m, ?q)"
    using l(1) t(1,2,4) z u ln by (simp add: get_critical_def mutex_lock_def mutex_unlock_def)
  then show ?thesis using t(5,6) by simp
qed

lemma peak_critical_some:
  assumes "ring_inv q" "contents q = m # ms"
  shows "\<exists>q'. peak_critical x q = Some (CMR_MSG_SUCCESS, m, q') \<and> ring_inv q' \<and> contents q' = ms \<and>
    msg_sem q' = msg_sem q \<and> msg_count q' = msg_count q"
proof -
  let ?q = "q\<lparr>cells := cells q, msg_read := ring_next q (msg_read q), msg_number := msg_number q - 1\<rparr>"
  have l: "\<not> locked q" "length (cells q) = unat (msg_count q)" using assms(1) by (simp_all add: ring_inv_def)
  note t = take_first [OF assms l(2)]
  have u: "?q\<lparr>locked := False\<rparr> = ?q" using l(1) by (cases q) simp
  have ln: "ring_next (q\<lparr>locked := True\<rparr>) y = ring_next q y" for y by (simp add: ring_next_def)
  have "peak_critical x q = Some (CMR_MSG_SUCCESS, m, ?q)"
    using l(1) t(1,2,4) u ln by (simp add: peak_critical_def mutex_lock_def mutex_unlock_def)
  then show ?thesis using t(5,6) by simp
qed

section \<open>The contract of a bounded queue\<close>

text \<open>\<open>view\<close> is what a queue holds, \<open>keeps\<close> what its operations leave alone.\<close>

locale bounded_fifo =
  fixes put :: "'m \<Rightarrow> 'q \<Rightarrow> (int \<times> 'q) option" and fetch :: "'q \<Rightarrow> (int \<times> 'm \<times> 'q) option"
    and view :: "'q \<Rightarrow> 'm list" and good :: "'q \<Rightarrow> bool" and cap :: "'q \<Rightarrow> nat" and keeps :: "'q \<Rightarrow> 'f"
  assumes put_room: "good q \<Longrightarrow> length (view q) < cap q \<Longrightarrow>
      \<exists>q'. put m q = Some (CMR_MSG_SUCCESS, q') \<and> good q' \<and> view q' = view q @ [m] \<and> cap q' = cap q \<and> keeps q' = keeps q"
    and put_full: "good q \<Longrightarrow> \<not> length (view q) < cap q \<Longrightarrow> put m q = Some (CMR_MSG_OVERFLOW, q)"
    and fetch_first: "good q \<Longrightarrow> view q = m # ms \<Longrightarrow>
      \<exists>q'. fetch q = Some (CMR_MSG_SUCCESS, m, q') \<and> good q' \<and> view q' = ms \<and> cap q' = cap q \<and> keeps q' = keeps q"
begin

lemma put_cases:
  assumes "good q"
  shows "\<exists>r q'. put m q = Some (r, q') \<and> good q' \<and> cap q' = cap q \<and> keeps q' = keeps q \<and>
    (if length (view q) < cap q then r = CMR_MSG_SUCCESS \<and> view q' = view q @ [m]
     else r = CMR_MSG_OVERFLOW \<and> view q' = view q)"
  using assms put_room [of q m] put_full [of q m] by (cases "length (view q) < cap q") auto

lemma fetch_nonempty:
  assumes "good q" "view q \<noteq> []"
  shows "\<exists>q'. fetch q = Some (CMR_MSG_SUCCESS, hd (view q), q') \<and> good q' \<and> view q' = tl (view q) \<and> cap q' = cap q \<and>
    keeps q' = keeps q"
  using fetch_first [OF assms(1), of "hd (view q)" "tl (view q)"] assms(2) by simp

lemma first_in_first_out:
  assumes "good q" "view q = m # ms" "length (view q) < cap q"
  shows "\<exists>q1 q2. put x q = Some (CMR_MSG_SUCCESS, q1) \<and> fetch q1 = Some (CMR_MSG_SUCCESS, m, q2) \<and> good q2 \<and> view q2 = ms @ [x]"
proof -
  obtain q1 where q1: "put x q = Some (CMR_MSG_SUCCESS, q1)" "good q1" "view q1 = m # (ms @ [x])"
    using put_room [OF assms(1,3), of x] assms(2) by auto
  then show ?thesis using fetch_first [OF q1(2,3)] by auto
qed

end

definition capacity :: "cmr_msg_cxt \<Rightarrow> nat" where
  "capacity q = unat (msg_count q) - 1"

lemma room_capacity: "ring_inv q \<Longrightarrow> room q \<longleftrightarrow> length (contents q) < capacity q"
  by (auto simp: room_def capacity_def ring_inv_def)

interpretation ring: bounded_fifo post_critical "get_critical x" contents ring_inv capacity msg_sem for x
proof unfold_locales
  fix q m assume q: "ring_inv q" and l: "length (contents q) < capacity q"
  show "\<exists>q'. post_critical m q = Some (CMR_MSG_SUCCESS, q') \<and> ring_inv q' \<and> contents q' = contents q @ [m] \<and>
      capacity q' = capacity q \<and> msg_sem q' = msg_sem q"
    using post_critical_room [OF q] room_capacity [OF q] l by (fastforce simp: capacity_def)
next
  fix q m assume q: "ring_inv q" and l: "\<not> length (contents q) < capacity q"
  show "post_critical m q = Some (CMR_MSG_OVERFLOW, q)" using post_critical_full [OF q] room_capacity [OF q] l by blast
next
  fix q m ms assume "ring_inv q" "contents q = m # ms"
  then show "\<exists>q'. get_critical x q = Some (CMR_MSG_SUCCESS, m, q') \<and> ring_inv q' \<and> contents q' = ms \<and>
      capacity q' = capacity q \<and> msg_sem q' = msg_sem q"
    using get_critical_some [of q m ms x] by (fastforce simp: capacity_def)
qed

interpretation peak_ring: bounded_fifo post_critical "peak_critical x" contents ring_inv capacity msg_sem for x
proof unfold_locales
  fix q m ms assume "ring_inv q" "contents q = m # ms"
  then show "\<exists>q'. peak_critical x q = Some (CMR_MSG_SUCCESS, m, q') \<and> ring_inv q' \<and> contents q' = ms \<and>
      capacity q' = capacity q \<and> msg_sem q' = msg_sem q"
    using peak_critical_some [of q m ms x] by (fastforce simp: capacity_def)
qed (fact ring.put_room, fact ring.put_full)

section \<open>Threads\<close>

text \<open>Threads interleave between the semaphore and the critical sections: \<open>posting\<close> threads have left
  the critical section and not yet raised the semaphore, \<open>taking\<close> threads have passed the
  semaphore and not yet entered it. \<open>posted\<close> and \<open>got\<close> are the messages accepted and delivered,
  \<open>errors\<close> counts the critical sections that ended in an error other than an overflow. A step of
  a thread that is not there, or that waits, changes nothing.\<close>

record cmr_sys =
  queue :: cmr_msg_cxt
  posting :: nat
  taking :: nat
  posted :: "cmr_msg list"
  got :: "cmr_msg list"
  errors :: nat

datatype cmr_act = PostCS cmr_msg | PostSem | Wait | GetCS | PeakCS

definition deliver :: "cmr_sys \<Rightarrow> int \<times> cmr_msg \<times> cmr_msg_cxt \<Rightarrow> cmr_sys" where
  "deliver s res =
     (case res of (r, m, q) \<Rightarrow>
        if r = CMR_MSG_SUCCESS then s\<lparr>queue := q, taking := taking s - 1, got := got s @ [m]\<rparr>
        else s\<lparr>queue := q, taking := taking s - 1, errors := errors s + 1\<rparr>)"

fun cmr_step :: "cmr_sys \<Rightarrow> cmr_act \<Rightarrow> cmr_sys option" where
  "cmr_step s (PostCS m) =
     do { (r, q) \<leftarrow> post_critical m (queue s);
          Some (if r = CMR_MSG_SUCCESS then s\<lparr>queue := q, posting := posting s + 1, posted := posted s @ [m]\<rparr>
                else s\<lparr>queue := q\<rparr>) }"
| "cmr_step s PostSem =
     Some (if posting s = 0 then s else s\<lparr>queue := sem_post (queue s), posting := posting s - 1\<rparr>)"
| "cmr_step s Wait =
     (case sem_wait (queue s) of None \<Rightarrow> Some s | Some q \<Rightarrow> Some (s\<lparr>queue := q, taking := taking s + 1\<rparr>))"
| "cmr_step s GetCS =
     (if taking s = 0 then Some s else map_option (deliver s) (get_critical zero_msg (queue s)))"
| "cmr_step s PeakCS =
     (if taking s = 0 then Some s else map_option (deliver s) (peak_critical zero_msg (queue s)))"

definition cmr_start :: "cmr_msg_cxt \<Rightarrow> cmr_sys" where
  "cmr_start q = \<lparr>queue = q, posting = 0, taking = 0, posted = [], got = [], errors = 0\<rparr>"

definition sys_inv :: "cmr_sys \<Rightarrow> bool" where
  "sys_inv s \<longleftrightarrow> ring_inv (queue s) \<and> length (contents (queue s)) = msg_sem (queue s) + posting s + taking s \<and>
     posted s = got s @ contents (queue s) \<and> errors s = 0"

lemma sem_changes [simp]:
  "ring_inv (q\<lparr>msg_sem := k\<rparr>) = ring_inv q" "contents (q\<lparr>msg_sem := k\<rparr>) = contents q"
  by (simp_all add: ring_inv_def contents_def)

lemma deliver_inv:
  assumes "sys_inv s" "0 < taking s" "fetched = Some (CMR_MSG_SUCCESS, hd (contents (queue s)), q)" "ring_inv q"
    "contents q = tl (contents (queue s))" "msg_sem q = msg_sem (queue s)"
  shows "\<exists>s'. map_option (deliver s) fetched = Some s' \<and> sys_inv s'"
proof -
  have "contents (queue s) \<noteq> []" using assms(1,2) unfolding sys_inv_def by (metis add_is_0 length_0_conv not_gr0)
  then have "hd (contents (queue s)) # contents q = contents (queue s)"
    "length (contents (queue s)) = Suc (length (contents q))" using assms(5) by (simp_all del: length_contents)
  then show ?thesis using assms by (simp add: deliver_def sys_inv_def del: length_contents)
qed

lemma cmr_step_ok: "sys_inv s \<Longrightarrow> \<exists>s'. cmr_step s a = Some s' \<and> sys_inv s'"
proof (cases a)
  case (PostCS m)
  assume s: "sys_inv s"
  then obtain r q where "post_critical m (queue s) = Some (r, q)" "ring_inv q" "msg_sem q = msg_sem (queue s)"
    "(r = CMR_MSG_SUCCESS \<and> contents q = contents (queue s) @ [m]) \<or> (r = CMR_MSG_OVERFLOW \<and> contents q = contents (queue s))"
    using ring.put_cases [of "queue s" m] by (auto simp: sys_inv_def split: if_splits)
  then show ?thesis using s PostCS by (auto simp: sys_inv_def cmr_codes simp del: length_contents)
next
  case PostSem
  assume "sys_inv s"
  then show ?thesis using PostSem by (auto simp: sys_inv_def sem_post_def)
next
  case Wait
  assume "sys_inv s"
  then show ?thesis using Wait by (auto simp: sys_inv_def sem_wait_def split: option.splits)
next
  case GetCS
  assume s: "sys_inv s"
  show ?thesis
  proof (cases "taking s = 0")
    case False
    then have "contents (queue s) \<noteq> []" "ring_inv (queue s)" using s unfolding sys_inv_def by (metis add_is_0 length_0_conv, blast)
    then show ?thesis using ring.fetch_nonempty [of "queue s" zero_msg] deliver_inv [OF s] False GetCS by auto
  qed (use s GetCS in simp)
next
  case PeakCS
  assume s: "sys_inv s"
  show ?thesis
  proof (cases "taking s = 0")
    case False
    then have "contents (queue s) \<noteq> []" "ring_inv (queue s)" using s unfolding sys_inv_def by (metis add_is_0 length_0_conv, blast)
    then show ?thesis using peak_ring.fetch_nonempty [of "queue s" zero_msg] deliver_inv [OF s] False PeakCS by auto
  qed (use s PeakCS in simp)
qed

interpretation cmr: progress_machine cmr_step sys_inv
  by unfold_locales (metis cmr_step_ok option.inject, metis cmr_step_ok)

lemma create_inv:
  assumes "cmr_msg_queue_create count True True junk = (r, Some q)" "unat count < 2 ^ 28"
  shows "ring_inv q \<and> contents q = [] \<and> msg_sem q = 0 \<and> msg_count q = count"
proof -
  have c: "count \<noteq> 0" using assms(1) by (auto simp: cmr_msg_queue_create_def)
  have "unat (count * 16) = unat count * 16" using assms(2) by (simp add: unat_word_ariths)
  then show ?thesis using assms(1) c
    by (auto simp: cmr_msg_queue_create_def ring_inv_def contents_def unat_gt_0)
qed

section \<open>Properties of the message queues\<close>

text \<open>C18: Any number of threads that post, get and peak on a queue, in any interleaving of their
  critical sections and semaphore operations: no step leaves the ring or blocks on the mutex,
  the messages delivered are those accepted in the same order with the rest still queued, the
  queue holds fewer than \<open>count\<close> messages, and no reader that passed the semaphore finds the
  queue empty (so the branch of \<open>cmr_msg_peak\<close> that keeps the mutex is not reached).\<close>

theorem cmr_queue_fifo:
  assumes "cmr_msg_queue_create count True True junk = (r, Some q)" and "unat count < 2 ^ 28"
  shows "\<exists>s. run_steps cmr_step (cmr_start q) acts = Some s \<and> posted s = got s @ contents (queue s) \<and>
    length (contents (queue s)) < unat (msg_count (queue s)) \<and> errors s = 0 \<and> \<not> locked (queue s)"
proof -
  have "sys_inv (cmr_start q)" using create_inv [OF assms] length_contents [of q] by (simp add: sys_inv_def cmr_start_def)
  from cmr.run_defined [OF this, of acts] show ?thesis by (auto simp: sys_inv_def ring_inv_def)
qed

definition demo_msg :: "u32 \<Rightarrow> cmr_msg" where
  "demo_msg t = zero_msg\<lparr>msg_type := t\<rparr>"

definition demo_queue :: cmr_msg_cxt where
  "demo_queue = \<lparr>locked = False, msg_sem = 0, msg_count = 3, msg_number = 0, msg_magic = CMR_MSG_MAGIC_CODE,
     cells = [demo_msg 0, demo_msg 0, demo_msg 0], msg_write = 0, msg_read = 0\<rparr>"

lemma demo_create: "cmr_msg_queue_create 3 True True (\<lambda>_. demo_msg 0) = (CMR_MSG_SUCCESS, Some demo_queue)"
  by (simp add: cmr_msg_queue_create_def demo_queue_def upt_conv_Cons)

theorem cmr_queue_fifo_witness:
  "\<exists>s. run_steps cmr_step (cmr_start demo_queue)
       [PostCS (demo_msg 1), PostCS (demo_msg 2), PostSem, Wait, PostSem, PostCS (demo_msg 3), GetCS, Wait, PeakCS] = Some s \<and>
     posted s = got s @ contents (queue s) \<and>
    length (contents (queue s)) < unat (msg_count (queue s)) \<and> errors s = 0 \<and> \<not> locked (queue s)"
  by (rule cmr_queue_fifo [OF demo_create]) simp

text \<open>C23: The functions themselves on a queue whose semaphore counts its messages: a post is accepted
  while fewer than \<open>count - 1\<close> messages wait and otherwise returns \<open>CMR_MSG_OVERFLOW\<close> without a
  change; get, timed get and peak return the oldest message; on an empty queue get blocks, the
  timed get and peak report that there is none and leave the queue as it is.\<close>

theorem cmr_functions:
  assumes "ring_inv q" and "msg_sem q = length (contents q)" and "0 \<le> sec" and "0 \<le> nsec" and "nsec < 1000000000"
  shows "(if length (contents q) + 1 < unat (msg_count q)
          then \<exists>q'. cmr_msg_post (Some q) (Some m) = Some (CMR_MSG_SUCCESS, Some q') \<and> ring_inv q' \<and>
                 contents q' = contents q @ [m] \<and> msg_sem q' = length (contents q')
          else cmr_msg_post (Some q) (Some m) = Some (CMR_MSG_OVERFLOW, Some q)) \<and>
    (case contents q of
       [] \<Rightarrow> cmr_msg_get (Some q) (Some m) = None \<and>
             cmr_msg_timedget sec nsec (Some q) (Some m) = Some (CMR_MSG_NO_OTHER_MSG, Some m, Some q) \<and>
             cmr_msg_peak (Some q) (Some m) = Some (- CMR_MSG_NO_OTHER_MSG, Some m, Some q)
     | x # xs \<Rightarrow>
         \<exists>q1 q2. cmr_msg_get (Some q) (Some m) = Some (CMR_MSG_SUCCESS, Some x, Some q1) \<and>
           cmr_msg_timedget sec nsec (Some q) (Some m) = Some (CMR_MSG_SUCCESS, Some x, Some q1) \<and>
           cmr_msg_peak (Some q) (Some m) = Some (CMR_MSG_SUCCESS, Some x, Some q2) \<and>
           ring_inv q1 \<and> contents q1 = xs \<and> msg_sem q1 = length xs \<and>
           ring_inv q2 \<and> contents q2 = xs \<and> msg_sem q2 = length xs)"
proof
  have mg: "msg_magic q = CMR_MSG_MAGIC_CODE" using assms(1) by (simp add: ring_inv_def)
  have rc: "length (contents q) + 1 < unat (msg_count q) \<longleftrightarrow> length (contents q) < capacity q"
    using room_capacity [OF assms(1)] by (simp add: room_def)
  show "if length (contents q) + 1 < unat (msg_count q)
          then \<exists>q'. cmr_msg_post (Some q) (Some m) = Some (CMR_MSG_SUCCESS, Some q') \<and> ring_inv q' \<and>
                 contents q' = contents q @ [m] \<and> msg_sem q' = length (contents q')
          else cmr_msg_post (Some q) (Some m) = Some (CMR_MSG_OVERFLOW, Some q)"
  proof (cases "length (contents q) < capacity q")
    case True
    then obtain q' where q': "post_critical m q = Some (CMR_MSG_SUCCESS, q')" "ring_inv q'" "contents q' = contents q @ [m]"
        "msg_sem q' = msg_sem q" using ring.put_room [OF assms(1)] by blast
    have "cmr_msg_post (Some q) (Some m) = Some (CMR_MSG_SUCCESS, Some (sem_post q'))"
      using mg q'(1) by (simp add: cmr_msg_post_def)
    then show ?thesis using True rc q'(2-4) assms(2) by (auto simp: sem_post_def simp del: length_contents)
  next
    case False
    then show ?thesis using rc mg ring.put_full [OF assms(1) False] by (simp add: cmr_msg_post_def cmr_codes del: length_contents)
  qed
next
  have mg: "msg_magic q = CMR_MSG_MAGIC_CODE" using assms(1) by (simp add: ring_inv_def)
  show "case contents q of
       [] \<Rightarrow> cmr_msg_get (Some q) (Some m) = None \<and>
             cmr_msg_timedget sec nsec (Some q) (Some m) = Some (CMR_MSG_NO_OTHER_MSG, Some m, Some q) \<and>
             cmr_msg_peak (Some q) (Some m) = Some (- CMR_MSG_NO_OTHER_MSG, Some m, Some q)
     | x # xs \<Rightarrow>
         \<exists>q1 q2. cmr_msg_get (Some q) (Some m) = Some (CMR_MSG_SUCCESS, Some x, Some q1) \<and>
           cmr_msg_timedget sec nsec (Some q) (Some m) = Some (CMR_MSG_SUCCESS, Some x, Some q1) \<and>
           cmr_msg_peak (Some q) (Some m) = Some (CMR_MSG_SUCCESS, Some x, Some q2) \<and>
           ring_inv q1 \<and> contents q1 = xs \<and> msg_sem q1 = length xs \<and>
           ring_inv q2 \<and> contents q2 = xs \<and> msg_sem q2 = length xs"
  proof (cases "contents q")
    case Nil
    then show ?thesis using assms mg
      by (simp add: cmr_msg_get_def cmr_msg_timedget_def cmr_msg_peak_def sem_wait_def del: length_contents)
  next
    case (Cons x xs)
    let ?q = "q\<lparr>msg_sem := msg_sem q - 1\<rparr>"
    have w: "sem_wait q = Some ?q" "msg_sem q - 1 = length xs" using assms(2) Cons by (simp_all add: sem_wait_def del: length_contents)
    have c: "ring_inv ?q" "contents ?q = x # xs" using assms(1) Cons by simp_all
    obtain q1 where "get_critical m ?q = Some (CMR_MSG_SUCCESS, x, q1)" "ring_inv q1" "contents q1 = xs" "msg_sem q1 = msg_sem ?q"
      using ring.fetch_first [OF c, of m] by blast
    moreover obtain q2 where "peak_critical m ?q = Some (CMR_MSG_SUCCESS, x, q2)" "ring_inv q2" "contents q2 = xs" "msg_sem q2 = msg_sem ?q"
      using peak_ring.fetch_first [OF c, of m] by blast
    ultimately show ?thesis using Cons mg w assms(3-5)
      by (simp add: cmr_msg_get_def cmr_msg_timedget_def cmr_msg_peak_def)
  qed
qed

theorem cmr_functions_witness:
  "(\<exists>q'. cmr_msg_post (Some demo_queue) (Some (demo_msg 9)) = Some (CMR_MSG_SUCCESS, Some q') \<and> ring_inv q' \<and>
      contents q' = contents demo_queue @ [demo_msg 9] \<and> msg_sem q' = length (contents q')) \<and>
   cmr_msg_get (Some demo_queue) (Some (demo_msg 9)) = None"
proof -
  have i: "ring_inv demo_queue" "msg_sem demo_queue = length (contents demo_queue)" "contents demo_queue = []"
    "unat (msg_count demo_queue) = 3"
    by (simp_all add: ring_inv_def demo_queue_def contents_def)
  show ?thesis using cmr_functions [OF i(1,2), of 0 0 "demo_msg 9"] i(3,4) by simp
qed

end
