(* ===== verification/Dm_Md5.thy ===== *)
theory Dm_Md5
  imports Sprd_Prelude
begin

unbundle bit_operations_syntax

text \<open>
  The MD5 digest of \<open>libs/libdm/src/sprd_dm_md5_b64.c\<close>, used for the credentials of the device
  management client, and its agreement with RFC 1321.

  \<open>unsigned long\<close> has 32 bits on the target. A call of \<open>DMMD5Update\<close> handles fewer than
  $2^{32} - 64$ bytes, so that the index in its loop does not wrap around.
\<close>

section \<open>The transformation\<close>

definition S11 :: nat where "S11 = 7"
definition S12 :: nat where "S12 = 12"
definition S13 :: nat where "S13 = 17"
definition S14 :: nat where "S14 = 22"
definition S21 :: nat where "S21 = 5"
definition S22 :: nat where "S22 = 9"
definition S23 :: nat where "S23 = 14"
definition S24 :: nat where "S24 = 20"
definition S31 :: nat where "S31 = 4"
definition S32 :: nat where "S32 = 11"
definition S33 :: nat where "S33 = 16"
definition S34 :: nat where "S34 = 23"
definition S41 :: nat where "S41 = 6"
definition S42 :: nat where "S42 = 10"
definition S43 :: nat where "S43 = 15"
definition S44 :: nat where "S44 = 21"

lemmas md5_shifts = S11_def S12_def S13_def S14_def S21_def S22_def S23_def S24_def
  S31_def S32_def S33_def S34_def S41_def S42_def S43_def S44_def

definition F_md5 :: "u32 \<Rightarrow> u32 \<Rightarrow> u32 \<Rightarrow> u32" where
  "F_md5 x y z = z XOR (x AND (y XOR z))"

definition G_md5 :: "u32 \<Rightarrow> u32 \<Rightarrow> u32 \<Rightarrow> u32" where
  "G_md5 x y z = y XOR (z AND (y XOR x))"

definition H_md5 :: "u32 \<Rightarrow> u32 \<Rightarrow> u32 \<Rightarrow> u32" where
  "H_md5 x y z = x XOR y XOR z"

definition I_md5 :: "u32 \<Rightarrow> u32 \<Rightarrow> u32 \<Rightarrow> u32" where
  "I_md5 x y z = y XOR (x OR NOT z)"

definition ROTATE_LEFT :: "u32 \<Rightarrow> nat \<Rightarrow> u32" where
  "ROTATE_LEFT x n = push_bit n x OR drop_bit (32 - n) x"

type_synonym md5_state = "u32 \<times> u32 \<times> u32 \<times> u32"

text \<open>One of the macros \<open>FF\<close>, \<open>GG\<close>, \<open>HH\<close>, \<open>II\<close>. It changes the first register and the next
  operation has the registers shifted by one, so the result is given in that order.\<close>

definition md5_op :: "(u32 \<Rightarrow> u32 \<Rightarrow> u32 \<Rightarrow> u32) \<Rightarrow> u32 list \<Rightarrow> md5_state \<Rightarrow> nat \<times> nat \<times> u32 \<Rightarrow> md5_state" where
  "md5_op f x r row =
     (case (r, row) of ((a, b, c, d), (k, s, ac)) \<Rightarrow>
        (d, ROTATE_LEFT (a + (f b c d + x ! k + ac)) s + b, b, c))"

text \<open>The rounds: index of the word, shift, constant.\<close>

definition round1 :: "(nat \<times> nat \<times> u32) list" where
  "round1 =
     [(0, S11, 0xd76aa478), (1, S12, 0xe8c7b756), (2, S13, 0x242070db), (3, S14, 0xc1bdceee),
      (4, S11, 0xf57c0faf), (5, S12, 0x4787c62a), (6, S13, 0xa8304613), (7, S14, 0xfd469501),
      (8, S11, 0x698098d8), (9, S12, 0x8b44f7af), (10, S13, 0xffff5bb1), (11, S14, 0x895cd7be),
      (12, S11, 0x6b901122), (13, S12, 0xfd987193), (14, S13, 0xa679438e), (15, S14, 0x49b40821)]"

definition round2 :: "(nat \<times> nat \<times> u32) list" where
  "round2 =
     [(1, S21, 0xf61e2562), (6, S22, 0xc040b340), (11, S23, 0x265e5a51), (0, S24, 0xe9b6c7aa),
      (5, S21, 0xd62f105d), (10, S22, 0x2441453), (15, S23, 0xd8a1e681), (4, S24, 0xe7d3fbc8),
      (9, S21, 0x21e1cde6), (14, S22, 0xc33707d6), (3, S23, 0xf4d50d87), (8, S24, 0x455a14ed),
      (13, S21, 0xa9e3e905), (2, S22, 0xfcefa3f8), (7, S23, 0x676f02d9), (12, S24, 0x8d2a4c8a)]"

definition round3 :: "(nat \<times> nat \<times> u32) list" where
  "round3 =
     [(5, S31, 0xfffa3942), (8, S32, 0x8771f681), (11, S33, 0x6d9d6122), (14, S34, 0xfde5380c),
      (1, S31, 0xa4beea44), (4, S32, 0x4bdecfa9), (7, S33, 0xf6bb4b60), (10, S34, 0xbebfbc70),
      (13, S31, 0x289b7ec6), (0, S32, 0xeaa127fa), (3, S33, 0xd4ef3085), (6, S34, 0x4881d05),
      (9, S31, 0xd9d4d039), (12, S32, 0xe6db99e5), (15, S33, 0x1fa27cf8), (2, S34, 0xc4ac5665)]"

definition round4 :: "(nat \<times> nat \<times> u32) list" where
  "round4 =
     [(0, S41, 0xf4292244), (7, S42, 0x432aff97), (14, S43, 0xab9423a7), (5, S44, 0xfc93a039),
      (12, S41, 0x655b59c3), (3, S42, 0x8f0ccc92), (10, S43, 0xffeff47d), (1, S44, 0x85845dd1),
      (8, S41, 0x6fa87e4f), (15, S42, 0xfe2ce6e0), (6, S43, 0xa3014314), (13, S44, 0x4e0811a1),
      (4, S41, 0xf7537e82), (11, S42, 0xbd3af235), (2, S43, 0x2ad7d2bb), (9, S44, 0xeb86d391)]"

text \<open>The loops of \<open>DM_Decode\<close> and \<open>DM_Encode\<close>, which run for whole words.\<close>

fun DM_Decode :: "bytes \<Rightarrow> u32 list" where
  "DM_Decode (a # b # c # d # bs) = le32 a b c d # DM_Decode bs"
| "DM_Decode _ = []"

definition DM_Encode :: "u32 list \<Rightarrow> bytes" where
  "DM_Encode ws = concat (map to_le32 ws)"

definition add_state :: "md5_state \<Rightarrow> md5_state \<Rightarrow> md5_state" where
  "add_state s t = (case (s, t) of ((a, b, c, d), (a', b', c', d')) \<Rightarrow> (a + a', b + b', c + c', d + d'))"

definition DM_MD5Transform :: "md5_state \<Rightarrow> bytes \<Rightarrow> md5_state" where
  "DM_MD5Transform state block =
     (let x = DM_Decode block;
          r = foldl (md5_op F_md5 x) state round1;
          r = foldl (md5_op G_md5 x) r round2;
          r = foldl (md5_op H_md5 x) r round3;
          r = foldl (md5_op I_md5 x) r round4
      in add_state state r)"

section \<open>The context\<close>

record MD5_CTX =
  md5_state :: md5_state
  count0 :: u32
  count1 :: u32
  buffer :: bytes

definition PADDING :: bytes where
  "PADDING = 0x80 # replicate 63 0"

text \<open>The buffer is left as it is.\<close>

definition DMMD5Init :: "bytes \<Rightarrow> MD5_CTX" where
  "DMMD5Init junk =
     \<lparr>md5_state = (0x67452301, 0xefcdab89, 0x98badcfe, 0x10325476), count0 = 0, count1 = 0, buffer = junk\<rparr>"

text \<open>The loop over whole blocks of the input; it leaves less than a block.\<close>

function md5_blocks :: "md5_state \<Rightarrow> bytes \<Rightarrow> md5_state \<times> bytes" where
  "md5_blocks s bs =
     (if 64 \<le> length bs then md5_blocks (DM_MD5Transform s (take 64 bs)) (drop 64 bs) else (s, bs))"
  by pat_completeness auto
termination
  by (relation "measure (length \<circ> snd)") auto

declare md5_blocks.simps [simp del]

definition overwrite :: "nat \<Rightarrow> bytes \<Rightarrow> bytes \<Rightarrow> bytes" where
  "overwrite i d b = take i b @ d @ drop (i + length d) b"

definition DMMD5Update :: "MD5_CTX \<Rightarrow> bytes \<Rightarrow> MD5_CTX" where
  "DMMD5Update ctx input =
     (let inputLen = word_of_nat (length input) :: u32;
          index = unat (drop_bit 3 (count0 ctx) AND 0x3F);
          c0 = count0 ctx + push_bit 3 inputLen;
          c1 = (if c0 < push_bit 3 inputLen then count1 ctx + 1 else count1 ctx) + drop_bit 29 inputLen;
          partLen = 64 - index
      in if partLen \<le> length input
         then (let buf = overwrite index (take partLen input) (buffer ctx);
                   (s, rest) = md5_blocks (DM_MD5Transform (md5_state ctx) buf) (drop partLen input)
               in \<lparr>md5_state = s, count0 = c0, count1 = c1, buffer = overwrite 0 rest buf\<rparr>)
         else \<lparr>md5_state = md5_state ctx, count0 = c0, count1 = c1, buffer = overwrite index input (buffer ctx)\<rparr>)"

definition DMMD5Final :: "MD5_CTX \<Rightarrow> bytes" where
  "DMMD5Final ctx =
     (let bits = DM_Encode [count0 ctx, count1 ctx];
          index = unat (drop_bit 3 (count0 ctx) AND 0x3F);
          padLen = (if index < 56 then 56 - index else 120 - index);
          ctx = DMMD5Update ctx (take padLen PADDING);
          ctx = DMMD5Update ctx bits
      in (case md5_state ctx of (a, b, c, d) \<Rightarrow> DM_Encode [a, b, c, d]))"

text \<open>The credentials: the digest of the string takes its place, with a terminating 0. A string
  without end or an array of fewer than 17 bytes is overrun.\<close>

definition strlen :: "bytes \<Rightarrow> nat option" where
  "strlen b = (if 0 \<in> set b then Some (length (takeWhile (\<lambda>x. x \<noteq> 0) b)) else None)"

definition mmidm_calc_md5_cred :: "bytes \<Rightarrow> bytes \<Rightarrow> bytes option" where
  "mmidm_calc_md5_cred junk creddata =
     do { n \<leftarrow> strlen creddata;
          buf_write 0 (DMMD5Final (DMMD5Update (DMMD5Init junk) (take n creddata)) @ [0]) creddata }"

section \<open>RFC 1321\<close>

text \<open>The algorithm as the standard describes it: functions with conditional bits, 64 uniform steps
  whose word index and shift follow from the step number, rotation, padding to whole blocks.
  The additive constants \<open>rfc_const i\<close> are the integer parts of \<open>2 ^ 32 * \<bar>sin (i + 1)\<bar>\<close>.\<close>

definition rfc_init :: md5_state where
  "rfc_init = (0x67452301, 0xefcdab89, 0x98badcfe, 0x10325476)"

definition rfc_f :: "nat \<Rightarrow> u32 \<Rightarrow> u32 \<Rightarrow> u32 \<Rightarrow> u32" where
  "rfc_f i x y z =
     (if i < 16 then (x AND y) OR (NOT x AND z)
      else if i < 32 then (x AND z) OR (y AND NOT z)
      else if i < 48 then x XOR y XOR z
      else y XOR (x OR NOT z))"

definition rfc_index :: "nat \<Rightarrow> nat" where
  "rfc_index i =
     (if i < 16 then i
      else if i < 32 then (5 * i + 1) mod 16
      else if i < 48 then (3 * i + 5) mod 16
      else (7 * i) mod 16)"

definition rfc_shift :: "nat \<Rightarrow> nat" where
  "rfc_shift i = [[7, 12, 17, 22], [5, 9, 14, 20], [4, 11, 16, 23], [6, 10, 15, 21]] ! (i div 16) ! (i mod 4)"

definition rfc_const :: "nat \<Rightarrow> u32" where
  "rfc_const i =
     [0xd76aa478, 0xe8c7b756, 0x242070db, 0xc1bdceee, 0xf57c0faf, 0x4787c62a, 0xa8304613, 0xfd469501,
      0x698098d8, 0x8b44f7af, 0xffff5bb1, 0x895cd7be, 0x6b901122, 0xfd987193, 0xa679438e, 0x49b40821,
      0xf61e2562, 0xc040b340, 0x265e5a51, 0xe9b6c7aa, 0xd62f105d, 0x02441453, 0xd8a1e681, 0xe7d3fbc8,
      0x21e1cde6, 0xc33707d6, 0xf4d50d87, 0x455a14ed, 0xa9e3e905, 0xfcefa3f8, 0x676f02d9, 0x8d2a4c8a,
      0xfffa3942, 0x8771f681, 0x6d9d6122, 0xfde5380c, 0xa4beea44, 0x4bdecfa9, 0xf6bb4b60, 0xbebfbc70,
      0x289b7ec6, 0xeaa127fa, 0xd4ef3085, 0x04881d05, 0xd9d4d039, 0xe6db99e5, 0x1fa27cf8, 0xc4ac5665,
      0xf4292244, 0x432aff97, 0xab9423a7, 0xfc93a039, 0x655b59c3, 0x8f0ccc92, 0xffeff47d, 0x85845dd1,
      0x6fa87e4f, 0xfe2ce6e0, 0xa3014314, 0x4e0811a1, 0xf7537e82, 0xbd3af235, 0x2ad7d2bb, 0xeb86d391] ! i"

definition rfc_words :: "bytes \<Rightarrow> u32 list" where
  "rfc_words block =
     map (\<lambda>k. le32 (block ! (4 * k)) (block ! (4 * k + 1)) (block ! (4 * k + 2)) (block ! (4 * k + 3))) [0..<16]"

definition rfc_step :: "u32 list \<Rightarrow> md5_state \<Rightarrow> nat \<Rightarrow> md5_state" where
  "rfc_step x r i =
     (case r of (a, b, c, d) \<Rightarrow>
        (d, b + word_rotl (rfc_shift i) (a + rfc_f i b c d + x ! rfc_index i + rfc_const i), b, c))"

definition rfc_block :: "md5_state \<Rightarrow> bytes \<Rightarrow> md5_state" where
  "rfc_block s block =
     (case (s, foldl (rfc_step (rfc_words block)) s [0..<64]) of
        ((a, b, c, d), (a', b', c', d')) \<Rightarrow> (a + a', b + b', c + c', d + d'))"

definition blocks64 :: "bytes \<Rightarrow> bytes list" where
  "blocks64 bs = map (\<lambda>k. take 64 (drop (64 * k) bs)) [0..<length bs div 64]"

definition rfc_pad :: "bytes \<Rightarrow> bytes" where
  "rfc_pad m = m @ 0x80 # replicate ((119 - length m mod 64) mod 64) 0 @
     map (\<lambda>k. word_of_nat ((8 * length m) div 256 ^ k)) [0..<8]"

definition md5_digest :: "md5_state \<Rightarrow> bytes" where
  "md5_digest s = (case s of (a, b, c, d) \<Rightarrow> to_le32 a @ to_le32 b @ to_le32 c @ to_le32 d)"

definition rfc_md5 :: "bytes \<Rightarrow> bytes" where
  "rfc_md5 m = md5_digest (foldl rfc_block rfc_init (blocks64 (rfc_pad m)))"

subsection \<open>The transformation is that of the standard\<close>

lemma ROTATE_LEFT_rotl:
  assumes "0 < n" "n < 32"
  shows "ROTATE_LEFT x n = word_rotl n x"
proof (rule bit_word_eqI)
  fix j assume "j < LENGTH(32)"
  then have j: "j < 32" by simp
  show "bit (ROTATE_LEFT x n) j = bit (word_rotl n x) j"
  proof (cases "n \<le> j")
    case True
    then have "(j + 32 - n) mod 32 = j - n" using j by (simp add: mod_if)
    moreover have "\<not> bit x (32 - n + j)" using True assms bit_imp_le_length [of x "32 - n + j"] by auto
    ultimately show ?thesis using True j assms by (simp add: ROTATE_LEFT_def bit_simps bit_word_rotl_iff)
  next
    case False
    then have "(j + 32 - n) mod 32 = 32 - n + j" using j assms by simp
    then show ?thesis using False j assms by (simp add: ROTATE_LEFT_def bit_simps bit_word_rotl_iff)
  qed
qed

lemma md5_functions:
  "F_md5 x y z = (x AND y) OR (NOT x AND z)" "G_md5 x y z = (x AND z) OR (y AND NOT z)"
  unfolding F_md5_def G_md5_def by (rule bit_word_eqI; auto simp: bit_simps)+

definition rfc_row :: "nat \<Rightarrow> nat \<times> nat \<times> u32" where
  "rfc_row i = (rfc_index i, rfc_shift i, rfc_const i)"

lemma rows_are_rfc:
  "round1 = map rfc_row [0..<16]" "round2 = map rfc_row [16..<32]" "round3 = map rfc_row [32..<48]"
  "round4 = map rfc_row [48..<64]"
  by (simp_all add: upt_rec_numeral upt_conv_Cons rfc_row_def rfc_index_def rfc_shift_def rfc_const_def round1_def round2_def
      round3_def round4_def md5_shifts)

lemma rfc_shift_bounds: "i < 64 \<Longrightarrow> 0 < rfc_shift i \<and> rfc_shift i < 32"
proof -
  assume "i < 64"
  then have "i \<in> set [0..<64]" by simp
  moreover have "list_all (\<lambda>i. 0 < rfc_shift i \<and> rfc_shift i < 32) [0..<64]"
    by (simp add: upt_conv_Cons rfc_shift_def)
  ultimately show ?thesis unfolding list_all_iff by blast
qed

lemma md5_op_rfc:
  assumes "i < 64" "\<And>x y z. f x y z = rfc_f i x y z"
  shows "md5_op f x r (rfc_row i) = rfc_step x r i"
  using rfc_shift_bounds [OF assms(1)]
  by (cases r) (simp add: md5_op_def rfc_row_def rfc_step_def assms(2) ROTATE_LEFT_rotl ac_simps)

lemma round_rfc:
  assumes "n \<le> 64" "\<And>i x y z. m \<le> i \<Longrightarrow> i < n \<Longrightarrow> f x y z = rfc_f i x y z"
  shows "foldl (md5_op f x) r (map rfc_row [m..<n]) = foldl (rfc_step x) r [m..<n]"
  unfolding foldl_map by (rule foldl_cong) (use assms md5_op_rfc in auto)

lemma DM_Decode_nth:
  "4 * n \<le> length bs \<Longrightarrow>
   DM_Decode (take (4 * n) bs) =
     map (\<lambda>k. le32 (bs ! (4 * k)) (bs ! (4 * k + 1)) (bs ! (4 * k + 2)) (bs ! (4 * k + 3))) [0..<n]"
proof (induction n arbitrary: bs)
  case (Suc n)
  then have "4 \<le> length bs" by simp
  then obtain a b c d r where bs: "bs = a # b # c # d # r"
    by (auto simp: eval_nat_numeral Suc_le_length_iff)
  then have "4 * n \<le> length r" using Suc.prems by simp
  then have "DM_Decode (take (4 * n) r) =
      map (\<lambda>k. le32 (r ! (4 * k)) (r ! (4 * k + 1)) (r ! (4 * k + 2)) (r ! (4 * k + 3))) [0..<n]" by (rule Suc.IH)
  moreover have "4 * Suc n = Suc (Suc (Suc (Suc (4 * n))))" by simp
  then have "take (4 * Suc n) bs = a # b # c # d # take (4 * n) r" using bs by (metis take_Suc_Cons)
  moreover have "[0..<Suc n] = 0 # map Suc [0..<n]" by (simp add: map_Suc_upt upt_conv_Cons)
  ultimately show ?case using bs by (simp add: nth_Cons' comp_def add.commute)
qed simp

lemma DM_Decode_rfc: "length block = 64 \<Longrightarrow> DM_Decode block = rfc_words block"
  using DM_Decode_nth [of 16 block] by (simp add: rfc_words_def)

lemma transform_rfc: "length block = 64 \<Longrightarrow> DM_MD5Transform s block = rfc_block s block"
proof -
  assume d: "length block = 64"
  have c: "[i..<k] = [i..<j] @ [j..<k]" if "i \<le> j" "j \<le> k" for i j k :: nat
    using upt_add_eq_append [of i j "k - j"] that by simp
  have "[0..<64] = [0..<16] @ [16..<32] @ [32..<48] @ [48..<64]"
    by (rule trans [OF c [of 0 16 64]], simp, simp, rule arg_cong [where f = "(@) [0..<16]"],
        rule trans [OF c [of 16 32 64]], simp, simp, rule arg_cong [where f = "(@) [16..<32]"], rule c, simp, simp)
  moreover have "foldl (md5_op F_md5 x) r (map rfc_row [0..<16]) = foldl (rfc_step x) r [0..<16]" for x r
    by (rule round_rfc) (simp_all add: rfc_f_def md5_functions)
  moreover have "foldl (md5_op G_md5 x) r (map rfc_row [16..<32]) = foldl (rfc_step x) r [16..<32]" for x r
    by (rule round_rfc) (simp_all add: rfc_f_def md5_functions)
  moreover have "foldl (md5_op H_md5 x) r (map rfc_row [32..<48]) = foldl (rfc_step x) r [32..<48]" for x r
    by (rule round_rfc) (simp_all add: rfc_f_def H_md5_def)
  moreover have "foldl (md5_op I_md5 x) r (map rfc_row [48..<64]) = foldl (rfc_step x) r [48..<64]" for x r
    by (rule round_rfc) (simp_all add: rfc_f_def I_md5_def)
  ultimately show ?thesis
    unfolding DM_MD5Transform_def rfc_block_def Let_def rows_are_rfc add_state_def DM_Decode_rfc [OF d]
    by (simp split: prod.split)
qed

section \<open>Messages in pieces\<close>

lemma md5_blocks_append:
  "md5_blocks s m = (s1, r) \<Longrightarrow> md5_blocks s (m @ x) = md5_blocks s1 (r @ x)"
proof (induction s m rule: md5_blocks.induct)
  case (1 s m)
  show ?case
  proof (cases "64 \<le> length m")
    case True
    then have "md5_blocks (DM_MD5Transform s (take 64 m)) (drop 64 m) = (s1, r)"
      using "1.prems" by (subst (asm) md5_blocks.simps) simp
    then show ?thesis using "1.IH" [OF True] True by (subst md5_blocks.simps) simp
  next
    case False
    then show ?thesis using "1.prems" by (subst (asm) md5_blocks.simps) simp
  qed
qed

lemma md5_blocks_rest: "length (snd (md5_blocks s m)) = length m mod 64"
proof (induction s m rule: md5_blocks.induct)
  case (1 s m)
  then show ?case by (subst md5_blocks.simps) (simp add: le_mod_geq)
qed

lemma blocks64_step: "64 \<le> length bs \<Longrightarrow> blocks64 bs = take 64 bs # blocks64 (drop 64 bs)"
proof -
  assume l: "64 \<le> length bs"
  then have "length bs div 64 = Suc ((length bs - 64) div 64)" by (simp add: le_div_geq)
  then have "[0..<length bs div 64] = 0 # map Suc [0..<(length bs - 64) div 64]" by (simp add: upt_conv_Cons map_Suc_upt)
  then show ?thesis by (simp add: blocks64_def add.commute)
qed

lemma md5_blocks_foldl: "fst (md5_blocks s bs) = foldl rfc_block s (blocks64 bs)"
proof (induction s bs rule: md5_blocks.induct)
  case (1 s bs)
  show ?case
  proof (cases "64 \<le> length bs")
    case True
    show ?thesis unfolding blocks64_step [OF True] using "1.IH" [OF True] True
      by (subst md5_blocks.simps) (simp add: transform_rfc)
  next
    case False
    then show ?thesis by (subst md5_blocks.simps) (simp add: blocks64_def)
  qed
qed

subsection \<open>The bit count\<close>

lemma two_digits: "x < B \<Longrightarrow> x + B * (y mod B) = (x + B * y) mod (B * B)" for x y B :: nat
  by (simp add: mod_mult2_eq)

lemma add_digits:
  fixes a b c h B T :: nat
  assumes "a < B" "b < B" "a + B * c = T mod (B * B)"
  shows "(a + b) mod B + B * ((c + (if (a + b) mod B < b then 1 else 0) + h) mod B) = (T + (b + B * h)) mod (B * B)"
proof -
  have "0 < B" using assms(1) by simp
  have "(a + b) mod B + B * ((c + (if (a + b) mod B < b then 1 else 0) + h) mod B)
      = ((a + b) mod B + B * (c + (if (a + b) mod B < b then 1 else 0) + h)) mod (B * B)"
    by (rule two_digits) (simp add: \<open>0 < B\<close>)
  also have "(a + b) mod B + B * (c + (if (a + b) mod B < b then 1 else 0) + h) = a + B * c + (b + B * h)"
  proof (cases "a + b < B")
    case True
    then show ?thesis by (simp add: algebra_simps)
  next
    case False
    then have "(a + b) mod B = a + b - B" using assms(1,2) by (simp add: mod_if)
    then show ?thesis using assms(1,2) False by (simp add: algebra_simps)
  qed
  also have "(a + B * c + (b + B * h)) mod (B * B) = (T + (b + B * h)) mod (B * B)"
    by (metis assms(3) mod_add_left_eq)
  finally show ?thesis .
qed

definition bit_count :: "MD5_CTX \<Rightarrow> nat" where
  "bit_count ctx = unat (count0 ctx) + 2 ^ 32 * unat (count1 ctx)"

lemma count_step:
  assumes "unat c0 + 2 ^ 32 * unat c1 = T mod 2 ^ 64" "n < 2 ^ 32" "l = (word_of_nat n :: u32)"
  shows "unat (c0 + push_bit 3 l) +
      2 ^ 32 * unat ((if c0 + push_bit 3 l < push_bit 3 l then c1 + 1 else c1) + drop_bit 29 l) = (T + 8 * n) mod 2 ^ 64"
proof -
  define B :: nat where "B = 2 ^ 32"
  have l: "unat l = n" using assms(2,3) by (simp add: unat_of_nat take_bit_nat_eq_self)
  have b: "unat (push_bit 3 l) = 8 * n mod B"
    by (simp add: B_def push_bit_eq_mult unat_word_ariths l mult.commute)
  have h: "unat (drop_bit 29 l) = n div 2 ^ 29" 
    using trans [OF unat_drop_bit_eq drop_bit_eq_div] l by metis
  have e: "8 * n mod B + B * (n div 2 ^ 29) = 8 * n"
  proof -
    have "8 * n div B = n div 2 ^ 29" using div_mult2_eq [of "8 * n" 8 "2 ^ 29"] by (simp add: B_def)
    then show ?thesis using mod_mult_div_eq [of "8 * n" B] by simp
  qed
  have s: "unat (c0 + push_bit 3 l) = (unat c0 + 8 * n mod B) mod B"
    using b by (simp add: unat_word_ariths B_def)
  have BB: "(2::nat) ^ 64 = B * B" by (simp add: B_def)
  have a: "unat c0 < B" "8 * n mod B < B" "unat c0 + B * unat c1 = T mod (B * B)"
    using unsigned_less [of c0, where 'a = nat] assms(1) by (simp_all add: B_def)
  define k :: u32 where "k = (if c0 + push_bit 3 l < push_bit 3 l then 1 else 0)"
  have k: "unat k = (if (unat c0 + 8 * n mod B) mod B < 8 * n mod B then 1 else 0)"
    unfolding k_def word_less_nat_alt s b by simp
  have "(if c0 + push_bit 3 l < push_bit 3 l then c1 + 1 else c1) + drop_bit 29 l = c1 + k + drop_bit 29 l"
    unfolding k_def by simp
  moreover have "unat (c1 + k + drop_bit 29 l) = (unat c1 + unat k + unat (drop_bit 29 l)) mod B"
    by (simp only: unat_word_ariths B_def mod_add_left_eq) simp
  ultimately have "unat ((if c0 + push_bit 3 l < push_bit 3 l then c1 + 1 else c1) + drop_bit 29 l)
      = (unat c1 + (if (unat c0 + 8 * n mod B) mod B < 8 * n mod B then 1 else 0) + n div 2 ^ 29) mod B"
    by (simp only: k h)
  then show ?thesis unfolding s BB B_def [symmetric] using add_digits [OF a, of "n div 2 ^ 29"] unfolding e by (simp only:)
qed

lemma index_of_count:
  assumes "unat c0 + 2 ^ 32 * unat c1 = (8 * L) mod 2 ^ 64"
  shows "unat (drop_bit 3 (c0 :: u32) AND 0x3F) = L mod 64"
proof -
  have "(8 * L) mod 2 ^ 64 mod 2 ^ 32 = unat c0"
    unfolding assms [symmetric] using unsigned_less [of c0, where 'a = nat] by simp
  then have "unat c0 = (8 * L) mod 2 ^ 32" by (simp add: mod_mod_cancel)
  then have "unat c0 = 8 * (L mod 2 ^ 29)" using mult_mod_right [of 8 L "2 ^ 29"] by simp
  then have "unat (drop_bit 3 c0) = L mod 2 ^ 29" 
    using trans [OF unat_drop_bit_eq [of 3 c0] drop_bit_eq_div] by simp
  moreover have "drop_bit 3 c0 AND 0x3F = take_bit 6 (drop_bit 3 c0)" by (simp add: take_bit_eq_mask mask_eq_exp_minus_1)
  ultimately have "unat (drop_bit 3 c0 AND 0x3F) = L mod 2 ^ 29 mod 2 ^ 6" by (simp add: unat_mod take_bit_eq_mod)
  then show ?thesis by (simp add: mod_mod_cancel)
qed

subsection \<open>A context stands for the message so far\<close>

definition md5_rep :: "MD5_CTX \<Rightarrow> bytes \<Rightarrow> bool" where
  "md5_rep ctx m \<longleftrightarrow> length (buffer ctx) = 64 \<and>
     md5_blocks rfc_init m = (md5_state ctx, take (length m mod 64) (buffer ctx)) \<and>
     bit_count ctx = (8 * length m) mod 2 ^ 64"

lemma DMMD5Init_rep: "length junk = 64 \<Longrightarrow> md5_rep (DMMD5Init junk) []"
  by (simp add: md5_rep_def DMMD5Init_def rfc_init_def bit_count_def md5_blocks.simps)

lemma length_overwrite: "i + length d \<le> length b \<Longrightarrow> length (overwrite i d b) = length b"
  by (simp add: overwrite_def)

lemma overwrite_front:
  "length d \<le> length b \<Longrightarrow> length (overwrite 0 d b) = length b \<and> take (length d) (overwrite 0 d b) = d"
  by (simp add: overwrite_def)

lemma DMMD5Update_rep:
  assumes "md5_rep ctx m" "length x < 2 ^ 32 - 64"
  shows "md5_rep (DMMD5Update ctx x) (m @ x)"
proof -
  define i where "i = length m mod 64"
  define r where "r = take i (buffer ctx)"
  define ctx' where "ctx' = DMMD5Update ctx x"
  have b: "length (buffer ctx) = 64" "md5_blocks rfc_init m = (md5_state ctx, r)" "bit_count ctx = (8 * length m) mod 2 ^ 64"
    using assms(1) by (simp_all add: md5_rep_def r_def i_def)
  have i: "i < 64" "length r = i" using b(1) by (simp_all add: i_def r_def)
  have ix: "unat (drop_bit 3 (count0 ctx) AND 0x3F) = i"
    using index_of_count b(3) unfolding bit_count_def i_def by blast
  let ?l = "word_of_nat (length x) :: u32"
  have "count0 ctx' = count0 ctx + push_bit 3 ?l"
    "count1 ctx' = (if count0 ctx + push_bit 3 ?l < push_bit 3 ?l then count1 ctx + 1 else count1 ctx) + drop_bit 29 ?l"
    unfolding ctx'_def DMMD5Update_def Let_def by (cases "64 - unat (drop_bit 3 (count0 ctx) AND 0x3F) \<le> length x"; simp split: prod.split)+
  then have cnt: "bit_count ctx' = (8 * length (m @ x)) mod 2 ^ 64"
    using count_step [OF b(3) [unfolded bit_count_def], of "length x", OF _ refl] assms(2)
    unfolding bit_count_def by (simp only: length_append add_mult_distrib2)
  have app: "md5_blocks rfc_init (m @ x) = md5_blocks (md5_state ctx) (r @ x)" using md5_blocks_append [OF b(2)] .
  have fin: "length (buffer ctx') = 64 \<and> (\<exists>y. md5_blocks (md5_state ctx) (r @ x) = (md5_state ctx', y) \<and>
      take (length y) (buffer ctx') = y)"
  proof (cases "64 - i \<le> length x")
    case True
    let ?buf = "overwrite i (take (64 - i) x) (buffer ctx)"
    have buf: "?buf = r @ take (64 - i) x" "length ?buf = 64" using b(1) i True by (simp_all add: overwrite_def r_def)
    obtain s y where y: "md5_blocks (DM_MD5Transform (md5_state ctx) ?buf) (drop (64 - i) x) = (s, y)" by (cases "md5_blocks (DM_MD5Transform (md5_state ctx) ?buf) (drop (64 - i) x)")
    have "length y < 64" using md5_blocks_rest [of "DM_MD5Transform (md5_state ctx) ?buf" "drop (64 - i) x"] y by simp
    moreover have "md5_state ctx' = s" "buffer ctx' = overwrite 0 y ?buf"
      using ix True y by (simp_all add: ctx'_def DMMD5Update_def Let_def)
    moreover have "64 \<le> i + length x" using True by linarith
    then have "md5_blocks (md5_state ctx) (r @ x) = (s, y)"
      using y buf(1) i by (subst md5_blocks.simps) simp
    ultimately show ?thesis using buf(2) overwrite_front [of y ?buf] by simp
  next
    case False
    then have l: "\<not> 64 \<le> i + length x" by linarith
    then have "md5_blocks (md5_state ctx) (r @ x) = (md5_state ctx, r @ x)" using i by (subst md5_blocks.simps) simp
    moreover have "md5_state ctx' = md5_state ctx" "buffer ctx' = overwrite i x (buffer ctx)"
      using ix False by (simp_all add: ctx'_def DMMD5Update_def Let_def)
    moreover have "overwrite i x (buffer ctx) = r @ x @ drop (i + length x) (buffer ctx)" by (simp add: overwrite_def r_def)
    ultimately show ?thesis using b(1) i l by simp
  qed
  then obtain y where y: "md5_blocks (md5_state ctx) (r @ x) = (md5_state ctx', y)" "take (length y) (buffer ctx') = y" by blast
  have "length y = length (m @ x) mod 64" using md5_blocks_rest [of rfc_init "m @ x"] app y(1) by simp
  then show ?thesis using fin y app cnt by (simp add: md5_rep_def ctx'_def)
qed

lemma foldl_update_rep:
  "md5_rep ctx m \<Longrightarrow> list_all (\<lambda>x. length x < 2 ^ 32 - 64) xs \<Longrightarrow> md5_rep (foldl DMMD5Update ctx xs) (m @ concat xs)"
  by (induction xs arbitrary: ctx m) (use DMMD5Update_rep in fastforce)+

lemma length_bytes:
  assumes "unat c0 + 2 ^ 32 * unat c1 = T mod 2 ^ 64"
  shows "DM_Encode [c0, c1] = map (\<lambda>k. word_of_nat (T div 256 ^ k)) [0..<8]"
proof -
  have 0: "unat c0 = T mod 2 ^ 32"
  proof -
    have "T mod 2 ^ 64 mod 2 ^ 32 = unat c0"
      unfolding assms [symmetric] using unsigned_less [of c0, where 'a = nat] by simp
    then show ?thesis by (simp add: mod_mod_cancel)
  qed
  then have w0: "c0 = word_of_nat T" by (simp add: word_unat_eq_iff unat_of_nat take_bit_eq_mod)
  have "unat c1 = T mod 2 ^ 64 div 2 ^ 32"
    unfolding assms [symmetric] using unsigned_less [of c0, where 'a = nat] by simp
  also have "\<dots> = drop_bit 32 (take_bit 64 T)" by (simp only: drop_bit_eq_div take_bit_eq_mod)
  also have "\<dots> = take_bit 32 (drop_bit 32 T)" by (simp add: drop_bit_take_bit)
  finally have w1: "c1 = word_of_nat (drop_bit 32 T)" by (simp add: word_unat_eq_iff unat_of_nat take_bit_eq_mod)
  have byte: "(ucast (drop_bit a (word_of_nat n :: u32)) :: u8) = word_of_nat (drop_bit a n)" if "a + 8 \<le> 32" for a n
    by (rule bit_word_eqI) (use that in \<open>auto simp: bit_simps\<close>)
  have p: "T div 256 ^ k = drop_bit (8 * k) T" for k
    by (simp add: drop_bit_eq_div power_mult)
  have e: "[0..<8] = [0, 1, 2, 3, 4, 5, 6, 7::nat]" by (simp add: upt_conv_Cons)
  show ?thesis
    unfolding DM_Encode_def w0 w1 e p using byte [of 0] byte [of 8] byte [of 16] byte [of 24]
    by (simp add: to_le32_def)
qed

lemma DMMD5Final_rep:
  assumes "md5_rep ctx m"
  shows "DMMD5Final ctx = rfc_md5 m"
proof -
  define j where "j = length m mod 64"
  define p where "p = (if j < 56 then 56 - j else 120 - j)"
  have j0: "j < 64" by (simp add: j_def)
  then have j: "j < 64" "0 < p" "p \<le> 64" by (auto simp: p_def)
  have ix: "unat (drop_bit 3 (count0 ctx) AND 0x3F) = j"
    using index_of_count assms unfolding md5_rep_def bit_count_def j_def by blast
  have pad: "take p PADDING = 0x80 # replicate ((119 - j) mod 64) 0"
  proof -
    have "(119 - j) mod 64 = p - 1" using j(1) by (simp add: p_def mod_if)
    then show ?thesis using j by (simp add: PADDING_def take_Cons' )
  qed
  have bits: "DM_Encode [count0 ctx, count1 ctx] = map (\<lambda>k. word_of_nat ((8 * length m) div 256 ^ k)) [0..<8]"
    using length_bytes assms by (simp add: md5_rep_def bit_count_def)
  let ?c = "DMMD5Update (DMMD5Update ctx (take p PADDING)) (DM_Encode [count0 ctx, count1 ctx])"
  have "md5_rep (DMMD5Update ctx (take p PADDING)) (m @ take p PADDING)"
    by (rule DMMD5Update_rep [OF assms]) (simp add: PADDING_def)
  then have "md5_rep ?c ((m @ take p PADDING) @ DM_Encode [count0 ctx, count1 ctx])"
    by (rule DMMD5Update_rep) (simp add: DM_Encode_def)
  moreover have "(m @ take p PADDING) @ DM_Encode [count0 ctx, count1 ctx] = rfc_pad m"
    unfolding bits pad rfc_pad_def j_def by simp
  ultimately have "md5_state ?c = foldl rfc_block rfc_init (blocks64 (rfc_pad m))"
    using md5_blocks_foldl [of rfc_init "rfc_pad m"] by (simp add: md5_rep_def)
  then show ?thesis using ix by (simp add: DMMD5Final_def Let_def p_def rfc_md5_def md5_digest_def DM_Encode_def split: prod.split)
qed

section \<open>Properties of the digest\<close>

text \<open>C9: The digest of a message that is fed in pieces of any size is the MD5 digest of RFC 1321 of
  the whole message, whatever the context held before.\<close>

theorem md5_matches_rfc:
  assumes "length junk = 64" and "list_all (\<lambda>x. length x < 2 ^ 32 - 64) xs"
  shows "DMMD5Final (foldl DMMD5Update (DMMD5Init junk) xs) = rfc_md5 (concat xs)"
  using DMMD5Final_rep [OF foldl_update_rep [OF DMMD5Init_rep [OF assms(1)] assms(2)]] by simp

theorem md5_matches_rfc_witness:
  "DMMD5Final (foldl DMMD5Update (DMMD5Init (replicate 64 0xAA)) [[0x61], [], [0x62, 0x63]]) = rfc_md5 [0x61, 0x62, 0x63]"
  using md5_matches_rfc [of "replicate 64 0xAA" "[[0x61], [], [0x62, 0x63]]"] by simp

text \<open>The credentials of a terminated string that is shorter than the model's limit.\<close>

lemma md5_cred:
  assumes "length junk = 64" "0 \<notin> set s" "creddata = s @ 0 # rest" "17 \<le> length creddata" "length s < 2 ^ 32 - 64"
  shows "mmidm_calc_md5_cred junk creddata = Some (rfc_md5 s @ 0 # drop 17 creddata)"
proof -
  have "takeWhile (\<lambda>x. x \<noteq> 0) (s @ 0 # rest) = s @ takeWhile (\<lambda>x. x \<noteq> 0) (0 # rest)"
    using assms(2) by (intro takeWhile_append2) auto
  then have "takeWhile (\<lambda>x. x \<noteq> 0) creddata = s" using assms(3) by simp
  then have n: "strlen creddata = Some (length s)" using assms(3) by (simp add: strlen_def)
  have "DMMD5Final (DMMD5Update (DMMD5Init junk) s) = rfc_md5 s"
    using DMMD5Final_rep [OF DMMD5Update_rep [OF DMMD5Init_rep [OF assms(1)] assms(5)]] by simp
  moreover have "length (rfc_md5 s) = 16" by (simp add: rfc_md5_def md5_digest_def DM_Encode_def split: prod.split)
  ultimately show ?thesis using n assms(3,4) by (simp add: mmidm_calc_md5_cred_def buf_write_def)
qed

end
