(* ===== verification/Dm_Base64.thy ===== *)
theory Dm_Base64
  imports Sprd_Prelude
begin

text \<open>
  Base 64 in the device management client, \<open>mmidm_base64Encode\<close>, \<open>mmidm_calc_b64_cred\<close> and
  \<open>DM_Base64_decode\<close> of \<open>libs/libdm/src/sprd_dm_md5_b64.c\<close>. The encoder is compared with a
  recursive reference encoding \<open>b64_ref\<close>, the decoder is shown to invert that encoding by an invariant on
  what is in its buffer and what has been copied.
\<close>

unbundle bit_operations_syntax

section \<open>Encoding\<close>

definition MAX_COLUMNS :: u32 where "MAX_COLUMNS = 45"

definition t_base64 :: bytes where
  "t_base64 = map of_char ''ABCDEFGHIJKLMNOPQRSTUVWXYZabcdefghijklmnopqrstuvwxyz0123456789+/=''"

text \<open>The variables of the encoder: the target space left, what was written to the target, the memory
  at \<open>pbSourceData\<close>, the unprocessed length, the offset, the save area (\<^const>\<open>None\<close> for a null
  pointer) and the index into it. The space and the length are never decremented below zero, except in the
  branch for a null data pointer, where the space is not read again.\<close>

record b64_state =
  b_space :: nat
  b_out :: bytes
  b_src :: bytes
  b_left :: nat
  b_off :: u32
  b_save :: "bytes option"
  b_isave :: nat

definition save_pending :: "b64_state \<Rightarrow> bool" where
  "save_pending st = (case b_save st of Some (c # _) \<Rightarrow> c \<noteq> 0 | _ \<Rightarrow> False)"

definition fetch_save :: "b64_state \<Rightarrow> (u32 \<times> b64_state) option" where
  "fetch_save st =
     (case b_save st of
        Some sv \<Rightarrow>
          if b_isave st < length sv then
            Some (ucast (sv ! b_isave st), st\<lparr>b_isave := b_isave st + 1, b_save := Some (sv[0 := sv ! 0 - 1])\<rparr>)
          else None
      | None \<Rightarrow> None)"

definition b64_fetch :: "b64_state \<Rightarrow> (u32 \<times> b64_state) option" where
  "b64_fetch st =
     (if b_save st = Some [] then None
      else if save_pending st then fetch_save st
      else case b_src st of
        [] \<Rightarrow> None
      | x # xs \<Rightarrow> Some (ucast x, st\<lparr>b_src := xs, b_left := b_left st - 1\<rparr>))"

definition b64_put :: "u32 \<Rightarrow> u32 \<Rightarrow> u32 \<Rightarrow> u32 \<Rightarrow> b64_state \<Rightarrow> b64_state" where
  "b64_put i0 i1 i2 i3 st =
     st\<lparr>b_out := b_out st @ [t_base64 ! unat i0, t_base64 ! unat i1, t_base64 ! unat i2, t_base64 ! unat i3],
        b_space := b_space st - 4\<rparr>"

definition b64_count :: "b64_state \<Rightarrow> b64_state" where
  "b64_count st = st\<lparr>b_off := b_off st + 1\<rparr>"

definition b64_line_end :: "b64_state \<Rightarrow> bool" where
  "b64_line_end st = (b_off st > 0 \<and> b_off st mod MAX_COLUMNS = 0)"

definition b64_crlf :: "b64_state \<Rightarrow> b64_state" where
  "b64_crlf st = st\<lparr>b_out := b_out st @ [0x0D, 0x0A], b_space := b_space st - 2\<rparr>"

definition b64_group :: "b64_state \<Rightarrow> b64_state option" where
  "b64_group st =
     do { (byt, st) \<leftarrow> b64_fetch st;
          let i0 = drop_bit 2 byt; i1 = push_bit 4 (byt AND 0x0003); st = b64_count st in
          if b_left st > 0 then
            do { (byt, st) \<leftarrow> b64_fetch st;
                 let i1 = i1 + drop_bit 4 byt; i2 = push_bit 2 (byt AND 0x000F); st = b64_count st in
                 if b_left st > 0 then
                   do { (byt, st) \<leftarrow> b64_fetch st;
                        Some (b64_put i0 i1 (i2 + drop_bit 6 (byt AND 0x00C0)) (byt AND 0x003F) (b64_count st)) }
                 else Some (b64_put i0 i1 i2 64 st) }
          else Some (b64_put i0 i1 64 64 st) }"

definition b64_more :: "nat \<Rightarrow> b64_state \<Rightarrow> bool" where
  "b64_more bLast st =
     (b_space st \<ge> 4 \<and> (b_left st \<ge> 3 \<and> bLast = 0 \<or> b_left st > 0 \<and> bLast = 1))"

lemma b64_fetch_space: "b64_fetch st = Some (x, st') \<Longrightarrow> b_space st' = b_space st"
  by (auto simp: b64_fetch_def fetch_save_def split: if_splits option.splits list.splits)

lemma b64_group_space: "b64_group st = Some st' \<Longrightarrow> b_space st' = b_space st - 4"
  by (auto simp: b64_group_def b64_put_def b64_count_def Let_def dest!: b64_fetch_space split: if_splits bind_splits)

function b64_loop :: "nat \<Rightarrow> b64_state \<Rightarrow> b64_state option" where
  "b64_loop bLast st =
     (if b64_more bLast st then
        if b64_line_end st \<and> b_space st < 6 then Some st
        else do { st' \<leftarrow> b64_group (if b64_line_end st then b64_crlf st else st); b64_loop bLast st' }
      else Some st)"
  by auto
termination
  by (relation "measure (b_space \<circ> snd)")
     (auto simp: b64_more_def b64_crlf_def dest!: b64_group_space split: if_splits)

text \<open>The branch for a null data pointer reads two saved bytes, whether there are two or one.\<close>

definition b64_flush :: "nat \<Rightarrow> b64_state \<Rightarrow> b64_state option" where
  "b64_flush bLast st =
     (if bLast \<noteq> 0 \<and> save_pending st then
        do { (byt, st) \<leftarrow> fetch_save (if b64_line_end st then b64_crlf st else st);
             let i0 = drop_bit 2 byt; i1 = push_bit 4 (byt AND 0x0003); st = b64_count st in
             do { (byt, st) \<leftarrow> fetch_save st;
                  Some (b64_put i0 (i1 + drop_bit 4 byt) (push_bit 2 (byt AND 0x000F)) 0 st) } }
      else Some st)"

text \<open>The bytes kept for the next call.\<close>

definition b64_keep :: "nat \<Rightarrow> b64_state \<Rightarrow> b64_state option" where
  "b64_keep bLast st =
     (case b_save st of
        Some sv \<Rightarrow>
          if bLast = 0 \<and> b_left st \<le> 2 then
            do { bs \<leftarrow> buf_read 0 (b_left st) (b_src st);
                 sv' \<leftarrow> buf_write 0 (word_of_nat (b_left st) # bs) sv;
                 Some (st\<lparr>b_save := Some sv', b_src := drop (b_left st) (b_src st), b_left := 0\<rparr>) }
          else Some st
      | None \<Rightarrow> Some st)"

text \<open>The result is the state and the data buffer, to whose start unprocessed data is moved.\<close>

definition mmidm_base64Encode ::
  "nat \<Rightarrow> bytes option \<Rightarrow> nat \<Rightarrow> u32 \<Rightarrow> nat \<Rightarrow> bytes option \<Rightarrow> (b64_state \<times> bytes option) option" where
  "mmidm_base64Encode cbTargetSize pbData cbDataLength cbOffset bLast pbSaveBytes =
     (let st = \<lparr>b_space = cbTargetSize, b_out = [], b_src = (case pbData of Some d \<Rightarrow> d | None \<Rightarrow> []),
                b_left = cbDataLength, b_off = cbOffset, b_save = pbSaveBytes, b_isave = 1\<rparr> in
      do { st \<leftarrow> (case pbData of None \<Rightarrow> b64_flush bLast st | Some _ \<Rightarrow> b64_loop bLast st);
           st \<leftarrow> b64_keep bLast st;
           (case pbData of
              Some d \<Rightarrow>
                if b_left st > 0 then
                  do { rest \<leftarrow> buf_read 0 (b_left st) (b_src st);
                       d' \<leftarrow> buf_write 0 rest d;
                       Some (st, Some d') }
                else Some (st, Some d)
            | None \<Rightarrow> Some (st, None)) })"

text \<open>The credentials: \<open>alloc\<close> is the outcome of \<open>xppMalloc\<close>, \<open>abSave\<close> holds four zeros.\<close>

definition mmidm_calc_b64_cred :: "bool \<Rightarrow> bytes \<Rightarrow> u32 \<Rightarrow> bytes option" where
  "mmidm_calc_b64_cred alloc creddata cbLength =
     (if cbLength = 0 then buf_write 0 [0] creddata
      else if \<not> alloc then Some creddata
      else do { (st, d) \<leftarrow> mmidm_base64Encode 80 (Some creddata) (unat cbLength) 0 1 (Some (replicate 4 0));
                outputdata \<leftarrow> buf_write 0 (b_out st @ [0]) (replicate (unat (cbLength * 2 + 4)) (0 :: u8));
                out \<leftarrow> buf_read 0 (length (b_out st)) outputdata;
                creddata \<leftarrow> d;
                creddata \<leftarrow> buf_write 0 out creddata;
                buf_write (length (b_out st)) [0] creddata })"

section \<open>Decoding\<close>

definition BASE64_BUF_LEN :: nat where "BASE64_BUF_LEN = 128"

definition BJNK :: u8 where "BJNK = 127"

definition BPAD :: u8 where "BPAD = 64"

definition decode_table :: bytes where
  "decode_table =
     [BJNK, BJNK, BJNK, BJNK, BJNK, BJNK, BJNK, BJNK, BJNK, BJNK, BJNK, BJNK, BJNK, BJNK, BJNK, BJNK,
      BJNK, BJNK, BJNK, BJNK, BJNK, BJNK, BJNK, BJNK, BJNK, BJNK, BJNK, BJNK, BJNK, BJNK, BJNK, BJNK,
      BJNK, BJNK, BJNK, BJNK, BJNK, BJNK, BJNK, BJNK, BJNK, BJNK, BJNK, 62, BJNK, BJNK, BJNK, 63,
      52, 53, 54, 55, 56, 57, 58, 59, 60, 61, BJNK, BJNK, BJNK, BPAD, BJNK, BJNK,
      BJNK, 0, 1, 2, 3, 4, 5, 6, 7, 8, 9, 10, 11, 12, 13, 14,
      15, 16, 17, 18, 19, 20, 21, 22, 23, 24, 25, BJNK, BJNK, BJNK, BJNK, BJNK,
      BJNK, 26, 27, 28, 29, 30, 31, 32, 33, 34, 35, 36, 37, 38, 39, 40,
      41, 42, 43, 44, 45, 46, 47, 48, 49, 50, 51, BJNK, BJNK, BJNK, BJNK, BJNK,
      BJNK, BJNK, BJNK, BJNK, BJNK, BJNK, BJNK, BJNK, BJNK, BJNK, BJNK, BJNK, BJNK, BJNK, BJNK, BJNK,
      BJNK, BJNK, BJNK, BJNK, BJNK, BJNK, BJNK, BJNK, BJNK, BJNK, BJNK, BJNK, BJNK, BJNK, BJNK, BJNK,
      BJNK, BJNK, BJNK, BJNK, BJNK, BJNK, BJNK, BJNK, BJNK, BJNK, BJNK, BJNK, BJNK, BJNK, BJNK, BJNK,
      BJNK, BJNK, BJNK, BJNK, BJNK, BJNK, BJNK, BJNK, BJNK, BJNK, BJNK, BJNK, BJNK, BJNK, BJNK, BJNK,
      BJNK, BJNK, BJNK, BJNK, BJNK, BJNK, BJNK, BJNK, BJNK, BJNK, BJNK, BJNK, BJNK, BJNK, BJNK, BJNK,
      BJNK, BJNK, BJNK, BJNK, BJNK, BJNK, BJNK, BJNK, BJNK, BJNK, BJNK, BJNK, BJNK, BJNK, BJNK, BJNK,
      BJNK, BJNK, BJNK, BJNK, BJNK, BJNK, BJNK, BJNK, BJNK, BJNK, BJNK, BJNK, BJNK, BJNK, BJNK, BJNK,
      BJNK, BJNK, BJNK, BJNK, BJNK, BJNK, BJNK, BJNK, BJNK, BJNK, BJNK, BJNK, BJNK, BJNK, BJNK, BJNK]"

text \<open>The variables of the decoder: the buffer \<open>dst\<close>, the position \<open>temp_dst - dst\<close> in it, the
  position in the quantum, the characters since the buffer was emptied, the destination, the space left in
  it and the number of bytes written to it. An early return of \<open>-1\<close> is an \<^const>\<open>Inl\<close>, with the
  state it leaves; \<^const>\<open>None\<close> is an access outside a buffer.\<close>

record dec64 =
  d_dst :: bytes
  d_pos :: nat
  d_e :: nat
  d_cntr :: nat
  d_dest :: bytes
  d_destl :: nat
  d_rt :: nat

type_synonym dec64_result = "(dec64 + dec64) option"

definition num_base64 :: nat where
  "num_base64 = (BASE64_BUF_LEN div 3) * 4 - 4"

definition dec64_start :: "bytes \<Rightarrow> nat \<Rightarrow> dec64" where
  "dec64_start dest destl =
     \<lparr>d_dst = replicate BASE64_BUF_LEN 0, d_pos = 0, d_e = 0, d_cntr = 0, d_dest = dest, d_destl = destl, d_rt = 0\<rparr>"

definition dec64_copy :: "dec64 \<Rightarrow> dec64_result" where
  "dec64_copy st =
     (if d_destl st < d_pos st then Some (Inl st)
      else do { out \<leftarrow> buf_read 0 (d_pos st) (d_dst st);
                dest \<leftarrow> buf_write (d_rt st) out (d_dest st);
                Some (Inr (st\<lparr>d_destl := d_destl st - d_pos st, d_dest := dest, d_rt := d_rt st + d_pos st,
                             d_dst := replicate BASE64_BUF_LEN 0, d_pos := 0\<rparr>)) })"

definition dec64_flush :: "dec64 \<Rightarrow> dec64_result" where
  "dec64_flush st = (if d_pos st \<noteq> 0 then dec64_copy st else Some (Inr st))"

definition dec64_set :: "u8 \<Rightarrow> dec64 \<Rightarrow> dec64 option" where
  "dec64_set c st =
     (if d_pos st < length (d_dst st) then Some (st\<lparr>d_dst := (d_dst st)[d_pos st := c]\<rparr>) else None)"

definition dec64_or :: "u8 \<Rightarrow> dec64 \<Rightarrow> dec64 option" where
  "dec64_or c st =
     (if d_pos st < length (d_dst st)
      then Some (st\<lparr>d_dst := (d_dst st)[d_pos st := d_dst st ! d_pos st OR c], d_pos := d_pos st + 1\<rparr>) else None)"

text \<open>A data character.\<close>

definition dec64_data :: "u8 \<Rightarrow> dec64 \<Rightarrow> dec64_result" where
  "dec64_data c st =
     (let e = d_e st; st = st\<lparr>d_e := e + 1\<rparr> in
      if e = 0 then map_option Inr (dec64_set (push_bit 2 c) st)
      else if e = 1 then map_option Inr (do { st \<leftarrow> dec64_or (drop_bit 4 c) st; dec64_set (push_bit 4 c) st })
      else if e = 2 then map_option Inr (do { st \<leftarrow> dec64_or (drop_bit 2 c) st; dec64_set (push_bit 6 c) st })
      else if e = 3 then
        do { st \<leftarrow> dec64_or c st;
             let st = st\<lparr>d_e := 0, d_cntr := d_cntr st + 4\<rparr> in
             if d_cntr st = num_base64 then dec64_copy (st\<lparr>d_cntr := 0\<rparr>) else Some (Inr st) }
      else Some (Inr st))"

text \<open>After the padding of a quantum everything but the junk ends the scan; the test of \<open>srcl\<close> inside
  this loop cannot succeed.\<close>

fun dec64_trailer :: "dec64 \<Rightarrow> bytes \<Rightarrow> dec64_result" where
  "dec64_trailer st [] = dec64_flush st"
| "dec64_trailer st (ch # src) =
     (if decode_table ! unat ch = BJNK \<or> decode_table ! unat ch = BPAD then dec64_trailer st src
      else dec64_flush st)"

definition dec64_fail :: "dec64_result \<Rightarrow> dec64_result" where
  "dec64_fail r = map_option (\<lambda>s. Inl (case s of Inl st \<Rightarrow> st | Inr st \<Rightarrow> st)) r"

fun dec64_loop :: "dec64 \<Rightarrow> bytes \<Rightarrow> dec64_result" where
  "dec64_loop st [] = Some (Inr st)"
| "dec64_loop st (ch # src) =
     (let c = decode_table ! unat ch in
      if c = BJNK then dec64_loop st src
      else if c = BPAD then
        (let e = d_e st; st = st\<lparr>d_e := e + 1\<rparr> in
         if e = 3 then dec64_trailer st src
         else if e = 2 then
           (case src of
              [] \<Rightarrow> dec64_fail (dec64_flush st)
            | next # _ \<Rightarrow> if next = 0x3D then dec64_loop st src else Some (Inl st))
         else Some (Inl st))
      else case dec64_data c st of
        None \<Rightarrow> None
      | Some (Inl st) \<Rightarrow> Some (Inl st)
      | Some (Inr st) \<Rightarrow> dec64_loop st src)"

text \<open>The result is the return value and the destination; \<open>srcl\<close> is the length of \<open>src\<close>.\<close>

definition DM_Base64_decode :: "bytes \<Rightarrow> bytes \<Rightarrow> nat \<Rightarrow> (int \<times> bytes) option" where
  "DM_Base64_decode src dest destl =
     do { r \<leftarrow> dec64_loop (dec64_start dest destl) src;
          (case r of
             Inl st \<Rightarrow> Some (- 1, d_dest st)
           | Inr st \<Rightarrow>
               do { r \<leftarrow> dec64_flush st;
                    (case r of
                       Inl st \<Rightarrow> Some (- 1, d_dest st)
                     | Inr st \<Rightarrow>
                         if d_destl st < 1 then Some (- 1, d_dest st)
                         else do { dest \<leftarrow> buf_write (d_rt st) [0] (d_dest st); Some (int (d_rt st), dest) }) }) }"

section \<open>The encoding of whole messages\<close>

definition b64_line :: "nat \<Rightarrow> bytes" where
  "b64_line off = (if 0 < off \<and> off mod 45 = 0 then [0x0D, 0x0A] else [])"

definition q0 :: "u8 \<Rightarrow> u8" where "q0 a = drop_bit 2 a"

definition q1 :: "u8 \<Rightarrow> u8 \<Rightarrow> u8" where "q1 a b = push_bit 4 (a AND 3) OR drop_bit 4 b"

definition q2 :: "u8 \<Rightarrow> u8 \<Rightarrow> u8" where "q2 b c = push_bit 2 (b AND 0xF) OR drop_bit 6 c"

definition q3 :: "u8 \<Rightarrow> u8" where "q3 c = c AND 0x3F"

definition b64_chr :: "u8 \<Rightarrow> u8" where "b64_chr q = t_base64 ! unat q"

text \<open>The reference encoding: groups of three bytes, a line break in front of every group at a positive
  multiple of 45, padding of the last group.\<close>

fun b64_ref :: "nat \<Rightarrow> bytes \<Rightarrow> bytes" where
  "b64_ref off [] = []"
| "b64_ref off [a] = b64_line off @ [b64_chr (q0 a), b64_chr (q1 a 0), 0x3D, 0x3D]"
| "b64_ref off [a, b] = b64_line off @ [b64_chr (q0 a), b64_chr (q1 a b), b64_chr (q2 b 0), 0x3D]"
| "b64_ref off (a # b # c # xs) =
     b64_line off @ [b64_chr (q0 a), b64_chr (q1 a b), b64_chr (q2 b c), b64_chr (q3 c)] @ b64_ref (off + 3) xs"

lemma t_base64_pad: "t_base64 ! 64 = 0x3D"
  by (simp add: t_base64_def)

lemma bit_u8_eqI:
  "\<lbrakk>bit x 0 = bit y 0; bit x 1 = bit y 1; bit x 2 = bit y 2; bit x 3 = bit y 3;
    bit x 4 = bit y 4; bit x 5 = bit y 5; bit x 6 = bit y 6; bit x 7 = bit y 7\<rbrakk> \<Longrightarrow> x = (y :: u8)"
proof (rule bit_word_eqI)
  fix n assume *: "bit x 0 = bit y 0" "bit x 1 = bit y 1" "bit x 2 = bit y 2" "bit x 3 = bit y 3"
    "bit x 4 = bit y 4" "bit x 5 = bit y 5" "bit x 6 = bit y 6" "bit x 7 = bit y 7" and n: "n < LENGTH(8)"
  from n have "n = 0 \<or> n = 1 \<or> n = 2 \<or> n = 3 \<or> n = 4 \<or> n = 5 \<or> n = 6 \<or> n = 7" by auto
  then show "bit x n = bit y n" using * by (elim disjE) simp_all
qed

lemma bit_u8_beyond: "8 \<le> n \<Longrightarrow> \<not> bit (x :: u8) n"
  using bit_imp_le_length [of x n] by auto

lemma bit_three: "bit (3 :: int) n \<longleftrightarrow> n < 2"
  and bit_fifteen: "bit (15 :: int) n \<longleftrightarrow> n < 4"
  and bit_48: "bit (48 :: int) n \<longleftrightarrow> 4 \<le> n \<and> n < 6"
  and bit_60: "bit (60 :: int) n \<longleftrightarrow> 2 \<le> n \<and> n < 6"
  and bit_sixtythree: "bit (63 :: int) n \<longleftrightarrow> n < 6"
  and bit_topmask: "bit (192 :: int) n \<longleftrightarrow> 6 \<le> n \<and> n < 8"
proof -
  have m: "3 = (mask 2 :: int)" "15 = (mask 4 :: int)" "63 = (mask 6 :: int)" "192 = (push_bit 6 (mask 2) :: int)"
    "48 = (push_bit 4 (mask 2) :: int)" "60 = (push_bit 2 (mask 4) :: int)"
    by (simp_all add: mask_eq_exp_minus_1)
  show "bit (3 :: int) n \<longleftrightarrow> n < 2" unfolding m by (auto simp: bit_simps)
  show "bit (15 :: int) n \<longleftrightarrow> n < 4" unfolding m by (auto simp: bit_simps)
  show "bit (63 :: int) n \<longleftrightarrow> n < 6" unfolding m by (auto simp: bit_simps)
  show "bit (48 :: int) n \<longleftrightarrow> 4 \<le> n \<and> n < 6" unfolding m by (auto simp: bit_simps)
  show "bit (60 :: int) n \<longleftrightarrow> 2 \<le> n \<and> n < 6" unfolding m by (auto simp: bit_simps)
  show "bit (192 :: int) n \<longleftrightarrow> 6 \<le> n \<and> n < 8" unfolding m by (auto simp: bit_simps)
qed

lemma unat_ucast_u32: "unat (ucast (x :: u8) :: u32) = unat x"
  by (simp add: unsigned_ucast_eq take_bit_nat_eq_self less_trans [OF unsigned_less])

lemma group_words:
  fixes a b c :: u8
  shows "drop_bit 2 (ucast a :: u32) = ucast (q0 a)"
    "push_bit 4 (ucast a AND 0x0003) + drop_bit 4 (ucast b) = (ucast (q1 a b) :: u32)"
    "push_bit 2 (ucast b AND 0x000F) + drop_bit 6 (ucast c AND 0x00C0) = (ucast (q2 b c) :: u32)"
    "ucast c AND 0x003F = (ucast (q3 c) :: u32)"
proof -
  have g: "bit (ucast x :: u32) n = bit x n" for x :: u8 and n
    using bit_u8_beyond [of n x] by (cases "8 \<le> n") (auto simp: bit_simps)
  show "drop_bit 2 (ucast a :: u32) = ucast (q0 a)"
    by (rule bit_word_eqI) (simp add: g q0_def bit_simps)
  show "ucast c AND 0x003F = (ucast (q3 c) :: u32)"
    by (rule bit_word_eqI) (auto simp: g q3_def bit_simps bit_sixtythree)
  have "push_bit 4 (ucast a AND 0x0003) + drop_bit 4 (ucast b) = (push_bit 4 (ucast a AND 0x0003) OR drop_bit 4 (ucast b) :: u32)"
    by (rule disjunctive_add) (auto simp: bit_simps g bit_u8_beyond)
  also have "\<dots> = ucast (q1 a b)"
    by (rule bit_word_eqI) (auto simp: g q1_def bit_simps bit_three bit_48 bit_u8_beyond)
  finally show "push_bit 4 (ucast a AND 0x0003) + drop_bit 4 (ucast b) = (ucast (q1 a b) :: u32)" .
  have "push_bit 2 (ucast b AND 0x000F) + drop_bit 6 (ucast c AND 0x00C0) =
      (push_bit 2 (ucast b AND 0x000F) OR drop_bit 6 (ucast c AND 0x00C0) :: u32)"
    by (rule disjunctive_add) (auto simp: bit_simps g bit_topmask bit_three bit_60)
  also have "\<dots> = ucast (q2 b c)"
    by (rule bit_word_eqI) (auto simp: g q2_def bit_simps bit_fifteen bit_topmask bit_60 bit_three bit_u8_beyond)
  finally show "push_bit 2 (ucast b AND 0x000F) + drop_bit 6 (ucast c AND 0x00C0) = (ucast (q2 b c) :: u32)" .
qed

lemma group_indices:
  fixes a b c :: u8
  shows "unat (drop_bit 2 (ucast a :: u32)) = unat (q0 a)"
    "unat (push_bit 4 (ucast a AND 0x0003) + drop_bit 4 (ucast b) :: u32) = unat (q1 a b)"
    "unat (push_bit 4 (ucast a AND 0x0003) :: u32) = unat (q1 a 0)"
    "unat (push_bit 2 (ucast b AND 0x000F) + drop_bit 6 (ucast c AND 0x00C0) :: u32) = unat (q2 b c)"
    "unat (push_bit 2 (ucast b AND 0x000F) :: u32) = unat (q2 b 0)"
    "unat (ucast c AND 0x003F :: u32) = unat (q3 c)"
proof -
  have p: "push_bit 4 (ucast a AND 0x0003) = (ucast (q1 a 0) :: u32)" "push_bit 2 (ucast b AND 0x000F) = (ucast (q2 b 0) :: u32)"
    using group_words(2) [of a 0] group_words(3) [of b 0]
    unfolding unsigned_0 drop_bit_of_0 and_zero_eq zero_and_eq add_0_right .
  show "unat (drop_bit 2 (ucast a :: u32)) = unat (q0 a)"
    "unat (push_bit 4 (ucast a AND 0x0003) + drop_bit 4 (ucast b) :: u32) = unat (q1 a b)"
    "unat (push_bit 2 (ucast b AND 0x000F) + drop_bit 6 (ucast c AND 0x00C0) :: u32) = unat (q2 b c)"
    "unat (ucast c AND 0x003F :: u32) = unat (q3 c)"
    unfolding group_words unat_ucast_u32 by (rule refl)+
  show "unat (push_bit 4 (ucast a AND 0x0003) :: u32) = unat (q1 a 0)"
    "unat (push_bit 2 (ucast b AND 0x000F) :: u32) = unat (q2 b 0)"
    unfolding p unat_ucast_u32 by (rule refl)+
qed

lemma q_small: "unat (q0 a) < 64" "unat (q1 a b) < 64" "unat (q2 b c) < 64" "unat (q3 c) < 64"
proof -
  have s: "unat x < 64" if "take_bit 6 x = x" for x :: u8
  proof -
    have "unat (take_bit 6 x) = unat x mod 64" by (simp add: unsigned_take_bit_eq take_bit_eq_mod unat_mod)
    then show ?thesis using that by simp
  qed
  show "unat (q0 a) < 64" "unat (q1 a b) < 64" "unat (q2 b c) < 64" "unat (q3 c) < 64"
    by (rule s, rule bit_u8_eqI; simp add: q0_def q1_def q2_def q3_def bit_simps bit_u8_beyond)+
qed

text \<open>Four data characters give back three bytes.\<close>

lemma quantum:
  "push_bit 2 (q0 a) OR drop_bit 4 (q1 a b) = a" "push_bit 4 (q1 a b) OR drop_bit 2 (q2 b c) = b"
  "push_bit 6 (q2 b c) OR q3 c = c"
  by (rule bit_u8_eqI; simp add: q0_def q1_def q2_def q3_def bit_simps)+

lemma decode_chr: "unat q < 64 \<Longrightarrow> decode_table ! unat (b64_chr q) = q"
proof -
  assume "unat q < 64"
  moreover have "list_all (\<lambda>n. decode_table ! unat (t_base64 ! n) = word_of_nat n) [0..<64]"
    by (simp add: upt_conv_Cons t_base64_def decode_table_def)
  ultimately have "decode_table ! unat (t_base64 ! unat q) = word_of_nat (unat q)" unfolding list_all_iff by simp
  then show ?thesis by (simp add: b64_chr_def)
qed

section \<open>The encoder produces the reference encoding\<close>

declare b64_loop.simps [simp del]

definition b64_idle :: "b64_state \<Rightarrow> bool" where
  "b64_idle st \<longleftrightarrow> b_save st \<noteq> Some [] \<and> \<not> save_pending st"

lemma b64_idle_update [simp]:
  "b64_idle (st\<lparr>b_src := x, b_left := n\<rparr>) = b64_idle st" "b64_idle (st\<lparr>b_off := w\<rparr>) = b64_idle st"
  by (simp_all add: b64_idle_def save_pending_def)

lemma b64_fetch_idle:
  "b64_idle st \<Longrightarrow> b_src st = x # xs \<Longrightarrow>
   b64_fetch st = Some (ucast x, st\<lparr>b_src := xs, b_left := b_left st - 1\<rparr>)"
  by (simp add: b64_fetch_def b64_idle_def)

definition b64_written :: "bytes \<Rightarrow> nat \<Rightarrow> b64_state \<Rightarrow> b64_state" where
  "b64_written out n st =
     st\<lparr>b_src := drop n (b_src st), b_left := b_left st - n, b_off := b_off st + word_of_nat n,
        b_out := b_out st @ out, b_space := b_space st - length out\<rparr>"

lemma b64_written_simps [simp]:
  "b_src (b64_written out n st) = drop n (b_src st)" "b_left (b64_written out n st) = b_left st - n"
  "b_off (b64_written out n st) = b_off st + word_of_nat n" "b_out (b64_written out n st) = b_out st @ out"
  "b_space (b64_written out n st) = b_space st - length out" "b_save (b64_written out n st) = b_save st"
  by (simp_all add: b64_written_def)

lemma b64_idle_written [simp]: "b64_idle (b64_written out n st) = b64_idle st"
  by (simp add: b64_idle_def save_pending_def)

lemma b64_written_nil [simp]: "b64_written [] 0 st = st"
  by (simp add: b64_written_def)

lemma b64_written_written:
  "b64_written out2 n2 (b64_written out1 n1 st) = b64_written (out1 @ out2) (n1 + n2) st"
  by (simp add: b64_written_def ac_simps)

lemmas b64_group_simps =
  b64_fetch_idle b64_count_def b64_put_def b64_written_def group_indices b64_chr_def t_base64_pad

lemma b64_group_three:
  assumes "b64_idle st" "b_src st = a # b # c # r" "3 \<le> b_left st"
  shows "b64_group st = Some (b64_written [b64_chr (q0 a), b64_chr (q1 a b), b64_chr (q2 b c), b64_chr (q3 c)] 3 st)"
proof -
  have "0 < b_left st - 1" "0 < b_left st - 1 - 1" "b_left st - 1 - 1 - 1 = b_left st - 3" using assms(3) by auto
  then show ?thesis
    using assms unfolding b64_group_def Let_def by (simp add: b64_group_simps del: push_bit_and drop_bit_and)
qed

lemma b64_group_two:
  assumes "b64_idle st" "b_src st = a # b # r" "b_left st = 2"
  shows "b64_group st = Some (b64_written [b64_chr (q0 a), b64_chr (q1 a b), b64_chr (q2 b 0), 0x3D] 2 st)"
  using assms unfolding b64_group_def Let_def by (simp add: b64_group_simps del: push_bit_and drop_bit_and)

lemma b64_group_one:
  assumes "b64_idle st" "b_src st = a # r" "b_left st = 1"
  shows "b64_group st = Some (b64_written [b64_chr (q0 a), b64_chr (q1 a 0), 0x3D, 0x3D] 1 st)"
  using assms unfolding b64_group_def Let_def by (simp add: b64_group_simps del: push_bit_and drop_bit_and)

lemma b64_line_end_off:
  assumes "b_off st = word_of_nat off" "off < 2 ^ 32"
  shows "(if b64_line_end st then b64_crlf st else st) = b64_written (b64_line off) 0 st"
    and "b64_line_end st \<longleftrightarrow> b64_line off \<noteq> []"
proof -
  have u: "unat (b_off st) = off" using assms by (simp only: assms(1) unat_of_nat) (simp add: take_bit_nat_eq_self)
  have "b64_line_end st \<longleftrightarrow> 0 < off \<and> off mod 45 = 0"
    unfolding b64_line_end_def MAX_COLUMNS_def word_less_nat_alt word_unat_eq_iff unat_mod u by simp
  then show "b64_line_end st \<longleftrightarrow> b64_line off \<noteq> []" "(if b64_line_end st then b64_crlf st else st) = b64_written (b64_line off) 0 st"
    by (auto simp: b64_line_def b64_crlf_def b64_written_def)
qed

lemma b64_loop_step:
  assumes "b_off st = word_of_nat off" "off < 2 ^ 32" "b_left st \<noteq> 0" "length (b64_line off) + 4 \<le> b_space st"
  shows "b64_loop 1 st = Option.bind (b64_group (b64_written (b64_line off) 0 st)) (b64_loop 1)"
proof -
  have "b64_more 1 st" using assms(3,4) by (simp add: b64_more_def)
  moreover have "\<not> (b64_line_end st \<and> b_space st < 6)"
    using assms(4) b64_line_end_off(2) [OF assms(1,2)] by (auto simp: b64_line_def split: if_splits)
  ultimately show ?thesis by (subst b64_loop.simps) (auto simp: b64_line_end_off(1) [OF assms(1,2)])
qed

lemma b64_loop_groups:
  "\<lbrakk>b64_idle st; length xs mod 3 = 0; b_src st = xs @ r; length xs \<le> b_left st; b_off st = word_of_nat off;
    off + length xs < 2 ^ 32; length (b64_ref off xs) \<le> b_space st\<rbrakk> \<Longrightarrow>
   b64_loop 1 st = b64_loop 1 (b64_written (b64_ref off xs) (length xs) st)"
proof (induction off xs arbitrary: st rule: b64_ref.induct)
  case (4 off a b c xs)
  let ?out = "b64_line off @ [b64_chr (q0 a), b64_chr (q1 a b), b64_chr (q2 b c), b64_chr (q3 c)]"
  let ?st = "b64_written ?out 3 st"
  have m: "length xs mod 3 = 0" using 4(3) by (simp add: mod_Suc split: if_splits)
  have "b64_loop 1 st = Option.bind (b64_group (b64_written (b64_line off) 0 st)) (b64_loop 1)"
    using 4 by (intro b64_loop_step) auto
  also have "b64_group (b64_written (b64_line off) 0 st) = Some ?st"
    using 4 by (subst b64_group_three) (simp_all add: b64_written_written)
  also have "Option.bind (Some ?st) (b64_loop 1) = b64_loop 1 (b64_written (b64_ref (off + 3) xs) (length xs) ?st)"
    unfolding bind.bind_lunit
  proof (rule 4(1) [OF _ m])
    show "b64_idle ?st" using 4(2) by simp
    show "b_src ?st = xs @ r" using 4(4) by simp
    show "length xs \<le> b_left ?st" using 4(5) by simp
    show "b_off ?st = word_of_nat (off + 3)" using 4(6) by simp
    show "off + 3 + length xs < 2 ^ 32" using 4(7) by simp
    show "length (b64_ref (off + 3) xs) \<le> b_space ?st" using 4(8) by simp
  qed
  also have "b64_written (b64_ref (off + 3) xs) (length xs) ?st = b64_written (b64_ref off (a # b # c # xs)) (length (a # b # c # xs)) st"
    unfolding b64_written_written by (simp add: numeral_3_eq_3)
  finally show ?case .
qed simp_all

lemma b64_loop_stop: "b_left st = 0 \<or> b_space st < 4 \<Longrightarrow> b64_loop 1 st = Some st"
  by (subst b64_loop.simps) (auto simp: b64_more_def)

lemma b64_ref_append: "length xs mod 3 = 0 \<Longrightarrow> b64_ref off (xs @ ys) = b64_ref off xs @ b64_ref (off + length xs) ys"
proof (induction off xs rule: b64_ref.induct)
  case (4 off a b c xs)
  then have "length xs mod 3 = 0" by (simp add: mod_Suc split: if_splits)
  then have "b64_ref (off + 3) (xs @ ys) = b64_ref (off + 3) xs @ b64_ref (off + 3 + length xs) ys" by (rule 4(1))
  moreover have "off + 3 + length xs = off + length (a # b # c # xs)" by simp
  ultimately show ?case by simp
qed simp_all

lemma b64_loop_tail:
  assumes "b64_idle st" "length ys < 3" "b_src st = ys @ r" "b_left st = length ys" "b_off st = word_of_nat off"
    "off < 2 ^ 32" "length (b64_ref off ys) \<le> b_space st"
  shows "b64_loop 1 st = Some (b64_written (b64_ref off ys) (length ys) st)"
proof -
  consider "ys = []" | a where "ys = [a]" | a b where "ys = [a, b]"
    using assms(2) by (cases "(off, ys)" rule: b64_ref.cases) auto
  then show ?thesis
  proof cases
    case 1 then show ?thesis using assms by (simp add: b64_loop_stop [unfolded One_nat_def])
  next
    case (2 a)
    have "b64_loop 1 st = Option.bind (b64_group (b64_written (b64_line off) 0 st)) (b64_loop 1)"
      using assms 2 by (intro b64_loop_step) auto
    then show ?thesis using assms 2 by (simp add: b64_group_one b64_written_written b64_loop_stop [unfolded One_nat_def])
  next
    case (3 a b)
    have "b64_loop 1 st = Option.bind (b64_group (b64_written (b64_line off) 0 st)) (b64_loop 1)"
      using assms 3 by (intro b64_loop_step) auto
    then show ?thesis using assms 3 by (simp add: b64_group_two b64_written_written b64_loop_stop [unfolded One_nat_def] numeral_2_eq_2)
  qed
qed

lemma b64_loop_ref:
  assumes "b64_idle st" "b_src st = xs @ r" "b_left st = length xs" "b_off st = word_of_nat off"
    "off + length xs < 2 ^ 32" "length (b64_ref off xs) \<le> b_space st"
  shows "b64_loop 1 st = Some (b64_written (b64_ref off xs) (length xs) st)"
proof -
  define n where "n = 3 * (length xs div 3)"
  define ys zs where "ys = take n xs" and "zs = drop n xs"
  have n: "n \<le> length xs" "length xs - n < 3" unfolding n_def by linarith+
  have len: "length ys = n" using n by (simp add: ys_def)
  then have m: "length ys mod 3 = 0" by (simp add: n_def)
  have xs: "xs = ys @ zs" by (simp add: ys_def zs_def)
  have ref: "b64_ref off xs = b64_ref off ys @ b64_ref (off + n) zs" using b64_ref_append [OF m, of off zs] xs len by simp
  have "b64_loop 1 st = b64_loop 1 (b64_written (b64_ref off ys) (length ys) st)"
    using assms m xs ref by (intro b64_loop_groups [where r = "zs @ r"]) auto
  also have "\<dots> = Some (b64_written (b64_ref (off + n) zs) (length zs) (b64_written (b64_ref off ys) (length ys) st))"
  proof (rule b64_loop_tail)
    have zs: "length zs = length xs - n" by (simp add: zs_def)
    show "b64_idle (b64_written (b64_ref off ys) (length ys) st)" using assms(1) by simp
    show "length zs < 3" using n zs by simp
    show "b_src (b64_written (b64_ref off ys) (length ys) st) = zs @ r" using assms(2) xs by simp
    show "b_left (b64_written (b64_ref off ys) (length ys) st) = length zs" using assms(3) zs len by simp
    show "b_off (b64_written (b64_ref off ys) (length ys) st) = word_of_nat (off + n)" using assms(4) len by simp
    show "off + n < 2 ^ 32" using assms(5) n(1) by linarith
    show "length (b64_ref (off + n) zs) \<le> b_space (b64_written (b64_ref off ys) (length ys) st)" using assms(6) ref by simp
  qed
  finally show ?thesis using ref xs by (simp add: b64_written_written)
qed

section \<open>The decoder inverts the encoding\<close>

text \<open>The memory of the decoder after the bytes \<open>m\<close>: some are in the destination, the rest is in the
  buffer. \<open>dest\<close> is the original destination, of which \<open>D\<close> bytes may be used.\<close>

definition dec_mem :: "dec64 \<Rightarrow> bytes \<Rightarrow> bytes \<Rightarrow> nat \<Rightarrow> bool" where
  "dec_mem st m dest D \<longleftrightarrow>
     length (d_dst st) = 128 \<and> d_pos st \<le> 128 \<and> d_rt st + d_pos st = length m \<and>
     take (d_pos st) (d_dst st) = drop (d_rt st) m \<and> d_dest st = take (d_rt st) m @ drop (d_rt st) dest \<and>
     d_rt st + d_destl st = D \<and> D \<le> length dest \<and> length m \<le> D"

definition dec_rep :: "dec64 \<Rightarrow> bytes \<Rightarrow> bytes \<Rightarrow> nat \<Rightarrow> bool" where
  "dec_rep st m dest D \<longleftrightarrow> dec_mem st m dest D \<and> d_e st = 0 \<and>
     4 * d_pos st = 3 * d_cntr st \<and> d_cntr st mod 4 = 0 \<and> d_cntr st < 164"

lemma num_base64: "num_base64 = 164"
  by (simp add: num_base64_def BASE64_BUF_LEN_def)

lemma dec_rep_start: "D \<le> length dest \<Longrightarrow> dec_rep (dec64_start dest D) [] dest D"
  by (simp add: dec_rep_def dec_mem_def dec64_start_def BASE64_BUF_LEN_def)

lemma dec64_copy_mem:
  assumes "dec_mem st m dest D"
  shows "dec64_copy st = Some (Inr (st\<lparr>d_destl := D - length m, d_dest := m @ drop (length m) dest,
     d_rt := length m, d_dst := replicate 128 0, d_pos := 0\<rparr>))"
proof -
  let ?p = "d_pos st" and ?r = "d_rt st"
  have len: "length m = ?r + ?p" and room: "?p \<le> d_destl st" "d_destl st - ?p = D - length m"
    and t: "take ?p (d_dst st) = drop ?r m" and d: "d_dest st = take ?r m @ drop ?r dest" and D: "?r + ?p \<le> length dest"
    and p: "?p \<le> length (d_dst st)"
    using assms by (auto simp: dec_mem_def)
  have "buf_read 0 ?p (d_dst st) = Some (drop ?r m)" using p t by (simp add: buf_read_def)
  moreover have "buf_write ?r (drop ?r m) (d_dest st) = Some (m @ drop (length m) dest)"
    using len D by (simp add: buf_write_def d ac_simps)
  ultimately show ?thesis using room len by (simp add: dec64_copy_def BASE64_BUF_LEN_def)
qed

lemma dec64_flush_mem:
  assumes "dec_mem st m dest D"
  shows "\<exists>st'. dec64_flush st = Some (Inr st') \<and> dec_mem st' m dest D \<and> d_pos st' = 0 \<and> d_rt st' = length m"
proof (cases "d_pos st = 0")
  case True
  then show ?thesis using assms by (auto simp: dec64_flush_def dec_mem_def)
next
  case False
  then show ?thesis using assms by (auto simp: dec64_flush_def dec64_copy_mem dec_mem_def)
qed

lemma dec64_loop_line: "dec64_loop st (b64_line off @ src) = dec64_loop st src"
  by (simp add: b64_line_def decode_table_def Let_def)

lemma dec64_loop_chr:
  assumes "unat q < 64" "dec64_data q st = Some (Inr st')"
  shows "dec64_loop st (b64_chr q # src) = dec64_loop st' src"
proof -
  have "q \<noteq> BJNK" "q \<noteq> BPAD" using assms(1) by (auto simp: BJNK_def BPAD_def)
  then show ?thesis using assms by (simp add: decode_chr Let_def)
qed

lemma take_update_three:
  "Suc (Suc (Suc p)) \<le> length d \<Longrightarrow> take (Suc (Suc (Suc p))) (d[p := a, Suc p := b, Suc (Suc p) := c]) = take p d @ [a, b, c]"
  by (auto simp: list_eq_iff_nth_eq nth_append nth_list_update nth_Cons' less_Suc_eq numeral_3_eq_3)

text \<open>The states inside a quantum.\<close>

definition dec_one :: "u8 \<Rightarrow> dec64 \<Rightarrow> dec64" where
  "dec_one x st = st\<lparr>d_e := 1, d_dst := (d_dst st)[d_pos st := x]\<rparr>"

definition dec_two :: "u8 \<Rightarrow> u8 \<Rightarrow> dec64 \<Rightarrow> dec64" where
  "dec_two a x st = st\<lparr>d_e := 2, d_dst := (d_dst st)[d_pos st := a, Suc (d_pos st) := x], d_pos := Suc (d_pos st)\<rparr>"

definition dec_three :: "u8 \<Rightarrow> u8 \<Rightarrow> u8 \<Rightarrow> dec64 \<Rightarrow> dec64" where
  "dec_three a b x st =
     st\<lparr>d_e := 3, d_dst := (d_dst st)[d_pos st := a, Suc (d_pos st) := b, Suc (Suc (d_pos st)) := x], d_pos := Suc (Suc (d_pos st))\<rparr>"

definition dec_four :: "u8 \<Rightarrow> u8 \<Rightarrow> u8 \<Rightarrow> dec64 \<Rightarrow> dec64" where
  "dec_four a b c st =
     st\<lparr>d_e := 0, d_cntr := d_cntr st + 4,
        d_dst := (d_dst st)[d_pos st := a, Suc (d_pos st) := b, Suc (Suc (d_pos st)) := c], d_pos := Suc (Suc (Suc (d_pos st)))\<rparr>"

lemma dec_quantum:
  assumes "d_e st = 0" "Suc (Suc (d_pos st)) < length (d_dst st)"
  shows "dec64_data (q0 a) st = Some (Inr (dec_one (push_bit 2 (q0 a)) st))"
    "dec64_data (q1 a b) (dec_one (push_bit 2 (q0 a)) st) = Some (Inr (dec_two a (push_bit 4 (q1 a b)) st))"
    "dec64_data (q2 b c) (dec_two a (push_bit 4 (q1 a b)) st) = Some (Inr (dec_three a b (push_bit 6 (q2 b c)) st))"
    "dec64_data (q3 c) (dec_three a b (push_bit 6 (q2 b c)) st) =
       (if d_cntr st + 4 = 164 then dec64_copy ((dec_four a b c st)\<lparr>d_cntr := 0\<rparr>) else Some (Inr (dec_four a b c st)))"
  using assms
  by (cases st; simp add: dec64_data_def dec64_set_def dec64_or_def dec_one_def dec_two_def dec_three_def dec_four_def
      num_base64 Let_def quantum)+

lemma dec_rep_pos:
  assumes "dec_rep st m dest D"
  shows "d_e st = 0" "Suc (Suc (d_pos st)) < length (d_dst st)" "d_pos st \<le> 120" "length (d_dst st) = 128"
proof -
  obtain k where "d_cntr st = 4 * k" "4 * d_pos st = 3 * d_cntr st" "d_cntr st < 164" "length (d_dst st) = 128" "d_e st = 0"
    using assms by (auto simp: dec_rep_def dec_mem_def)
  then show "d_e st = 0" "Suc (Suc (d_pos st)) < length (d_dst st)" "d_pos st \<le> 120" "length (d_dst st) = 128" by auto
qed

lemma dec_mem_extend:
  assumes "dec_mem st m dest D" "length ys + d_pos st \<le> 128" "length m + length ys \<le> D"
    "length (d_dst st') = 128" "take (d_pos st + length ys) (d_dst st') = take (d_pos st) (d_dst st) @ ys"
    "d_pos st' = d_pos st + length ys" "d_rt st' = d_rt st" "d_dest st' = d_dest st" "d_destl st' = d_destl st"
  shows "dec_mem st' (m @ ys) dest D"
  using assms by (auto simp: dec_mem_def)

lemma dec_mem_four:
  assumes "dec_rep st m dest D" "length m + 3 \<le> D"
  shows "dec_mem ((dec_four a b c st)\<lparr>d_cntr := k\<rparr>) (m @ [a, b, c]) dest D"
proof (rule dec_mem_extend)
  note p = dec_rep_pos [OF assms(1)]
  show "dec_mem st m dest D" using assms(1) by (simp add: dec_rep_def)
  show "length [a, b, c] + d_pos st \<le> 128" using p by simp
  show "length m + length [a, b, c] \<le> D" using assms(2) by simp
  show "take (d_pos st + length [a, b, c]) (d_dst ((dec_four a b c st)\<lparr>d_cntr := k\<rparr>)) = take (d_pos st) (d_dst st) @ [a, b, c]"
    using p take_update_three [of "d_pos st" "d_dst st" a b c] by (simp add: dec_four_def)
qed (use dec_rep_pos [OF assms(1)] in \<open>simp_all add: dec_four_def\<close>)

lemma dec64_group:
  assumes "dec_rep st m dest D" "length m + 3 \<le> D"
  shows "\<exists>st'. dec64_loop st (b64_line off @ [b64_chr (q0 a), b64_chr (q1 a b), b64_chr (q2 b c), b64_chr (q3 c)] @ src) =
     dec64_loop st' src \<and> dec_rep st' (m @ [a, b, c]) dest D"
proof -
  note p = dec_rep_pos [OF assms(1)]
  note q = dec_quantum [OF p(1,2)]
  let ?st = "dec_three a b (push_bit 6 (q2 b c)) st"
  have three: "dec64_loop st (b64_line off @ [b64_chr (q0 a), b64_chr (q1 a b), b64_chr (q2 b c), b64_chr (q3 c)] @ src) =
      dec64_loop ?st (b64_chr (q3 c) # src)"
    unfolding dec64_loop_line append_Cons append_Nil
    by (simp only: dec64_loop_chr [OF q_small(1) q(1)] dec64_loop_chr [OF q_small(2) q(2)] dec64_loop_chr [OF q_small(3) q(3)])
  show ?thesis
  proof (cases "d_cntr st + 4 = 164")
    case True
    let ?s = "(dec_four a b c st)\<lparr>d_cntr := 0\<rparr>"
    let ?t = "?s\<lparr>d_destl := D - length (m @ [a, b, c]), d_dest := (m @ [a, b, c]) @ drop (length (m @ [a, b, c])) dest,
       d_rt := length (m @ [a, b, c]), d_dst := replicate 128 0, d_pos := 0\<rparr>"
    have mem: "dec_mem ?s (m @ [a, b, c]) dest D" using dec_mem_four [OF assms] .
    have "dec64_data (q3 c) ?st = Some (Inr ?t)" using q(4) [where c = c] True dec64_copy_mem [OF mem] by simp
    then have "dec64_loop ?st (b64_chr (q3 c) # src) = dec64_loop ?t src" by (rule dec64_loop_chr [OF q_small(4)])
    moreover have "dec_rep ?t (m @ [a, b, c]) dest D"
      using mem assms(2) by (simp add: dec_rep_def dec_mem_def dec_four_def)
    ultimately show ?thesis using three by metis
  next
    case False
    let ?t = "dec_four a b c st"
    have "dec64_data (q3 c) ?st = Some (Inr ?t)" using q(4) [where c = c] False by simp
    then have "dec64_loop ?st (b64_chr (q3 c) # src) = dec64_loop ?t src" by (rule dec64_loop_chr [OF q_small(4)])
    moreover have "dec_mem ?t (m @ [a, b, c]) dest D"
      using dec_mem_four [OF assms, where k = "d_cntr ?t" and a = a and b = b and c = c] by simp
    then have "dec_rep ?t (m @ [a, b, c]) dest D"
      using assms(1) False by (auto simp: dec_rep_def dec_four_def mod_Suc_eq) 
    ultimately show ?thesis using three by metis
  qed
qed

lemma pad_table: "decode_table ! unat (0x3D :: u8) = BPAD" "BPAD \<noteq> BJNK"
  by (simp_all add: decode_table_def BJNK_def BPAD_def)

lemma dec64_pad_one: "d_e st = 3 \<Longrightarrow> dec64_loop st [0x3D] = dec64_flush (st\<lparr>d_e := 4\<rparr>)"
  using pad_table by (simp add: Let_def)

lemma dec64_pad_two: "d_e st = 2 \<Longrightarrow> dec64_loop st [0x3D, 0x3D] = dec64_flush (st\<lparr>d_e := 4\<rparr>)"
  using pad_table by (simp add: Let_def)

lemma take_update_two:
  "Suc (Suc p) < length d \<Longrightarrow> take (Suc (Suc p)) (d[p := a, Suc p := b, Suc (Suc p) := c]) = take p d @ [a, b]"
  by (auto simp: list_eq_iff_nth_eq nth_append nth_list_update nth_Cons' less_Suc_eq)

lemma take_update_one:
  "Suc p < length d \<Longrightarrow> take (Suc p) (d[p := a, Suc p := b]) = take p d @ [a]"
  by (auto simp: list_eq_iff_nth_eq nth_append nth_list_update nth_Cons' less_Suc_eq)

lemma dec_mem_e: "dec_mem (st\<lparr>d_e := e\<rparr>) m dest D = dec_mem st m dest D"
  by (simp add: dec_mem_def)

lemma dec_mem_three:
  assumes "dec_rep st m dest D" "length m + 2 \<le> D"
  shows "dec_mem (dec_three a b x st) (m @ [a, b]) dest D"
proof (rule dec_mem_extend)
  note p = dec_rep_pos [OF assms(1)]
  show "dec_mem st m dest D" using assms(1) by (simp add: dec_rep_def)
  show "length [a, b] + d_pos st \<le> 128" using p by simp
  show "length m + length [a, b] \<le> D" using assms(2) by simp
  show "take (d_pos st + length [a, b]) (d_dst (dec_three a b x st)) = take (d_pos st) (d_dst st) @ [a, b]"
    using p take_update_two [of "d_pos st" "d_dst st" a b x] by (simp add: dec_three_def)
qed (use dec_rep_pos [OF assms(1)] in \<open>simp_all add: dec_three_def\<close>)

lemma dec_mem_two:
  assumes "dec_rep st m dest D" "length m + 1 \<le> D"
  shows "dec_mem (dec_two a x st) (m @ [a]) dest D"
proof (rule dec_mem_extend)
  note p = dec_rep_pos [OF assms(1)]
  show "dec_mem st m dest D" using assms(1) by (simp add: dec_rep_def)
  show "length [a] + d_pos st \<le> 128" using p by simp
  show "length m + length [a] \<le> D" using assms(2) by simp
  show "take (d_pos st + length [a]) (d_dst (dec_two a x st)) = take (d_pos st) (d_dst st) @ [a]"
    using p take_update_one [of "d_pos st" "d_dst st" a x] by (simp add: dec_two_def)
qed (use dec_rep_pos [OF assms(1)] in \<open>simp_all add: dec_two_def\<close>)

lemma dec64_ref:
  "\<lbrakk>dec_rep st m dest D; length m + length xs \<le> D\<rbrakk> \<Longrightarrow>
   \<exists>st'. dec64_loop st (b64_ref off xs) = Some (Inr st') \<and> dec_mem st' (m @ xs) dest D"
proof (induction off xs arbitrary: st m rule: b64_ref.induct)
  case (1 off)
  then show ?case by (simp add: dec_rep_def)
next
  case (2 off a)
  note q = dec_quantum [OF dec_rep_pos(1,2) [OF 2(1)]]
  let ?s = "dec_two a (push_bit 4 (q1 a 0)) st"
  have "dec64_loop st (b64_ref off [a]) = dec64_loop ?s [0x3D, 0x3D]"
    unfolding b64_ref.simps dec64_loop_line dec64_loop_chr [OF q_small(1) q(1)] dec64_loop_chr [OF q_small(2) q(2)] ..
  also have "\<dots> = dec64_flush (?s\<lparr>d_e := 4\<rparr>)" by (rule dec64_pad_two) (simp add: dec_two_def)
  finally show ?case
    using dec64_flush_mem [of "?s\<lparr>d_e := 4\<rparr>" "m @ [a]" dest D] dec_mem_two [OF 2(1)] 2(2) by (auto simp: dec_mem_e)
next
  case (3 off a b)
  note q = dec_quantum [OF dec_rep_pos(1,2) [OF 3(1)]]
  let ?s = "dec_three a b (push_bit 6 (q2 b 0)) st"
  have "dec64_loop st (b64_ref off [a, b]) = dec64_loop ?s [0x3D]"
    unfolding b64_ref.simps dec64_loop_line dec64_loop_chr [OF q_small(1) q(1)] dec64_loop_chr [OF q_small(2) q(2)]
      dec64_loop_chr [OF q_small(3) q(3)] ..
  also have "\<dots> = dec64_flush (?s\<lparr>d_e := 4\<rparr>)" by (rule dec64_pad_one) (simp add: dec_three_def)
  finally show ?case
    using dec64_flush_mem [of "?s\<lparr>d_e := 4\<rparr>" "m @ [a, b]" dest D] dec_mem_three [OF 3(1)] 3(2) by (auto simp: dec_mem_e)
next
  case (4 off a b c xs)
  obtain st' where st': "dec64_loop st (b64_ref off (a # b # c # xs)) = dec64_loop st' (b64_ref (off + 3) xs)"
    "dec_rep st' (m @ [a, b, c]) dest D"
    using dec64_group [OF 4(2), of off a b c "b64_ref (off + 3) xs"] 4(3) by auto
  then show ?case using 4(1) [OF st'(2)] 4(3) by simp
qed

lemma decode_ref:
  assumes "length xs < D" "D \<le> length dest"
  shows "DM_Base64_decode (b64_ref off xs) dest D = Some (int (length xs), xs @ 0 # drop (Suc (length xs)) dest)"
proof -
  obtain st where l: "dec64_loop (dec64_start dest D) (b64_ref off xs) = Some (Inr st)" and m: "dec_mem st xs dest D"
    using dec64_ref [OF dec_rep_start [OF assms(2)], of xs off] assms(1) by auto
  obtain st' where f: "dec64_flush st = Some (Inr st')" and m': "dec_mem st' xs dest D" and r: "d_rt st' = length xs"
    using dec64_flush_mem [OF m] by blast
  have "\<not> d_destl st' < 1" and d: "d_dest st' = xs @ drop (length xs) dest" using m' r assms(1) by (auto simp: dec_mem_def)
  moreover have "buf_write (length xs) [0] (xs @ drop (length xs) dest) = Some (xs @ 0 # drop (Suc (length xs)) dest)"
    using assms by (simp add: buf_write_def)
  ultimately show ?thesis using l f r by (simp add: DM_Base64_decode_def)
qed

section \<open>Sizes\<close>

lemma div45_line: "length (b64_line off) + 2 * ((off - 1) div 45) = 2 * (off div 45)"
proof (cases "off = 0")
  case False
  then obtain k where k: "off = Suc k" using not0_implies_Suc by blast
  have "Suc k div 45 = (if Suc k mod 45 = 0 then Suc (k div 45) else k div 45)" by (rule div_Suc)
  then show ?thesis using k by (auto simp: b64_line_def)
qed (simp add: b64_line_def)

lemma div45_group: "off mod 3 = 0 \<Longrightarrow> j < 3 \<Longrightarrow> (off + j) div 45 = off div (45 :: nat)"
proof -
  assume a: "off mod 3 = 0" "j < 3"
  obtain k where k: "off = 3 * k" using a(1) by auto
  have d: "(3 * k + i) div 45 = k div 15" if "i < 3" for i
    using div_mult2_eq [of "3 * k + i" 3 15] that by simp
  show ?thesis using d [OF a(2)] d [of 0] k by simp
qed

lemma length_b64_ref:
  "off mod 3 = 0 \<Longrightarrow> xs \<noteq> [] \<Longrightarrow>
   length (b64_ref off xs) + 2 * ((off - 1) div 45) = 4 * ((length xs + 2) div 3) + 2 * ((off + length xs - 1) div 45)"
proof (induction off xs rule: b64_ref.induct)
  case (2 off a)
  then show ?case using div45_line [of off] by simp
next
  case (3 off a b)
  then show ?case using div45_line [of off] div45_group [of off 1] by simp
next
  case (4 off a b c xs)
  have g: "(off + 2) div 45 = off div 45" using div45_group [of off 2] 4(2) by simp
  show ?case
  proof (cases "xs = []")
    case True
    then show ?thesis using div45_line [of off] g by simp
  next
    case False
    have "length (b64_ref (off + 3) xs) + 2 * ((off + 3 - 1) div 45) = 4 * ((length xs + 2) div 3) + 2 * ((off + 3 + length xs - 1) div 45)"
      using False 4(2) by (intro 4(1)) simp_all
    moreover have "(length (a # b # c # xs) + 2) div 3 = Suc ((length xs + 2) div 3)" 
      using div_add_self1 [of 3 "length xs + 2"] by simp
    moreover have "off + 3 + length xs - 1 = off + length (a # b # c # xs) - 1" "off + 3 - 1 = off + 2" by simp_all
    ultimately show ?thesis using div45_line [of off] g by simp
  qed
qed simp

definition b64_size :: "nat \<Rightarrow> nat" where
  "b64_size n = 4 * ((n + 2) div 3) + 2 * ((n - 1) div 45)"

lemma length_b64_ref_0: "length (b64_ref 0 xs) = b64_size (length xs)"
  using length_b64_ref [of 0 xs] by (cases "xs = []") (auto simp: b64_size_def)

lemma b64_chr_nonzero: "unat q < 64 \<Longrightarrow> b64_chr q \<noteq> 0"
proof -
  assume "unat q < 64"
  moreover have "list_all (\<lambda>n. t_base64 ! n \<noteq> 0) [0..<64]" by (simp add: upt_conv_Cons t_base64_def)
  ultimately show ?thesis unfolding list_all_iff b64_chr_def by simp
qed

lemma b64_ref_nonzero: "0 \<notin> set (b64_ref off xs)"
  by (induction off xs rule: b64_ref.induct) (use b64_chr_nonzero q_small in \<open>auto simp: b64_line_def\<close>)

section \<open>Properties of the encoding\<close>

lemma encode_ref:
  assumes "sv = None \<or> (\<exists>bs. sv = Some (0 # bs))" "length xs < 2 ^ 32" "b64_size (length xs) \<le> T"
  shows "mmidm_base64Encode T (Some (xs @ r)) (length xs) 0 1 sv =
     Some (\<lparr>b_space = T - b64_size (length xs), b_out = b64_ref 0 xs, b_src = r, b_left = 0,
       b_off = word_of_nat (length xs), b_save = sv, b_isave = 1\<rparr>, Some (xs @ r))"
proof -
  let ?st = "\<lparr>b_space = T, b_out = [], b_src = xs @ r, b_left = length xs, b_off = 0, b_save = sv, b_isave = 1\<rparr>"
  have i: "b64_idle ?st" using assms(1) by (auto simp: b64_idle_def save_pending_def)
  have "b64_loop 1 ?st = Some (b64_written (b64_ref 0 xs) (length xs) ?st)"
    by (rule b64_loop_ref [OF i]) (use assms(2,3) length_b64_ref_0 in auto)
  then show ?thesis
    by (simp add: mmidm_base64Encode_def b64_keep_def b64_written_def length_b64_ref_0 split: option.split)
qed

text \<open>C10: What \<open>mmidm_base64Encode\<close> makes of a message in one call, given a target large enough,
  \<open>DM_Base64_decode\<close> turns back into the message, for messages of every length, and terminates it. The encoding has
  exactly \<open>b64_size\<close> characters, line breaks included.\<close>

theorem base64_round_trip:
  assumes "sv = None \<or> (\<exists>bs. sv = Some (0 # bs))" "length xs < 2 ^ 32" "b64_size (length xs) \<le> T"
    "length xs < destl" "destl \<le> length dest"
  shows "\<exists>st. mmidm_base64Encode T (Some xs) (length xs) 0 1 sv = Some (st, Some xs) \<and>
     length (b_out st) = b64_size (length xs) \<and>
     DM_Base64_decode (b_out st) dest destl = Some (int (length xs), xs @ 0 # drop (Suc (length xs)) dest)"
  using encode_ref [OF assms(1-3), of "[]"] decode_ref [OF assms(4,5)] length_b64_ref_0 by simp

theorem base64_round_trip_witness:
  "\<exists>st. mmidm_base64Encode 80 (Some (replicate 57 0xA5)) (length (replicate 57 (0xA5 :: u8))) 0 1 (Some [0, 0, 0, 0]) =
       Some (st, Some (replicate 57 0xA5)) \<and>
     length (b_out st) = b64_size (length (replicate 57 (0xA5 :: u8))) \<and>
     DM_Base64_decode (b_out st) (replicate 60 1) 58 =
       Some (int (length (replicate 57 (0xA5 :: u8))), replicate 57 0xA5 @ 0 # drop (Suc (length (replicate 57 (0xA5 :: u8)))) (replicate 60 1))"
  by (rule base64_round_trip) (simp_all add: b64_size_def)

text \<open>A longer message does not fit the 80 characters of the credentials.\<close>

lemma encode_cut:
  assumes "57 < n" "n \<le> length d" "n < 2 ^ 32"
  shows "\<exists>st d'. mmidm_base64Encode 80 (Some d) n 0 1 (Some (replicate 4 0)) = Some (st, Some d') \<and>
     b_out st = b64_ref 0 (take 57 d) \<and> length d' = length d"
proof -
  let ?st = "\<lparr>b_space = 80, b_out = [], b_src = d, b_left = n, b_off = 0, b_save = Some (replicate 4 0), b_isave = 1\<rparr>"
  let ?s = "b64_written (b64_ref 0 (take 57 d)) 57 ?st"
  have len: "length (take 57 d) = 57" using assms by simp
  then have z: "length (b64_ref 0 (take 57 d)) = 78" by (simp add: length_b64_ref_0 b64_size_def)
  have i: "b64_idle ?st" by (simp add: b64_idle_def save_pending_def numeral_eq_Suc)
  have "b64_loop 1 ?st = b64_loop 1 (b64_written (b64_ref 0 (take 57 d)) (length (take 57 d)) ?st)"
    by (rule b64_loop_groups [OF i, where r = "drop 57 d"]) (use assms len z in simp_all)
  also have "\<dots> = Some ?s" using len z by (simp add: b64_loop_stop [unfolded One_nat_def])
  finally have l: "b64_loop 1 ?st = Some ?s" .
  have k: "b64_keep 1 ?s = Some ?s" by (simp add: b64_keep_def)
  have r: "buf_read 0 (n - 57) (drop 57 d) = Some (take (n - 57) (drop 57 d))" using assms by (simp add: buf_read_def)
  have "length (take (n - 57) (drop 57 d)) \<le> length d" by simp
  then obtain d' where w: "buf_write 0 (take (n - 57) (drop 57 d)) d = Some d'"
    using buf_write_defined [of 0 "take (n - 57) (drop 57 d)" d] by (metis add_0)
  have "mmidm_base64Encode 80 (Some d) n 0 1 (Some (replicate 4 0)) = Some (?s, Some d')"
    using l k r w assms(1) unfolding mmidm_base64Encode_def Let_def by simp
  then show ?thesis using buf_write_length [OF w] by simp
qed

lemma encode_cred:
  assumes "0 < n" "n \<le> length d" "n < 2 ^ 32"
  shows "\<exists>st d'. mmidm_base64Encode 80 (Some d) n 0 1 (Some (replicate 4 0)) = Some (st, Some d') \<and>
     b_out st = b64_ref 0 (take (min n 57) d) \<and> length d' = length d"
proof (cases "57 < n")
  case True
  then show ?thesis using encode_cut [OF True assms(2,3)] by (simp add: min_def)
next
  case False
  have "b64_size n \<le> 80"
  proof -
    have "(n + 2) div 3 \<le> (57 + 2) div 3" "(n - 1) div 45 \<le> 56 div 45" using False by (intro div_le_mono; simp)+
    then show ?thesis by (simp add: b64_size_def)
  qed
  moreover have "Some (replicate 4 0) = None \<or> (\<exists>bs. Some (replicate 4 (0 :: u8)) = Some (0 # bs))" by (simp add: numeral_eq_Suc)
  moreover have "length (take n d) = n" "min n 57 = n" using assms(2) False by simp_all
  ultimately show ?thesis using encode_ref [of "Some (replicate 4 0)" "take n d" 80 "drop n d"] assms(3) by simp
qed

lemma b64_size_alloc: "b64_size (min n 57) + 1 \<le> 2 * n + 4"
proof -
  have a: "(min n 57 + 2) div 3 \<le> (n + 2) div 3" by (rule div_le_mono) simp
  have "(min n 57 - 1) div 45 \<le> 56 div 45" by (rule div_le_mono) simp
  then have b: "(min n 57 - 1) div 45 \<le> 1" by simp
  have z: "(min n 57 - 1) div 45 = 0" if "n \<le> 45" using that by simp
  have c: "3 * ((n + 2) div 3) \<le> n + 2" by simp
  show ?thesis
  proof (cases "n \<le> 45")
    case True
    then show ?thesis unfolding b64_size_def using a c z by linarith
  next
    case False
    then show ?thesis unfolding b64_size_def using a b c by linarith
  qed
qed

text \<open>C32: The credentials are a terminated string over the argument, and decoding the string gives back
  the first 57 bytes of the input at most: a longer one is cut without notice. The allocated buffer is always
  large enough; the argument must have room for the string.\<close>

theorem b64_cred_decodes:
  assumes "n = unat cbLength" "0 < n" "n < 2 ^ 31 - 2" "n \<le> length creddata" "m = min n 57" "b64_size m < length creddata"
    "m < destl" "destl \<le> length dest"
  shows "\<exists>out rest. mmidm_calc_b64_cred True creddata cbLength = Some (out @ 0 # rest) \<and> 0 \<notin> set out \<and>
     DM_Base64_decode out dest destl = Some (int m, take m creddata @ 0 # drop (Suc m) dest)"
proof -
  let ?out = "b64_ref 0 (take m creddata)"
  have m: "m \<le> length creddata" using assms(4,5) by simp
  then have len: "length ?out = b64_size m" by (simp add: length_b64_ref_0)
  obtain st d where e: "mmidm_base64Encode 80 (Some creddata) n 0 1 (Some (replicate 4 0)) = Some (st, Some d)"
    and o: "b_out st = ?out" and d: "length d = length creddata"
    using encode_cred [of n creddata] assms(2-5) by auto
  have u: "unat (cbLength * 2 + 4) = 2 * n + 4"
    using assms(1,3) by (simp add: unat_word_ariths)
  have "buf_write 0 (?out @ [0]) (replicate (2 * n + 4) (0 :: u8)) = Some (?out @ 0 # replicate (2 * n + 3 - length ?out) 0)"
    using b64_size_alloc [of n] assms(5) len by (simp add: buf_write_def)
  moreover have "buf_read 0 (length ?out) (?out @ 0 # replicate (2 * n + 3 - length ?out) 0) = Some ?out"
    by (simp add: buf_read_def)
  moreover have "buf_write 0 ?out d = Some (?out @ drop (length ?out) d)" using len d assms(6) by (simp add: buf_write_def)
  moreover have "buf_write (length ?out) [0] (?out @ drop (length ?out) d) = Some (?out @ 0 # drop (Suc (length ?out)) d)"
    using len d assms(6) by (simp add: buf_write_def)
  moreover have "cbLength \<noteq> 0" using assms(1,2) by auto
  ultimately have "mmidm_calc_b64_cred True creddata cbLength = Some (?out @ 0 # drop (Suc (length ?out)) d)"
    using e o u assms(1) by (simp add: mmidm_calc_b64_cred_def)
  moreover have "DM_Base64_decode ?out dest destl = Some (int m, take m creddata @ 0 # drop (Suc m) dest)"
    using decode_ref [of "take m creddata" destl dest 0] m assms(7,8) by simp
  ultimately show ?thesis using b64_ref_nonzero by blast
qed

theorem b64_cred_decodes_witness:
  "\<exists>out rest. mmidm_calc_b64_cred True (replicate 100 0x41) 60 = Some (out @ 0 # rest) \<and> 0 \<notin> set out \<and>
     DM_Base64_decode out (replicate 100 0) 100 = Some (int 57, take 57 (replicate 100 0x41) @ 0 # drop (Suc 57) (replicate 100 0))"
  by (rule b64_cred_decodes [of 60]) (simp_all add: b64_size_def)

section \<open>Blocks\<close>

text \<open>A block of one byte that is not the last overwrites the two bytes kept from the block before.\<close>

lemma short_block_loses:
  "map_option (\<lambda>(st, d). (b_out st, b_left st, b_save st)) (mmidm_base64Encode T (Some [x]) 1 off 0 (Some [2, a, b, c])) =
     Some ([], 0, Some [1, x, b, c])"
  by (simp add: mmidm_base64Encode_def b64_loop.simps b64_more_def b64_keep_def buf_read_def buf_write_def)

lemma t_base64_0: "t_base64 ! 0 = 0x41"
  by (simp add: t_base64_def)

text \<open>The last call without data encodes two bytes even if one was kept, without padding, and leaves the
  count at 255.\<close>

lemma null_block_one:
  "map_option (\<lambda>(st, d). (b_out st, b_save st)) (mmidm_base64Encode T None 0 0 1 (Some [1, a, b, c])) =
     Some ([b64_chr (q0 a), b64_chr (q1 a b), b64_chr (q2 b 0), 0x41], Some [255, a, b, c])"
  by (simp add: t_base64_0 mmidm_base64Encode_def b64_flush_def save_pending_def b64_line_end_def fetch_save_def b64_count_def
      b64_keep_def b64_put_def Let_def group_indices b64_chr_def del: push_bit_and drop_bit_and)

end
