(* ===== verification/Dm_Num.thy ===== *)
theory Dm_Num
  imports Sprd_Prelude
begin

text \<open>
  The number conversions of the device management client, \<open>MMIDM_atoIU32\<close> and \<open>MMIDM_IU32toa\<close>
  of \<open>libs/libdm/src/sprd_dm_md5_b64.c\<close>. A string is the list of the bytes of its buffer, characters
  are their codes; a read or a write outside the buffer makes the result \<^const>\<open>None\<close>. The locale
  \<open>digit_codec\<close> is the contract between the printing and the parsing loops of one radix, the
  interpretations \<open>dec\<close> and \<open>hex\<close> are the two the code has.
\<close>

unbundle bit_operations_syntax

section \<open>Parsing\<close>

text \<open>A loop reads the string character by character and returns the value, the number of digits, an
  \<open>int16\<close>, and the character it stopped at; \<^const>\<open>None\<close> is a read past the end of the buffer.\<close>

definition MAX_IU32_DIV_TEN :: u32 where "MAX_IU32_DIV_TEN = 0xffffffff div 10"

definition MAX_IU32_MOD_TEN :: u32 where "MAX_IU32_MOD_TEN = 0xffffffff mod 10"

definition maxLastDigit :: u8 where "maxLastDigit = 0x30 + ucast MAX_IU32_MOD_TEN"

fun atoIU32_dec :: "u32 \<Rightarrow> u16 \<Rightarrow> bytes \<Rightarrow> (u32 \<times> u16 \<times> u8) option" where
  "atoIU32_dec myVal digitsParsed [] = None"
| "atoIU32_dec myVal digitsParsed (nextChr # string) =
     (if 0x30 \<le> nextChr \<and> nextChr \<le> 0x39 then
        if myVal > MAX_IU32_DIV_TEN \<or> myVal = MAX_IU32_DIV_TEN \<and> nextChr > maxLastDigit
        then Some (myVal, digitsParsed, nextChr)
        else atoIU32_dec (myVal * 10 + ucast (nextChr - 0x30)) (digitsParsed + 1) string
      else Some (myVal, digitsParsed, nextChr))"

definition hexVal :: "u8 \<Rightarrow> u32 option" where
  "hexVal cVal =
     (if 0x30 \<le> cVal \<and> cVal \<le> 0x39 then Some (ucast (cVal - 0x30))
      else if 0x41 \<le> cVal \<and> cVal \<le> 0x46 then Some (ucast (cVal - 0x41 + 10))
      else if 0x61 \<le> cVal \<and> cVal \<le> 0x66 then Some (ucast (cVal - 0x61 + 10))
      else None)"

fun atoIU32_hex :: "u32 \<Rightarrow> u16 \<Rightarrow> bytes \<Rightarrow> (u32 \<times> u16 \<times> u8) option" where
  "atoIU32_hex myVal digitsParsed [] = None"
| "atoIU32_hex myVal digitsParsed (cVal # string) =
     (if cVal = 0 then Some (myVal, digitsParsed, cVal)
      else case hexVal cVal of
        None \<Rightarrow> Some (myVal, digitsParsed, cVal)
      | Some d \<Rightarrow>
          (if sint digitsParsed > 8 then Some (push_bit 4 myVal OR d, digitsParsed + 1, cVal)
           else atoIU32_hex (push_bit 4 myVal OR d) (digitsParsed + 1) string))"

fun skip_hex_prefix :: "bytes \<Rightarrow> bytes option" where
  "skip_hex_prefix [] = None"
| "skip_hex_prefix [c] = (if c = 0x30 then None else Some [c])"
| "skip_hex_prefix (c # x # string) =
     (if c = 0x30 \<and> (x = 0x78 \<or> x = 0x58) then Some string else Some (c # x # string))"

text \<open>The result is the value and what is stored through \<open>success\<close>, which a call with a null
  string leaves alone.\<close>

definition MMIDM_atoIU32 :: "bytes option \<Rightarrow> u8 \<Rightarrow> (u32 \<times> bool option) option" where
  "MMIDM_atoIU32 string radix =
     (case string of
        None \<Rightarrow> Some (0, None)
      | Some s \<Rightarrow>
          if radix = 10 then
            do { (myVal, digitsParsed, nextChr) \<leftarrow> atoIU32_dec 0 0 s;
                 Some (myVal, Some (nextChr = 0 \<and> 0 < sint digitsParsed)) }
          else
            do { s' \<leftarrow> skip_hex_prefix s;
                 (myVal, digitsParsed, cVal) \<leftarrow> atoIU32_hex 0 0 s';
                 Some (myVal, Some (0 < sint digitsParsed \<and> sint digitsParsed < 9 \<and> cVal = 0)) })"

section \<open>Printing\<close>

text \<open>The two loops of a branch count the digits and then write them from the last to the first.\<close>

function hex_digits :: "u32 \<Rightarrow> nat" where
  "hex_digits v = (let v = drop_bit 4 v in if v \<noteq> 0 then 1 + hex_digits v else 1)"
  by auto
termination
proof (relation "measure unat")
  fix v x :: u32
  assume x: "x = drop_bit 4 v" and nz: "x \<noteq> 0"
  have u: "unat x = unat v div 16" unfolding x by (rule trans [OF unat_drop_bit_eq]) (simp add: drop_bit_eq_div)
  have "unat x \<noteq> 0" using nz by (simp add: unat_eq_0)
  then show "(x, v) \<in> measure unat" using u by simp
qed simp

function dec_digits :: "u32 \<Rightarrow> nat" where
  "dec_digits v = (let v = v div 10 in if v \<noteq> 0 then 1 + dec_digits v else 1)"
  by auto
termination
proof (relation "measure unat")
  fix v x :: u32
  assume x: "x = v div 10" and nz: "x \<noteq> 0"
  have u: "unat x = unat v div 10" unfolding x by (simp add: unat_div)
  have "unat x \<noteq> 0" using nz by (simp add: unat_eq_0)
  then show "(x, v) \<in> measure unat" using u by simp
qed simp

definition hex_char :: "u32 \<Rightarrow> u8" where
  "hex_char value =
     (let ch = 0x30 + ucast (value AND 0xF) in if ch > 0x39 then ch + 0x41 - (0x39 + 1) else ch)"

fun write_hex :: "nat \<Rightarrow> u32 \<Rightarrow> bytes \<Rightarrow> bytes option" where
  "write_hex 0 value string = Some string"
| "write_hex (Suc i) value string =
     do { string' \<leftarrow> buf_write i [hex_char value] string; write_hex i (drop_bit 4 value) string' }"

fun write_dec :: "nat \<Rightarrow> u32 \<Rightarrow> bytes \<Rightarrow> bytes option" where
  "write_dec 0 value string = Some string"
| "write_dec (Suc i) value string =
     do { string' \<leftarrow> buf_write i [0x30 + ucast (value mod 10)] string; write_dec i (value div 10) string' }"

definition MMIDM_IU32toa :: "u32 \<Rightarrow> bytes option \<Rightarrow> u32 \<Rightarrow> bytes option option" where
  "MMIDM_IU32toa value string radix =
     (case string of
        None \<Rightarrow> Some None
      | Some s \<Rightarrow>
          map_option Some
            (if radix = 16 then
               do { s' \<leftarrow> buf_write (hex_digits value) [0] s; write_hex (hex_digits value) value s' }
             else
               do { s' \<leftarrow> buf_write (dec_digits value) [0] s; write_dec (dec_digits value) value s' }))"

section \<open>Positional notation\<close>

fun digs :: "nat \<Rightarrow> nat \<Rightarrow> nat \<Rightarrow> nat list" where
  "digs b 0 n = []"
| "digs b (Suc k) n = digs b k (n div b) @ [n mod b]"

definition undigs :: "nat \<Rightarrow> nat \<Rightarrow> nat list \<Rightarrow> nat" where
  "undigs b = foldl (\<lambda>a x. a * b + x)"

lemma length_digs [simp]: "length (digs b k n) = k"
  by (induction k arbitrary: n) auto

lemma digs_less: "0 < b \<Longrightarrow> x \<in> set (digs b k n) \<Longrightarrow> x < b"
  by (induction k arbitrary: n) auto

lemma undigs_digs: "n < b ^ k \<Longrightarrow> undigs b 0 (digs b k n) = n"
proof (induction k arbitrary: n)
  case (Suc k)
  then have "n div b < b ^ k" by (simp add: less_mult_imp_div_less mult.commute)
  then show ?case using Suc.IH by (simp add: undigs_def)
qed (simp add: undigs_def)

lemma undigs_Cons [simp]: "undigs b a (x # xs) = undigs b (a * b + x) xs"
  by (simp add: undigs_def)

lemma undigs_Nil [simp]: "undigs b a [] = a"
  by (simp add: undigs_def)

lemma undigs_ge: "0 < b \<Longrightarrow> a \<le> undigs b a xs"
proof (induction xs arbitrary: a)
  case (Cons x xs)
  have "a \<le> a * b" using Cons.prems by simp
  also have "\<dots> \<le> a * b + x" by simp
  also have "\<dots> \<le> undigs b (a * b + x) xs" using Cons by blast
  finally show ?case by simp
qed simp

lemma unat_less_u32: "unat (v :: u32) < 2 ^ 32"
  using unsigned_less [of v, where 'a = nat] by simp

lemma unat_word_of_nat_u32: "n < 2 ^ 32 \<Longrightarrow> unat (word_of_nat n :: u32) = n"
  by (simp only: unat_of_nat) (simp add: take_bit_nat_eq_self)

text \<open>What the loops of one radix are to each other: the printing loop writes the digits of the value
  from the last to the first, the counting loop counts them, and the parsing loop takes a digit as long as the
  value fits the word and no more than \<open>lim\<close> digits were read.\<close>

locale digit_codec =
  fixes b lim :: nat and chr :: "nat \<Rightarrow> u8"
    and counter :: "u32 \<Rightarrow> nat"
    and printer :: "nat \<Rightarrow> u32 \<Rightarrow> bytes \<Rightarrow> bytes option"
    and parser :: "u32 \<Rightarrow> u16 \<Rightarrow> bytes \<Rightarrow> (u32 \<times> u16 \<times> u8) option"
  assumes base: "1 < b" "2 ^ 32 \<le> b ^ lim" "lim < 2 ^ 15"
    and counter: "counter v = (if unat v div b = 0 then 1 else 1 + counter (word_of_nat (unat v div b)))"
    and printer_0: "printer 0 v s = Some s"
    and printer_Suc: "printer (Suc i) v s =
      Option.bind (buf_write i [chr (unat v mod b)] s) (printer i (word_of_nat (unat v div b)))"
    and parser_end: "parser v d (0 # s) = Some (v, d, 0)"
    and parser_digit: "x < b \<Longrightarrow> unat v * b + x < 2 ^ 32 \<Longrightarrow> unat d < lim \<Longrightarrow>
      parser v d (chr x # s) = parser (word_of_nat (unat v * b + x)) (d + 1) s"
begin

lemma unat_quotient: "unat (word_of_nat (unat (v :: u32) div b) :: u32) = unat v div b"
  by (rule unat_word_of_nat_u32) (rule le_less_trans [OF div_le_dividend unat_less_u32])

lemma printer_digits: "k \<le> length s \<Longrightarrow> printer k v s = Some (map chr (digs b k (unat v)) @ drop k s)"
proof (induction k arbitrary: v s)
  case (Suc k)
  then have "buf_write k [chr (unat v mod b)] s = Some (take k s @ chr (unat v mod b) # drop (Suc k) s)"
    by (simp add: buf_write_def)
  then show ?case using Suc by (simp add: printer_Suc unat_quotient)
qed (simp add: printer_0)

lemma counter_bounds: "0 < counter v \<and> unat v < b ^ counter v \<and> (unat v < b ^ Suc k \<longrightarrow> counter v \<le> Suc k)"
proof (induction "unat v" arbitrary: v k rule: less_induct)
  case less
  show ?case
  proof (cases "unat v div b = 0")
    case True
    then have "counter v = 1" by (subst counter) simp
    moreover have "unat v < b" using True base(1) by (simp add: div_eq_0_iff)
    ultimately show ?thesis by simp
  next
    case False
    let ?w = "word_of_nat (unat v div b) :: u32"
    have c: "counter v = 1 + counter ?w" using False by (subst counter) simp
    have "unat ?w < unat v" using False base(1) unfolding unat_quotient by (cases "unat v = 0") auto
    note ih = less [OF this]
    have "unat v div b < b ^ counter ?w" using ih unfolding unat_quotient by blast
    then have "unat v < b ^ counter ?w * b" using base(1) by (simp add: div_less_iff_less_mult)
    moreover have "counter v \<le> Suc k" if "unat v < b ^ Suc k"
    proof (cases k)
      case 0
      then show ?thesis using that False by simp
    next
      case (Suc j)
      then have "unat v div b < b ^ Suc j" using that by (simp add: less_mult_imp_div_less ac_simps)
      then show ?thesis using ih [of j] Suc unfolding unat_quotient c by simp
    qed
    ultimately show ?thesis using c by (simp add: mult.commute)
  qed
qed

lemma counter_le: "counter v \<le> lim"
proof -
  have "unat v < 2 ^ 32" by (rule unat_less_u32)
  then have "unat v < b ^ lim" using base(2) by linarith
  moreover obtain k where "lim = Suc k" using base(2) by (cases lim) auto
  ultimately show ?thesis using counter_bounds [of v k] by simp
qed

lemma parser_digits:
  "\<lbrakk>list_all (\<lambda>x. x < b) ds; undigs b (unat v) ds < 2 ^ 32; unat d + length ds \<le> lim\<rbrakk> \<Longrightarrow>
   parser v d (map chr ds @ 0 # s) = Some (word_of_nat (undigs b (unat v) ds), d + word_of_nat (length ds), 0)"
proof (induction ds arbitrary: v d)
  case Nil
  then show ?case by (simp add: parser_end)
next
  case (Cons x ds)
  let ?w = "word_of_nat (unat v * b + x) :: u32"
  have n: "unat v * b + x < 2 ^ 32"
    using Cons.prems(2) undigs_ge [of b "unat v * b + x" ds] base(1) by simp
  have w: "unat ?w = unat v * b + x" using n by (rule unat_word_of_nat_u32)
  have "unat (d + 1) = unat d + 1" using Cons.prems(3) base(3) by (simp add: unat_word_ariths)
  then show ?case using Cons n w by (simp add: parser_digit ac_simps)
qed

text \<open>The text of a value, and the parsed text.\<close>

lemma printed_text:
  assumes "counter v < length s"
  shows "Option.bind (buf_write (counter v) [0] s) (printer (counter v) v) =
     Some (map chr (digs b (counter v) (unat v)) @ 0 # drop (Suc (counter v)) s)"
  using assms by (simp add: buf_write_def printer_digits)

lemma parsed_text:
  "parser 0 0 (map chr (digs b (counter v) (unat v)) @ 0 # s) = Some (v, word_of_nat (counter v), 0)"
proof -
  have "list_all (\<lambda>x. x < b) (digs b (counter v) (unat v))" using base(1) digs_less [of b] by (auto simp: list_all_iff)
  moreover have "undigs b 0 (digs b (counter v) (unat v)) = unat v" using counter_bounds by (blast intro: undigs_digs)
  moreover note unat_less_u32 [of v]
  ultimately show ?thesis using parser_digits [of "digs b (counter v) (unat v)" 0 0 s] counter_le by simp
qed

lemma count_sint: "sint (word_of_nat (counter v) :: u16) = int (counter v)"
proof -
  have "counter v < 2 ^ 15" using counter_le [of v] base(3) by linarith
  then show ?thesis by (simp add: sint_uint uint_nat unat_of_nat take_bit_nat_eq_self signed_take_bit_int_eq_self)
qed

end

section \<open>The two radixes\<close>

definition digit_char :: "nat \<Rightarrow> u8" where
  "digit_char x = (if x < 10 then 0x30 + word_of_nat x else 0x37 + word_of_nat x)"

lemma digit_char_range:
  assumes "x < 10"
  shows "0x30 \<le> digit_char x" "digit_char x \<le> 0x39" "digit_char x - 0x30 = word_of_nat x"
    "maxLastDigit < digit_char x \<longleftrightarrow> 5 < x" "digit_char x = 0x30 + word_of_nat x"
proof -
  have "list_all (\<lambda>x. 0x30 \<le> digit_char x \<and> digit_char x \<le> 0x39 \<and> digit_char x - 0x30 = word_of_nat x \<and>
      (maxLastDigit < digit_char x \<longleftrightarrow> 5 < x)) [0..<10]"
    by (simp add: upt_conv_Cons digit_char_def maxLastDigit_def MAX_IU32_MOD_TEN_def)
  then show "0x30 \<le> digit_char x" "digit_char x \<le> 0x39" "digit_char x - 0x30 = word_of_nat x"
    "maxLastDigit < digit_char x \<longleftrightarrow> 5 < x"
    using assms unfolding list_all_iff by simp_all
qed (simp add: assms digit_char_def)

lemma ucast_u8_u32: "x < 256 \<Longrightarrow> ucast (word_of_nat x :: u8) = (word_of_nat x :: u32)"
proof -
  assume "x < 256"
  then have "unat (word_of_nat x :: u8) = x" by (simp add: unat_of_nat take_bit_nat_eq_self)
  then show ?thesis using of_nat_unat [of "word_of_nat x :: u8"] by metis
qed

lemma ucast_u32_u8: "ucast (v :: u32) = (word_of_nat (unat v) :: u8)"
  by simp

lemma unat_quot_rem:
  "v div 10 = (word_of_nat (unat v div 10) :: u32)" "drop_bit 4 v = (word_of_nat (unat v div 16) :: u32)"
  "ucast (v mod 10) = (word_of_nat (unat v mod 10) :: u8)" "ucast (v AND 0xF) = (word_of_nat (unat v mod 16) :: u8)"
proof -
  have d: "unat v div n < 2 ^ 32" for n by (rule le_less_trans [OF div_le_dividend unat_less_u32])
  show "v div 10 = word_of_nat (unat v div 10)"
    unfolding word_unat_eq_iff unat_word_of_nat_u32 [OF d] by (simp add: unat_div)
  show "drop_bit 4 v = (word_of_nat (unat v div 16) :: u32)"
    unfolding word_unat_eq_iff unat_word_of_nat_u32 [OF d] trans [OF unat_drop_bit_eq drop_bit_eq_div] by simp
  show "ucast (v mod 10) = (word_of_nat (unat v mod 10) :: u8)"
    unfolding ucast_u32_u8 by (simp only: unat_mod) simp
  have "v AND 0xF = take_bit 4 v" by (simp add: take_bit_eq_mask mask_eq_exp_minus_1)
  moreover have "unat (take_bit 4 v) = unat v mod 16" by (simp add: unsigned_take_bit_eq take_bit_eq_mod unat_mod)
  ultimately show "ucast (v AND 0xF) = (word_of_nat (unat v mod 16) :: u8)" unfolding ucast_u32_u8 by metis
qed

lemma hex_char_digit: "hex_char v = digit_char (unat v mod 16)"
proof -
  have "list_all (\<lambda>x. (let ch = 0x30 + word_of_nat x :: u8 in if ch > 0x39 then ch + 0x41 - (0x39 + 1) else ch) = digit_char x) [0..<16]"
    by (simp add: upt_conv_Cons digit_char_def)
  then show ?thesis unfolding hex_char_def unat_quot_rem list_all_iff by simp
qed

lemma hexVal_digit: "x < 16 \<Longrightarrow> hexVal (digit_char x) = Some (word_of_nat x) \<and> digit_char x \<noteq> 0"
proof -
  have "list_all (\<lambda>x. hexVal (digit_char x) = Some (word_of_nat x) \<and> digit_char x \<noteq> 0) [0..<16]"
    by (simp add: upt_conv_Cons digit_char_def hexVal_def)
  then show "x < 16 \<Longrightarrow> hexVal (digit_char x) = Some (word_of_nat x) \<and> digit_char x \<noteq> 0"
    unfolding list_all_iff by simp
qed


lemma shift_in_digit:
  assumes "x < 16"
  shows "push_bit 4 v OR word_of_nat x = (word_of_nat (unat (v :: u32) * 16 + x) :: u32)"
proof -
  have "\<not> bit (word_of_nat x :: u32) n" if "4 \<le> n" for n
  proof -
    have "(2 :: nat) ^ 4 \<le> 2 ^ n" using that by (rule power_increasing) simp
    then have "x < 2 ^ n" using assms by simp
    then have "\<not> bit x n" by (simp add: bit_iff_odd)
    then show ?thesis by (simp add: bit_simps)
  qed
  then have "push_bit 4 v OR word_of_nat x = push_bit 4 v + word_of_nat x"
    by (intro disjunctive_add [symmetric]) (auto simp: bit_simps)
  then show ?thesis by (simp add: push_bit_eq_mult)
qed

lemma unat_quotient_10: "unat (word_of_nat (unat (v :: u32) div 10) :: u32) = unat v div 10"
  and unat_quotient_16: "unat (word_of_nat (unat (v :: u32) div 16) :: u32) = unat v div 16"
  by (rule unat_word_of_nat_u32, rule le_less_trans [OF div_le_dividend unat_less_u32])+

interpretation dec: digit_codec 10 10 digit_char dec_digits write_dec atoIU32_dec
proof
  fix v :: u32 and d :: u16 and s :: bytes and i x :: nat
  show "dec_digits v = (if unat v div 10 = 0 then 1 else 1 + dec_digits (word_of_nat (unat v div 10)))"
    by (subst dec_digits.simps) (simp add: unat_quot_rem Let_def word_unat_eq_iff unat_quotient_10)
  show "write_dec (Suc i) v s = Option.bind (buf_write i [digit_char (unat v mod 10)] s) (write_dec i (word_of_nat (unat v div 10)))"
    by (simp add: unat_quot_rem digit_char_range)
  show "atoIU32_dec v d (digit_char x # s) = atoIU32_dec (word_of_nat (unat v * 10 + x)) (d + 1) s"
    if "x < 10" "unat v * 10 + x < 2 ^ 32" 
  proof -
    have "unat MAX_IU32_DIV_TEN = 429496729" by (simp add: MAX_IU32_DIV_TEN_def)
    then have "\<not> MAX_IU32_DIV_TEN < v \<and> (v = MAX_IU32_DIV_TEN \<longrightarrow> \<not> 5 < x)"
      using that by (auto simp: word_less_nat_alt)
    moreover have "v * 10 + ucast (digit_char x - 0x30) = word_of_nat (unat v * 10 + x)"
      using that(1) by (simp add: digit_char_range ucast_u8_u32)
    ultimately show ?thesis using digit_char_range [OF that(1)] by auto
  qed
qed simp_all

interpretation hex: digit_codec 16 8 digit_char hex_digits write_hex atoIU32_hex
proof
  fix v :: u32 and d :: u16 and s :: bytes and i x :: nat
  show "hex_digits v = (if unat v div 16 = 0 then 1 else 1 + hex_digits (word_of_nat (unat v div 16)))"
    by (subst hex_digits.simps) (simp add: unat_quot_rem Let_def word_unat_eq_iff unat_quotient_16)
  show "write_hex (Suc i) v s = Option.bind (buf_write i [digit_char (unat v mod 16)] s) (write_hex i (word_of_nat (unat v div 16)))"
    by (simp add: unat_quot_rem hex_char_digit)
  show "atoIU32_hex v d (digit_char x # s) = atoIU32_hex (word_of_nat (unat v * 16 + x)) (d + 1) s"
    if "x < 16" "unat d < 8"
  proof -
    have "int (unat d) < 8" using that(2) by linarith
    then have "uint d < 8" by simp
    then have "signed_take_bit 15 (uint d) = uint d" 
      using order_trans [of "- (2 ^ 15)" 0 "uint d"] by (intro signed_take_bit_int_eq_self) simp_all
    then have "sint d = uint d" by (simp add: sint_uint)
    then have "\<not> 8 < sint d" using \<open>uint d < 8\<close> by linarith
    then show ?thesis using hexVal_digit [OF that(1)] unfolding shift_in_digit [OF that(1), of v, symmetric] by simp
  qed
qed simp_all


section \<open>Printing and parsing a number\<close>

lemma skip_hex_prefix_digits:
  assumes "ds \<noteq> []" "list_all (\<lambda>x. x < 16) ds"
  shows "skip_hex_prefix (map digit_char ds @ 0 # s) = Some (map digit_char ds @ 0 # s)"
proof -
  have "list_all (\<lambda>x. digit_char x \<noteq> 0x78 \<and> digit_char x \<noteq> 0x58) [0..<16]"
    by (simp add: upt_conv_Cons digit_char_def)
  then have "digit_char x \<noteq> 0x78 \<and> digit_char x \<noteq> 0x58" if "x < 16" for x
    using that unfolding list_all_iff by simp
  then show ?thesis using assms by (cases ds; cases "tl ds") (auto simp: neq_Nil_conv)
qed

lemma printed_number:
  fixes v :: u32 and radix :: u8
  assumes "radix = 10 \<or> radix = 16" "11 \<le> length s"
  defines "b \<equiv> unat radix" and "n \<equiv> if radix = 10 then dec_digits v else hex_digits v"
  shows "MMIDM_IU32toa v (Some s) (ucast (radix :: u8)) = Some (Some (map digit_char (digs b n (unat v)) @ 0 # drop (Suc n) s))"
  using assms(1)
proof
  assume r: "radix = 10"
  have "dec_digits v < length s" using dec.counter_le [of v] assms(2) by simp
  then show ?thesis using r dec.printed_text [of v s] unfolding MMIDM_IU32toa_def b_def n_def by simp
next
  assume r: "radix = 16"
  have "hex_digits v < length s" using hex.counter_le [of v] assms(2) by simp
  then show ?thesis using r hex.printed_text [of v s] unfolding MMIDM_IU32toa_def b_def n_def by simp
qed

lemma parsed_number:
  fixes v :: u32 and radix :: u8
  assumes "radix = 10 \<or> radix = 16"
  defines "b \<equiv> unat radix" and "n \<equiv> if radix = 10 then dec_digits v else hex_digits v"
  shows "MMIDM_atoIU32 (Some (map digit_char (digs b n (unat v)) @ 0 # s)) radix = Some (v, Some True)"
  using assms(1)
proof
  assume r: "radix = 10"
  show ?thesis using r dec.parsed_text [of v s] dec.count_sint [of v] dec.counter_bounds [of v]
    unfolding MMIDM_atoIU32_def b_def n_def by simp
next
  assume r: "radix = 16"
  let ?ds = "digs 16 (hex_digits v) (unat v)"
  have p: "0 < hex_digits v" "hex_digits v \<le> 8" using hex.counter_bounds [of v] hex.counter_le [of v] by auto
  have "length ?ds \<noteq> 0" using p by simp
  then have "skip_hex_prefix (map digit_char ?ds @ 0 # s) = Some (map digit_char ?ds @ 0 # s)"
    using digs_less [of 16] by (intro skip_hex_prefix_digits) (auto simp: list_all_iff simp del: length_digs)
  then show ?thesis using r hex.parsed_text [of v s] hex.count_sint [of v] p
    unfolding MMIDM_atoIU32_def b_def n_def by simp
qed

text \<open>C40: A number that \<open>MMIDM_IU32toa\<close> prints into a buffer of eleven bytes or more, in radix
  10 or 16, is read back by \<open>MMIDM_atoIU32\<close> as the same number, and reported as a success.\<close>

theorem number_round_trip:
  assumes "radix = 10 \<or> radix = 16" "11 \<le> length s"
  shows "\<exists>t. MMIDM_IU32toa v (Some s) (ucast (radix :: u8)) = Some (Some t) \<and> length t = length s \<and>
     MMIDM_atoIU32 (Some t) radix = Some (v, Some True)"
proof -
  let ?n = "if radix = 10 then dec_digits v else hex_digits v"
  have "?n \<le> 10" using dec.counter_le [of v] hex.counter_le [of v] by simp
  then show ?thesis using printed_number [OF assms, of v] parsed_number [OF assms(1), of v] assms(2) by simp
qed

theorem number_round_trip_witness:
  "\<exists>t. MMIDM_IU32toa 0xDEADBEEF (Some (replicate 11 7)) (ucast (16 :: u8)) = Some (Some t) \<and> length t = length (replicate 11 (7 :: u8)) \<and>
     MMIDM_atoIU32 (Some t) 16 = Some (0xDEADBEEF, Some True)"
  by (rule number_round_trip) simp_all

section \<open>Which decimal numbers are accepted\<close>

lemma decimal_step:
  assumes "x < 10"
  shows "atoIU32_dec v d (digit_char x # s) =
     (if unat v * 10 + x < 2 ^ 32 then atoIU32_dec (word_of_nat (unat v * 10 + x)) (d + 1) s
      else Some (v, d, digit_char x))"
proof -
  have "unat MAX_IU32_DIV_TEN = 429496729" by (simp add: MAX_IU32_DIV_TEN_def)
  then have "(MAX_IU32_DIV_TEN < v \<or> v = MAX_IU32_DIV_TEN \<and> 5 < x) \<longleftrightarrow> \<not> unat v * 10 + x < 2 ^ 32"
    using assms by (auto simp: word_less_nat_alt word_unat_eq_iff)
  moreover have "v * 10 + ucast (digit_char x - 0x30) = word_of_nat (unat v * 10 + x)"
    using assms by (simp add: digit_char_range ucast_u8_u32)
  ultimately show ?thesis using digit_char_range [OF assms] by auto
qed

lemma decimal_digits:
  "list_all (\<lambda>x. x < 10) ds \<Longrightarrow>
   \<exists>w d' c. atoIU32_dec v d (map digit_char ds @ 0 # s) = Some (w, d', c) \<and>
     (if undigs 10 (unat v) ds < 2 ^ 32 then unat w = undigs 10 (unat v) ds \<and> d' = d + word_of_nat (length ds) \<and> c = 0
      else c \<noteq> 0)"
proof (induction ds arbitrary: v d)
  case Nil
  then show ?case using unat_less_u32 [of v] by simp
next
  case (Cons x ds)
  then have x: "x < 10" and ds: "list_all (\<lambda>x. x < 10) ds" by auto
  show ?case
  proof (cases "unat v * 10 + x < 2 ^ 32")
    case True
    then have "atoIU32_dec v d (map digit_char (x # ds) @ 0 # s) =
        atoIU32_dec (word_of_nat (unat v * 10 + x)) (d + 1) (map digit_char ds @ 0 # s)"
      unfolding list.map append_Cons decimal_step [OF x] by (rule if_P)
    moreover have "d + 1 + word_of_nat (length ds) = d + word_of_nat (length (x # ds))" by (simp add: ac_simps)
    moreover note Cons.IH [OF ds, of "word_of_nat (unat v * 10 + x)" "d + 1", unfolded unat_word_of_nat_u32 [OF True]]
    ultimately show ?thesis unfolding undigs_Cons by metis
  next
    case False
    moreover have "unat v * 10 + x \<le> undigs 10 (unat v * 10 + x) ds" by (rule undigs_ge) simp
    ultimately have "\<not> undigs 10 (unat v) (x # ds) < 2 ^ 32" by simp
    then show ?thesis using False decimal_step [OF x, of v d "map digit_char ds @ 0 # s"] hexVal_digit [of x] x
      by (simp del: undigs_Cons)
  qed
qed

text \<open>A terminated string of one to 32767 decimal digits, leading zeros included, is accepted
  exactly if its value fits 32 bits, and then it is the value returned.\<close>

theorem decimal_accepted:
  assumes "list_all (\<lambda>x. x < 10) ds" "0 < length ds" "length ds < 2 ^ 15"
  shows "\<exists>w. MMIDM_atoIU32 (Some (map digit_char ds @ 0 # s)) 10 = Some (w, Some (undigs 10 0 ds < 2 ^ 32)) \<and>
     (undigs 10 0 ds < 2 ^ 32 \<longrightarrow> unat w = undigs 10 0 ds)"
proof -
  obtain w d' c where a: "atoIU32_dec 0 0 (map digit_char ds @ 0 # s) = Some (w, d', c)"
    and r: "if undigs 10 0 ds < 2 ^ 32 then unat w = undigs 10 0 ds \<and> d' = word_of_nat (length ds) \<and> c = 0 else c \<noteq> 0"
    using decimal_digits [OF assms(1), of 0 0 s] by auto
  have "sint (word_of_nat (length ds) :: u16) = int (length ds)"
    using assms(3) by (simp add: sint_uint uint_nat unat_of_nat take_bit_nat_eq_self signed_take_bit_int_eq_self)
  then show ?thesis using a r assms(2) by (auto simp: MMIDM_atoIU32_def split: if_splits)
qed

theorem decimal_accepted_witness:
  "\<exists>w. MMIDM_atoIU32 (Some [0x30, 0x34, 0x32, 0, 0x39]) 10 = Some (w, Some True) \<and> unat w = 42"
  using decimal_accepted [of "[0, 4, 2]" "[0x39]"] by (simp add: digit_char_def)

end
