(* ===== verification/Spec2Isabelle.thy ===== *)
theory Spec2Isabelle
  imports Mc_Download Mc_Manager Wcn_Clients Wcn_Mac Eng_Vdiag Nv_Server Cmr_Msg Dm_Md5 Dm_Base64 Dm_Num
begin

text \<open>
  \<^bold>\<open>Verification of native daemons and libraries of the Spreadtrum open-source vendor tree\<close>

  The tree holds the user space of a phone platform with an application processor, a modem processor and a
  coprocessor CP2 for WiFi, Bluetooth and FM. This development models, function by function, daemons and library
  parts written in C, and proves what they promise. Paths below are relative to \<open>src/\<close>.

  \<^bold>\<open>The parts and how they interact.\<close>

  \<^item> The modem manager (\<open>apps/modem_control\<close>). \<open>main.c\<close> polls the state file of the modem; when the modem has crashed or
    asks for it, \<open>modem_boot.c\<close> boots it: a loader goes over the UART, the other images over SPI, in the packets of
    \<open>packet.c\<close>, guarded by the codes of \<open>crc16.c\<close> and \<open>fdl_crc.h\<close>. Clients on a local socket are told about the modem.
  \<^item> The NV daemon (\<open>apps/nvitem\<close>). It keeps the non-volatile memory of the modem. The modem writes sectors in requests
    over a pipe (\<open>nvitem_sync.c\<close>, \<open>nvitem_packet.c\<close>, \<open>nvitem_channe_spipe.c\<close>), which go through the buffers of
    \<open>nvitem_buf.c\<close> to two image files (\<open>nvitem_fs.c\<close>) that a save task writes.
  \<^item> The WCN daemon (\<open>apps/wcnd\<close>). It watches the coprocessor, resets it on command, tells its clients, runs the
    commands of clients and writes the addresses of WiFi and Bluetooth.
  \<^item> The engineering mode (\<open>apps/engmode\<close>). A thread (\<open>vdiag.c\<close>) takes diagnosis frames from the serial port; \<open>eng_diag.c\<close> judges each
    of them by its header, its AT command (\<open>eng_attok.c\<close>, \<open>eng_cmd4linuxhdlr.c\<close>) or its checksum; it goes to a handler, to the modem or to both.
  \<^item> The message queues of the camera threads (\<open>libs/libcamera/sc8830/src/cmr_msg.c\<close>).
  \<^item> The digests, base 64 and numbers of the device management client (\<open>libs/libdm/src/sprd_dm_md5_b64.c\<close>).

  \<^bold>\<open>Conventions.\<close> The target is 32 bit ARM: little endian, \<open>int\<close> and \<open>long\<close> of 32 bits, \<open>char\<close> unsigned. Machine
  integers are words of their width where they can wrap around. A byte buffer is a list; an access outside it, the use
  of an indeterminate value and other undefined behaviour give \<^const>\<open>None\<close>, as does a call that never returns. The
  operating system is the environment: a channel or a daemon state carries the outcomes of the system calls to come, in
  program order, and every theorem holds for all of them unless it says otherwise. Log output and sleeps are left out.
  Global variables are a record that each function takes and returns. The names are those of the source.

  \<^bold>\<open>Theories.\<close>

  \<^item> \<open>Sprd_Prelude\<close>: machine types, buffers, little endian layout, and the locales \<open>invariant_machine\<close> and
    \<open>progress_machine\<close> for state machines. \<open>C_Text\<close>: strings and conversions of the C library. \<open>Posix_Io\<close>: channels.
  \<^item> \<open>Checksums\<close>: \<open>crc_16_l_calc\<close>, \<open>calculate_crc\<close>, and the implementations of the ones' complement sum. The locales \<open>byte_crc\<close>
    and \<open>checksum16\<close> are what the packet and file formats rely on. Shown: a message with its code has residue 0,
    an error in one byte is detected, the table is that of the polynomial, the sums agree.
  \<^item> \<open>Mc_Packet\<close>: framing, packet layout, the exchange of a message and its reply. Shown: frames are delimited and decode to what
    was encoded where the code does so, what the packets of each message type carry and how they are checked, a reply is reassembled from any split.
  \<^item> \<open>Mc_Boot\<close>: the image table, the choice between image and backup, the download functions, the connection and the boot loop. Shown: the table
    is well formed whenever the parser meets no undefined behaviour, which conditions on the lines of the configuration file ensure; a good image is chosen if
    there is one. \<open>Mc_Download\<close>: the byte streams that reach the modem.
  \<^item> \<open>Mc_Manager\<close>: one round of the manager as a function, an abstract automaton of the modem and the proof that rounds refine it, and an
    invariant of all runs.
  \<^item> \<open>Nv_Fs\<close>, \<open>Nv_Buf\<close>, \<open>Nv_Sync\<close>, \<open>Nv_Server\<close>: the NV daemon from the files to \<open>main\<close>. \<open>Nv_Fs\<close> shows through the locale
    \<open>nv_store\<close> that what was written is read back and that a damaged file is recovered. \<open>Nv_Sync\<close> holds the abstract
    store, a deterministic specification of what a sequence of packets does to the images, and the proof that each round follows it;
    \<open>Nv_Request\<close> concludes that the daemon is this transactional store: a request takes effect completely, or, if it does not end with its tail, not at all; and that a
    well-formed request, however it is split over packets, is applied and acknowledged. This theory shows that an acknowledged
    request is what the files give after a restart.
  \<^item> \<open>Wcn_Manager\<close>: the state of the WCN daemon, notifications, the operations on the coprocessor, the reset as a sequence of phases,
    the handlers of exceptions. \<open>Wcn_Command\<close>: the tokenizer, the executers, the client thread, the start; commands with quoted
    arguments arrive as sent. \<open>Wcn_Reset\<close>: what each operation leaves alone, what a client is told in a reset, what a successful reset wrote.
    \<open>Wcn_Threads\<close>: the three threads as a step relation over their accesses to the shared flags. \<open>Wcn_Clients\<close>: the table of clients.
    \<open>Wcn_Mac\<close>: the addresses, which are kept from one start to the next.
  \<^item> \<open>Eng_Codec\<close>: the escapes of a frame, put in and taken out in place, and hexadecimal text; both are inverted. \<open>Eng_Attok\<close>: the tokenizer; a
    line of fields and numbers is read back. \<open>Eng_Diag\<close>: the parser of a frame and all it asks; frames with addresses are accepted exactly
    with their checksum. \<open>Eng_Vdiag\<close>: a round of the thread; frames in pieces of any size are judged and delivered like whole
    messages, collecting never stores outside of the buffer, and what becomes of a frame that is longer than half the buffer.
  \<^item> \<open>Cmr_Msg\<close>: the queues, each function cut at its critical section, and the steps of several threads. The locale \<open>bounded_fifo\<close> is the
    contract of a bounded queue; under every interleaving messages are delivered in order and the bound is kept.
  \<^item> \<open>Dm_Md5\<close>: the digest of a message in pieces of any size is that of RFC 1321, whose tables are written down independently.
    \<open>Dm_Base64\<close>: the encoder against a reference encoding, the decoder inverts it. \<open>Dm_Num\<close>: printing and parsing of numbers, through the locale
    \<open>digit_codec\<close> for both radixes.

  \<^bold>\<open>Bounds and termination.\<close> No fuel is used. A loop over system calls consumes the outcomes to come, so its recursion ends; where the
  source loops for ever without a bound, one turn is a function and runs are sequences of turns. Theorems that a
  loop returns say so: the reply loop of \<open>packet.c\<close> and the analyser of \<open>nvitem_sync.c\<close> return a value, a reset of the coprocessor ends
  after at most 18 phases. Loops with a counter in the source (attempts, polls) use that counter.

  \<^bold>\<open>Not modelled.\<close>

  \<^item> Of the modelled files: log output, sleeps, thread priorities, the set-up of signals and of serial lines, code under
    a disabled conditional and functions without a caller.
  \<^item> Of the engineering mode: the handlers of the test commands (hardware tests, SQLite, the audio server). What they leave in the variables
    that decide about later frames is an input of \<open>eng_diag\<close>; a handler that does not return is left out, as is the start of the thread.
  \<^item> Third-party code in the tree: the Mali drivers (\<open>libs/mali\<close>), busybox, e2fsprogs, iperf and crash under \<open>tools\<close>.
  \<^item> Java applications (\<open>apps/APCT\<close>, \<open>apps/cudm\<close>, \<open>apps/dm\<close>, \<open>apps/modemassert\<close> and the test tools), whose behaviour is that of the Android framework.
  \<^item> The rest of \<open>libs/libcamera\<close> (sensor register tables, calls of the kernel drivers, closed algorithm libraries), audio, composer, OMX
    components, gralloc and sensors: C++ classes around kernel drivers and the Android framework, which are not in the tree.
  \<^item> The rest of \<open>libs/libdm\<close>: the interface to Java and to the closed protocol library.
  \<^item> The smaller daemons and tools listed as not modelled in the manifest.
\<close>

section \<open>The NV daemon from the modem to the flash\<close>

text \<open>C8: An acknowledged request survives a restart: once the save task has handled the partition on
  a working disk, reading the partition from the files, whichever file is tried first, gives the
  image the request committed. The read asks for the sectors of the partition, as the first read after a
  restart does when the configured size is a multiple of 512.\<close>

theorem acknowledged_request_survives_restart:
  assumes "initBuf cfg False rnd junk d = Some m" and "run_steps nv_step (server_start m c0) es = Some s"
    and "syncState s = 0" and "syncBusy s = 0" and "is_cali_mode (mem s) = False" and "getCtlId pid (mem s) \<noteq> -1"
    and "accept_all pid (committeds (mem s) ! slot (mem s) pid) Idle pks = Some (Finished img True)"
    and "pks \<noteq> []" and "\<forall>ps \<in> set pks. ps \<noteq> [] \<and> length (payload ps) \<le> PACKETSIZE"
    and "rx (link s) = packets grp 0 pks @ rest" and "good_link (length pks) (link s)" and "idxGrp s \<noteq> grp"
    and "usable (ramdiskCfg (mem s)) (fdhandle (parts (mem s) ! slot (mem s) pid))
           (image_bytes (parts (mem s) ! slot (mem s) pid)) (Suc (Suc k)) (nvdisk (mem s))"
  shows "\<exists>s'. run_steps nv_step s (replicate (length pks) (Round c) @ [SavePart (slot (mem s) pid)]) = Some s' \<and>
    (\<exists>d'. ramDisk_Read (ramdiskCfg (mem s)) order (fdhandle (parts (mem s) ! slot (mem s) pid))
       (image_bytes (parts (mem s) ! slot (mem s) pid)) old (nvdisk (mem s')) = Some (True, img, d'))"
proof -
  have "sync_inv s" using nvd.inv_run [OF server_start_inv(1) [OF assms(1)] assms(2)] by (simp add: daemon_inv_def)
  then show ?thesis using assms by (intro request_saved) simp_all
qed

lemma w_usable: "usable w_cfg 1 512 3 w_disk"
  by (simp add: usable_def w_cfg_def ramDisk_Init_def w_disk_def demo_disk_def steady_def RAMNV_SECT_SIZE_def)

lemma w_slot: "slot w_mem 1 = 0" "parts w_mem ! 0 = w_part 1" "ramdiskCfg w_mem = w_cfg" "nvdisk w_mem = w_disk"
  "fdhandle (w_part 1) = 1" "image_bytes (w_part 1) = 512" "is_cali_mode w_mem = False" "w_request \<noteq> []"
  "rx w_link = packets 3 0 w_request @ []"
  by (simp_all add: slot_def w_committed)
     (simp_all add: w_mem_def w_part_def Let_def image_bytes_def RAMNV_SECT_SIZE_def w_request_def w_link_def)

theorem acknowledged_request_survives_restart_witness:
  "\<exists>s'. run_steps nv_step (server_start w_mem w_link)
       (replicate (length w_request) (Round w_link) @ [SavePart (slot (mem (server_start w_mem w_link)) 1)]) = Some s' \<and>
    (\<exists>d'. ramDisk_Read (ramdiskCfg (mem (server_start w_mem w_link))) True
       (fdhandle (parts (mem (server_start w_mem w_link)) ! slot (mem (server_start w_mem w_link)) 1))
       (image_bytes (parts (mem (server_start w_mem w_link)) ! slot (mem (server_start w_mem w_link)) 1)) []
       (nvdisk (mem s')) = Some (True, w_image, d'))"
proof (rule acknowledged_request_survives_restart [OF w_init, where es = "[]" and ?c0.0 = w_link and grp = 3 and rest = "[]" and k = 1])
  show "accept_all 1 (committeds (mem (server_start w_mem w_link)) ! slot (mem (server_start w_mem w_link)) 1) Idle w_request =
      Some (Finished w_image True)"
    using w_accept by (simp add: w_start w_slot w_committed del: accept_all.simps)
qed (use w_start w_committed w_sizes w_slot w_usable in \<open>simp_all add: numeral_3_eq_3\<close>)

end
